theory Spec2Isabelle
  imports Main "HOL-Library.Word"
begin

unbundle bit_operations_syntax

section \<open>Machine model\<close>

text \<open>
  The allocator of \<^verbatim>\<open>asan_allocator.cc\<close> is embedded for an LP64 target:
  \<^verbatim>\<open>size_t\<close>, \<^verbatim>\<open>uintptr_t\<close> and every pointer are 64-bit words whose arithmetic wraps.
  Application memory is a store of machine words keyed by byte address (every access of
  the allocator is a word access at a word-aligned address); the shadow is a store of
  bytes of its own.  A failed \<^verbatim>\<open>CHECK\<close> and the \<^verbatim>\<open>abort()\<close> after a failed
  \<^verbatim>\<open>mmap\<close> end the process; they are the \<open>Inl\<close> results.
\<close>

type_synonym addr = "64 word"

datatype error =
    CheckFailed   \<comment> \<open>a \<^verbatim>\<open>CHECK\<close> failed: the process aborts\<close>
  | MmapFailed    \<comment> \<open>\<^verbatim>\<open>mmap\<close> returned -1: diagnostic, then \<^verbatim>\<open>abort()\<close>\<close>
  | Undefined     \<comment> \<open>undefined behaviour of C: a count of zeros of 0, a shift by the word width\<close>

type_synonym 'a result = "error + 'a"

definition bind_r :: "'a result \<Rightarrow> ('a \<Rightarrow> 'b result) \<Rightarrow> 'b result" where
  "bind_r m f = (case m of Inl e \<Rightarrow> Inl e | Inr x \<Rightarrow> f x)"

definition CHECK :: "bool \<Rightarrow> 'a result \<Rightarrow> 'a result" where
  "CHECK b k = (if b then k else Inl CheckFailed)"

text \<open>
  The constants of the headers that are not part of the sources at hand
  (\<^verbatim>\<open>asan_int.h\<close>, \<^verbatim>\<open>asan_mapping.h\<close>) and the run-time flag
  \<^verbatim>\<open>__asan_flag_quarantine_size\<close> are parameters of the model.
\<close>

record config =
  kMinRedzone :: addr
  kPageSize :: addr
  kShadowShift :: nat
  kShadowOffset :: addr
  flag_quarantine_size :: addr

definition WORDSIZE :: nat where
  "WORDSIZE = 64"

definition kWordSize :: addr where
  "kWordSize = 8"

definition kRedzone :: "config \<Rightarrow> addr" where
  "kRedzone cfg = kMinRedzone cfg * 2"

definition kMinAllocSize :: "config \<Rightarrow> addr" where
  "kMinAllocSize cfg = kRedzone cfg * 2"

definition kMinMmapSize :: "config \<Rightarrow> addr" where
  "kMinMmapSize cfg = kPageSize cfg * 128"

definition CHUNK_AVAILABLE :: addr where
  "CHUNK_AVAILABLE = 0x573B5CE5"

definition CHUNK_ALLOCATED :: addr where
  "CHUNK_ALLOCATED = 0x32041A36"

definition CHUNK_QUARANTINE :: addr where
  "CHUNK_QUARANTINE = 0x1978BAE3"

definition CHUNK_MEMALIGN :: addr where
  "CHUNK_MEMALIGN = 0xDC68ECD8"

subsection \<open>Bit helpers\<close>

definition IsAligned :: "addr \<Rightarrow> addr \<Rightarrow> bool" where
  "IsAligned a alignment = (a AND (alignment - 1) = 0)"

definition IsWordAligned :: "addr \<Rightarrow> bool" where
  "IsWordAligned a = IsAligned a kWordSize"

definition IsPowerOfTwo :: "addr \<Rightarrow> bool" where
  "IsPowerOfTwo x = (x AND (x - 1) = 0)"

text \<open>\<^verbatim>\<open>__builtin_ctzl\<close> and \<^verbatim>\<open>__builtin_clzl\<close> on a non-zero argument.\<close>

fun ctz_nat :: "nat \<Rightarrow> nat" where
  "ctz_nat n = (if n = 0 \<or> odd n then 0 else Suc (ctz_nat (n div 2)))"

fun bitlen_nat :: "nat \<Rightarrow> nat" where
  "bitlen_nat n = (if n = 0 then 0 else Suc (bitlen_nat (n div 2)))"

declare ctz_nat.simps [simp del]
declare bitlen_nat.simps [simp del]

definition builtin_ctzl :: "addr \<Rightarrow> nat result" where
  "builtin_ctzl x = (if x = 0 then Inl Undefined else Inr (ctz_nat (unat x)))"

definition builtin_clzl :: "addr \<Rightarrow> nat result" where
  "builtin_clzl x = (if x = 0 then Inl Undefined else Inr (WORDSIZE - bitlen_nat (unat x)))"

definition Log2 :: "addr \<Rightarrow> nat result" where
  "Log2 x = CHECK (IsPowerOfTwo x) (builtin_ctzl x)"

definition RoundUptoRedzone :: "config \<Rightarrow> addr \<Rightarrow> addr" where
  "RoundUptoRedzone cfg sz = ((sz + kRedzone cfg - 1) div kRedzone cfg) * kRedzone cfg"

text \<open>\<^verbatim>\<open>1UL << up\<close> is undefined for \<open>up = 64\<close>.\<close>

definition shl1 :: "nat \<Rightarrow> addr result" where
  "shl1 up = (if up < WORDSIZE then Inr (push_bit up 1) else Inl Undefined)"

definition RoundUptoPowerOfTwo :: "addr \<Rightarrow> addr result" where
  "RoundUptoPowerOfTwo sz =
     CHECK (sz \<noteq> 0)
       (if IsPowerOfTwo sz then Inr sz
        else bind_r (builtin_clzl sz) (\<lambda>lz.
             let up = WORDSIZE - lz in
             bind_r (shl1 up) (\<lambda>hi.
             CHECK (sz < hi)
               (bind_r (shl1 (up - 1)) (\<lambda>lo.
                CHECK (sz > lo) (Inr hi))))))"

subsection \<open>The allocator's state\<close>

text \<open>
  \<open>mem\<close> and \<open>shadow\<close> are the two stores; \<open>chunks\<close>, \<open>quarantine\<close>,
  \<open>quarantine_size\<close> and \<open>malloced_items\<close> are the members of \<^verbatim>\<open>MallocInfo\<close>;
  \<open>mapped\<close> lists the regions \<^verbatim>\<open>mmap\<close> has handed out (base, size);
  \<open>stat_reallocs\<close> and \<open>stat_realloced\<close> are the two counters of \<^verbatim>\<open>__asan_stats\<close>
  that this file updates.
\<close>

record state =
  mem :: "addr \<Rightarrow> addr"
  shadow :: "addr \<Rightarrow> 8 word"
  chunks :: "nat \<Rightarrow> addr"
  quarantine :: addr
  quarantine_size :: addr
  malloced_items :: addr
  mapped :: "(addr \<times> addr) list"
  stat_reallocs :: addr
  stat_realloced :: addr

definition init_state :: state where
  "init_state = \<lparr> mem = (\<lambda>_. 0), shadow = (\<lambda>_. 0), chunks = (\<lambda>_. 0),
     quarantine = 0, quarantine_size = 0, malloced_items = 0, mapped = [],
     stat_reallocs = 0, stat_realloced = 0 \<rparr>"

text \<open>The fields of \<^verbatim>\<open>struct Chunk\<close>, five words from the chunk's base.\<close>

definition chunk_state :: "(addr \<Rightarrow> addr) \<Rightarrow> addr \<Rightarrow> addr" where
  "chunk_state h m = h m"

definition allocated_size :: "(addr \<Rightarrow> addr) \<Rightarrow> addr \<Rightarrow> addr" where
  "allocated_size h m = h (m + 8)"

definition used_size :: "(addr \<Rightarrow> addr) \<Rightarrow> addr \<Rightarrow> addr" where
  "used_size h m = h (m + 16)"

definition next_of :: "(addr \<Rightarrow> addr) \<Rightarrow> addr \<Rightarrow> addr" where
  "next_of h m = h (m + 24)"

definition prev_of :: "(addr \<Rightarrow> addr) \<Rightarrow> addr \<Rightarrow> addr" where
  "prev_of h m = h (m + 32)"

definition store :: "addr \<Rightarrow> addr \<Rightarrow> state \<Rightarrow> state" where
  "store a v s = s\<lparr>mem := (mem s)(a := v)\<rparr>"

definition set_chunk_state :: "addr \<Rightarrow> addr \<Rightarrow> state \<Rightarrow> state" where
  "set_chunk_state m v = store m v"

definition set_allocated_size :: "addr \<Rightarrow> addr \<Rightarrow> state \<Rightarrow> state" where
  "set_allocated_size m v = store (m + 8) v"

definition set_used_size :: "addr \<Rightarrow> addr \<Rightarrow> state \<Rightarrow> state" where
  "set_used_size m v = store (m + 16) v"

definition set_next :: "addr \<Rightarrow> addr \<Rightarrow> state \<Rightarrow> state" where
  "set_next m v = store (m + 24) v"

definition set_prev :: "addr \<Rightarrow> addr \<Rightarrow> state \<Rightarrow> state" where
  "set_prev m v = store (m + 32) v"

subsection \<open>Shadow and pages\<close>

text \<open>
  Modelled from the spec: \<^verbatim>\<open>MemToShadow\<close> is declared in \<^verbatim>\<open>asan_mapping.h\<close>, which is
  not among the sources.  The spec calls it a fixed affine transform of the application
  address at a compression of one shadow byte per \<open>2 ^ kShadowShift\<close> bytes.
\<close>

definition MemToShadow :: "config \<Rightarrow> addr \<Rightarrow> addr" where
  "MemToShadow cfg a = drop_bit (kShadowShift cfg) a + kShadowOffset cfg"

text \<open>\<^verbatim>\<open>memset(beg, v, n)\<close> on a byte store: the \<open>n\<close> bytes from \<open>beg\<close> on.\<close>

definition memset :: "(addr \<Rightarrow> 'v) \<Rightarrow> addr \<Rightarrow> 'v \<Rightarrow> addr \<Rightarrow> (addr \<Rightarrow> 'v)" where
  "memset h beg v n = (\<lambda>a. if a - beg < n then v else h a)"

definition PoisonShadow :: "config \<Rightarrow> addr \<Rightarrow> addr \<Rightarrow> 8 word \<Rightarrow> state \<Rightarrow> state result" where
  "PoisonShadow cfg m sz poison s =
     CHECK (IsAligned m (push_bit (kShadowShift cfg) 1))
    (CHECK (IsAligned (m + sz) (push_bit (kShadowShift cfg) 1))
      (let shadow_beg = MemToShadow cfg m;
           shadow_end = MemToShadow cfg (m + sz)
       in Inr (s\<lparr>shadow := memset (shadow s) shadow_beg poison (shadow_end - shadow_beg)\<rparr>)))"

text \<open>
  \<^verbatim>\<open>mmap\<close> is the operating system's: \<open>os sz\<close> is the address it answers a request of
  \<open>sz\<close> bytes with, \<open>-1\<close> when it fails.  A fresh anonymous mapping reads as zero.
\<close>

type_synonym os_mmap = "addr \<Rightarrow> addr"

definition MmapNewPages :: "config \<Rightarrow> os_mmap \<Rightarrow> addr \<Rightarrow> state \<Rightarrow> (addr \<times> state) result" where
  "MmapNewPages cfg os sz s =
     CHECK (sz mod kPageSize cfg = 0)
       (let res = os sz in
        if res = - 1 then Inl MmapFailed
        else bind_r (PoisonShadow cfg res sz (- 1)
                       (s\<lparr>mem := memset (mem s) res 0 sz,
                          mapped := (res, sz) # mapped s\<rparr>))
               (\<lambda>s'. Inr (res, s')))"

subsection \<open>\<^verbatim>\<open>MallocInfo\<close>\<close>

definition carve :: "addr \<Rightarrow> addr \<Rightarrow> nat \<Rightarrow> nat \<Rightarrow> state \<Rightarrow> state" where
  "carve base sz idx i s =
     (let m = base + of_nat i * sz;
          s1 = set_chunk_state m CHUNK_AVAILABLE s;
          s2 = set_allocated_size m sz s1;
          s3 = set_next m (chunks s2 idx) s2
      in s3\<lparr>chunks := (chunks s3)(idx := m)\<rparr>)"

definition GetNewChunks :: "config \<Rightarrow> os_mmap \<Rightarrow> addr \<Rightarrow> state \<Rightarrow> state result" where
  "GetNewChunks cfg os sz s =
     bind_r (Log2 sz) (\<lambda>idx.
     CHECK (chunks s idx = 0)
    (CHECK (IsPowerOfTwo sz)
    (CHECK (IsPowerOfTwo (kMinMmapSize cfg))
      (let mmap_size = max sz (kMinMmapSize cfg) in
       CHECK (IsPowerOfTwo mmap_size)
         (bind_r (MmapNewPages cfg os mmap_size s) (\<lambda>(base, s1).
            Inr (fold (carve base sz idx) [0 ..< unat (mmap_size div sz)] s1)))))))"

definition AllocateChunk :: "config \<Rightarrow> os_mmap \<Rightarrow> addr \<Rightarrow> state \<Rightarrow> (addr \<times> state) result" where
  "AllocateChunk cfg os sz s =
     CHECK (IsPowerOfTwo sz)
       (bind_r (Log2 sz) (\<lambda>idx.
        bind_r (if chunks s idx = 0 then GetNewChunks cfg os sz s else Inr s) (\<lambda>s1.
        let m = chunks s1 idx in
        CHECK (m \<noteq> 0)
          (let s2 = s1\<lparr>chunks := (chunks s1)(idx := next_of (mem s1) m)\<rparr>;
               s3 = set_next m 0 (set_prev m 0 s2)
           in CHECK (chunk_state (mem s3) m = CHUNK_AVAILABLE)
                (let s4 = set_chunk_state m CHUNK_ALLOCATED s3;
                     s5 = (if malloced_items s4 \<noteq> 0
                           then set_prev (malloced_items s4) m s4 else s4);
                     s6 = set_next m (malloced_items s5) s5
                 in Inr (m, s6\<lparr>malloced_items := m\<rparr>))))))"

definition pop :: "state \<Rightarrow> state result" where
  "pop s =
     CHECK (quarantine s \<noteq> 0)
    (CHECK (quarantine_size s > 0)
      (let m = prev_of (mem s) (quarantine s) in
       CHECK (m \<noteq> 0)
         (let nxt = next_of (mem s) m;
              prv = prev_of (mem s) m
          in CHECK (nxt \<noteq> 0 \<and> prv \<noteq> 0)
               (let s1 = (if nxt = m then s\<lparr>quarantine := 0\<rparr>
                          else set_next prv nxt (set_prev nxt prv s))
                in CHECK (quarantine_size s1 \<ge> allocated_size (mem s1) m)
                     (let s2 = s1\<lparr>quarantine_size :=
                                   quarantine_size s1 - allocated_size (mem s1) m\<rparr>
                      in CHECK (chunk_state (mem s2) m = CHUNK_QUARANTINE)
                           (let s3 = set_chunk_state m CHUNK_AVAILABLE s2 in
                            bind_r (Log2 (allocated_size (mem s3) m)) (\<lambda>idx.
                            let s4 = set_next m (chunks s3 idx) s3
                            in Inr (s4\<lparr>chunks := (chunks s4)(idx := m)\<rparr>))))))))"

text \<open>
  The eviction loop at the end of \<^verbatim>\<open>TakeChunkBack\<close>:
  \<^verbatim>\<open>while (quarantine_size_ && (quarantine_size_ > __asan_flag_quarantine_size)) pop();\<close>
  Every \<open>pop\<close> that returns has lowered the counter, which is the loop's measure.
\<close>

lemma bind_r_Inr_iff: "bind_r m f = Inr y \<longleftrightarrow> (\<exists>x. m = Inr x \<and> f x = Inr y)"
  by (cases m) (simp_all add: bind_r_def)

lemma CHECK_Inr_iff: "CHECK b k = Inr y \<longleftrightarrow> b \<and> k = Inr y"
  by (simp add: CHECK_def)

lemma Log2_Inr_nonzero: "Log2 x = Inr i \<Longrightarrow> x \<noteq> 0"
  by (auto simp: Log2_def builtin_ctzl_def CHECK_Inr_iff split: if_splits)

lemma pop_quarantine_size:
  assumes "pop s = Inr s'"
  shows "quarantine_size s' = quarantine_size s - allocated_size (mem s') (prev_of (mem s) (quarantine s))
       \<and> allocated_size (mem s') (prev_of (mem s) (quarantine s)) \<le> quarantine_size s
       \<and> allocated_size (mem s') (prev_of (mem s) (quarantine s)) \<noteq> 0"
  using assms
  by (auto simp: pop_def CHECK_Inr_iff bind_r_Inr_iff Let_def store_def set_next_def
      set_prev_def set_chunk_state_def allocated_size_def
      dest!: Log2_Inr_nonzero split: if_splits)

lemma pop_decreases:
  assumes "pop s = Inr s'"
  shows "unat (quarantine_size s') < unat (quarantine_size s)"
proof -
  let ?a = "allocated_size (mem s') (prev_of (mem s) (quarantine s))"
  from pop_quarantine_size [OF assms]
  have eq: "quarantine_size s' = quarantine_size s - ?a" and le: "?a \<le> quarantine_size s"
    and nz: "?a \<noteq> 0" by simp_all
  from le have "unat (quarantine_size s - ?a) = unat (quarantine_size s) - unat ?a"
    by (simp add: unat_sub)
  moreover from nz have "0 < unat ?a" by (simp add: unat_gt_0)
  moreover from le have "unat ?a \<le> unat (quarantine_size s)" by (simp add: word_le_nat_alt)
  ultimately show ?thesis using eq by simp
qed

function TakeChunkBack_loop :: "config \<Rightarrow> state \<Rightarrow> state result" where
  "TakeChunkBack_loop cfg s =
     (if quarantine_size s \<noteq> 0 \<and> quarantine_size s > flag_quarantine_size cfg
      then (case pop s of Inl e \<Rightarrow> Inl e | Inr s' \<Rightarrow> TakeChunkBack_loop cfg s')
      else Inr s)"
  by pat_completeness auto
termination
  by (relation "measure (\<lambda>(cfg, s). unat (quarantine_size s))") (auto dest: pop_decreases)

declare TakeChunkBack_loop.simps [simp del]

definition TakeChunkBack :: "config \<Rightarrow> addr \<Rightarrow> state \<Rightarrow> state result" where
  "TakeChunkBack cfg m s =
     CHECK (m \<noteq> 0)
    (CHECK (chunk_state (mem s) m = CHUNK_ALLOCATED)
    (CHECK (IsPowerOfTwo (allocated_size (mem s) m))
    (CHECK (flag_quarantine_size cfg > 0)
      (let s1 = (if m = malloced_items s
                 then (let sa = s\<lparr>malloced_items := next_of (mem s) m\<rparr>
                       in if malloced_items sa \<noteq> 0
                          then set_prev (malloced_items sa) 0 sa else sa)
                 else (let prv = prev_of (mem s) m;
                           nxt = next_of (mem s) m;
                           sa = (if prv \<noteq> 0 then set_next prv nxt s else s)
                       in if nxt \<noteq> 0 then set_prev nxt prv sa else sa));
           s2 = (if quarantine s1 = 0
                 then set_next m m (set_prev m m s1)
                 else (let prv = prev_of (mem s1) (quarantine s1);
                           nxt = quarantine s1
                       in set_prev nxt m (set_next prv m (set_prev m prv (set_next m nxt s1)))));
           s3 = s2\<lparr>quarantine := m\<rparr>;
           s4 = s3\<lparr>quarantine_size := quarantine_size s3 + allocated_size (mem s3) m\<rparr>;
           s5 = set_chunk_state m CHUNK_QUARANTINE s4
       in TakeChunkBack_loop cfg s5))))"

definition MallocInfo_Deallocate :: "config \<Rightarrow> addr \<Rightarrow> state \<Rightarrow> state result" where
  "MallocInfo_Deallocate cfg m s =
     CHECK (m \<noteq> 0)
    (CHECK (chunk_state (mem s) m = CHUNK_ALLOCATED)
      (TakeChunkBack cfg m s))"

subsection \<open>The allocation service\<close>

definition needed_size :: "config \<Rightarrow> addr \<Rightarrow> addr \<Rightarrow> addr" where
  "needed_size cfg alignment sz =
     (let rounded_size = RoundUptoRedzone cfg sz;
          needed = rounded_size + kRedzone cfg
      in if alignment > kRedzone cfg then needed + alignment else needed)"

text \<open>
  The alignment shift of \<^verbatim>\<open>Allocate\<close>: the pointer is rounded up to the alignment and
  the two words \<^verbatim>\<open>p[0]\<close>, \<^verbatim>\<open>p[1]\<close> at \<^verbatim>\<open>p = addr - kRedzone\<close> are written.
\<close>

definition place :: "config \<Rightarrow> addr \<Rightarrow> addr \<Rightarrow> state \<Rightarrow> (addr \<times> state) result" where
  "place cfg alignment m s =
     (let addr = m + kRedzone cfg in
      if alignment > kRedzone cfg \<and> addr AND (alignment - 1) \<noteq> 0
      then bind_r (Log2 alignment) (\<lambda>alignment_log.
           let addr' = push_bit alignment_log (drop_bit alignment_log (addr + alignment - 1)) in
           CHECK (addr' AND (alignment - 1) = 0)
             (let p = addr' - kRedzone cfg;
                  s1 = store p CHUNK_MEMALIGN s;
                  s2 = store (p + 8) m s1
              in Inr (addr', s2)))
      else Inr (addr, s))"

definition Allocate :: "config \<Rightarrow> os_mmap \<Rightarrow> addr \<Rightarrow> addr \<Rightarrow> state \<Rightarrow> (addr \<times> state) result" where
  "Allocate cfg os alignment sz s =
     (if sz = 0 then Inr (0, s)
      else
        CHECK (IsPowerOfTwo alignment)
          (let rounded_size = RoundUptoRedzone cfg sz;
               needed = needed_size cfg alignment sz
           in CHECK (needed mod kRedzone cfg = 0)
                (bind_r (RoundUptoPowerOfTwo needed) (\<lambda>size_to_allocate.
                 CHECK (size_to_allocate \<ge> kMinAllocSize cfg)
                (CHECK (size_to_allocate mod kRedzone cfg = 0)
                  (bind_r (AllocateChunk cfg os size_to_allocate s) (\<lambda>(m, s1).
                   CHECK (m \<noteq> 0)
                  (CHECK (allocated_size (mem s1) m = size_to_allocate)
                  (CHECK (chunk_state (mem s1) m = CHUNK_ALLOCATED)
                    (bind_r (place cfg alignment m (set_used_size m sz s1)) (\<lambda>(addr, s2).
                     bind_r (PoisonShadow cfg addr rounded_size 0 s2) (\<lambda>s3.
                     Inr (addr, s3)))))))))))))"

definition asan_clear_mem :: "addr \<Rightarrow> addr \<Rightarrow> state \<Rightarrow> state result" where
  "asan_clear_mem p n_words s =
     CHECK (IsWordAligned p)
       (Inr (fold (\<lambda>i. store (p + 8 * of_nat i) 0) [0 ..< unat n_words] s))"

definition asan_copy_mem :: "addr \<Rightarrow> addr \<Rightarrow> addr \<Rightarrow> state \<Rightarrow> state result" where
  "asan_copy_mem dst src n_words s =
     CHECK (IsWordAligned dst)
    (CHECK (IsWordAligned src)
      (Inr (fold (\<lambda>i t. store (dst + 8 * of_nat i) (mem t (src + 8 * of_nat i)) t)
              [0 ..< unat n_words] s)))"

definition PtrToChunk :: "config \<Rightarrow> (addr \<Rightarrow> addr) \<Rightarrow> addr \<Rightarrow> addr" where
  "PtrToChunk cfg h ptr =
     (let m = ptr - kRedzone cfg in
      if chunk_state h m = CHUNK_MEMALIGN then h (m + 8) else m)"

definition Deallocate :: "config \<Rightarrow> addr \<Rightarrow> state \<Rightarrow> state result" where
  "Deallocate cfg ptr s =
     (if ptr = 0 then Inr s
      else
        (let m = PtrToChunk cfg (mem s) ptr in
         CHECK (chunk_state (mem s) m = CHUNK_ALLOCATED)
           (let rounded_size = RoundUptoRedzone cfg (used_size (mem s) m) in
            bind_r (PoisonShadow cfg ptr rounded_size (- 1) s) (\<lambda>s1.
            MallocInfo_Deallocate cfg m s1))))"

definition Reallocate :: "config \<Rightarrow> os_mmap \<Rightarrow> addr \<Rightarrow> addr \<Rightarrow> state \<Rightarrow> (addr \<times> state) result" where
  "Reallocate cfg os ptr sz s =
     (if ptr = 0 then Allocate cfg os 0 sz s
      else if sz = 0 then Inr (0, s)
      else
        (let m = PtrToChunk cfg (mem s) ptr in
         CHECK (chunk_state (mem s) m = CHUNK_ALLOCATED)
           (let old_size = used_size (mem s) m;
                memcpy_size = min sz old_size
            in bind_r (Allocate cfg os 0 sz s) (\<lambda>(new_ptr, s1).
               bind_r (asan_copy_mem new_ptr ptr ((memcpy_size + kWordSize - 1) div kWordSize) s1) (\<lambda>s2.
               bind_r (Deallocate cfg ptr s2) (\<lambda>s3.
               Inr (new_ptr, s3\<lparr>stat_reallocs := stat_reallocs s3 + 1,
                                 stat_realloced := stat_realloced s3 + memcpy_size\<rparr>)))))))"

subsection \<open>The exported entry points\<close>

definition asan_memalign :: "config \<Rightarrow> os_mmap \<Rightarrow> addr \<Rightarrow> addr \<Rightarrow> state \<Rightarrow> (addr \<times> state) result" where
  "asan_memalign cfg os alignment sz s = Allocate cfg os alignment sz s"

definition asan_free :: "config \<Rightarrow> addr \<Rightarrow> state \<Rightarrow> state result" where
  "asan_free cfg ptr s = Deallocate cfg ptr s"

definition asan_malloc :: "config \<Rightarrow> os_mmap \<Rightarrow> addr \<Rightarrow> state \<Rightarrow> (addr \<times> state) result" where
  "asan_malloc cfg os sz s = Allocate cfg os 0 sz s"

definition asan_calloc :: "config \<Rightarrow> os_mmap \<Rightarrow> addr \<Rightarrow> addr \<Rightarrow> state \<Rightarrow> (addr \<times> state) result" where
  "asan_calloc cfg os nmemb sz s =
     bind_r (Allocate cfg os 0 (nmemb * sz) s) (\<lambda>(res, s1).
     bind_r (asan_clear_mem res ((nmemb * sz + kWordSize - 1) div kWordSize) s1) (\<lambda>s2.
     Inr (res, s2)))"

definition asan_realloc :: "config \<Rightarrow> os_mmap \<Rightarrow> addr \<Rightarrow> addr \<Rightarrow> state \<Rightarrow> (addr \<times> state) result" where
  "asan_realloc cfg os p sz s = Reallocate cfg os p sz s"

definition asan_valloc :: "config \<Rightarrow> os_mmap \<Rightarrow> addr \<Rightarrow> state \<Rightarrow> (addr \<times> state) result" where
  "asan_valloc cfg os sz s = Allocate cfg os (kPageSize cfg) sz s"


section \<open>The heap invariant\<close>

text \<open>
  The constants of the absent headers are taken as the allocator needs them: the redzone
  and the page size are powers of two, a chunk header (five words) fits in the redzone,
  a page holds at least one chunk of the least size, and both are small enough for
  \<^verbatim>\<open>kMinMmapSize\<close> to be computed without wrap-around.
\<close>

definition wf_config :: "config \<Rightarrow> bool" where
  "wf_config cfg \<longleftrightarrow>
     IsPowerOfTwo (kMinRedzone cfg) \<and> 32 \<le> kMinRedzone cfg \<and> kMinRedzone cfg \<le> 2 ^ 40
   \<and> IsPowerOfTwo (kPageSize cfg) \<and> kMinAllocSize cfg \<le> kPageSize cfg \<and> kPageSize cfg \<le> 2 ^ 50"

text \<open>
  Chunks are carved at multiples of \<^verbatim>\<open>kMinAllocSize\<close>; \<open>region b n\<close> is the set of the
  \<open>n\<close> byte addresses from \<open>b\<close> on, as natural numbers.  The five words of a header
  do not overlap the words of another header once both bases are multiples of 64.
\<close>

definition aligned :: "config \<Rightarrow> addr \<Rightarrow> bool" where
  "aligned cfg c \<longleftrightarrow> unat (kMinAllocSize cfg) dvd unat c"

definition al :: "addr \<Rightarrow> bool" where
  "al c \<longleftrightarrow> 64 dvd unat c"

definition region :: "addr \<Rightarrow> addr \<Rightarrow> nat set" where
  "region b n = {unat b ..< unat b + unat n}"

definition hdr :: "addr set \<Rightarrow> addr set" where
  "hdr C = {a. \<exists>c\<in>C. a = c \<or> a = c + 8 \<or> a = c + 16 \<or> a = c + 24 \<or> a = c + 32}"

definition payload :: "(addr \<Rightarrow> addr) \<Rightarrow> addr \<Rightarrow> addr set" where
  "payload h m = {a. unat m + 40 \<le> unat a \<and> unat a < unat m + unat (allocated_size h m)}"

text \<open>
  The quarantine is a ring through \<^verbatim>\<open>next\<close> and \<^verbatim>\<open>prev\<close>.  It is described by the
  list \<open>qs\<close> of its chunks from \<^verbatim>\<open>quarantine_\<close> (the chunk freed last) to
  \<^verbatim>\<open>quarantine_->prev\<close> (the chunk freed first): consecutive chunks are linked in
  both directions and the last one is linked back to the first.
\<close>

fun dchain :: "(addr \<Rightarrow> addr) \<Rightarrow> addr list \<Rightarrow> bool" where
  "dchain h [] = True"
| "dchain h [x] = True"
| "dchain h (x # y # r) = (next_of h x = y \<and> prev_of h y = x \<and> dchain h (y # r))"

definition quarantine_ring :: "(addr \<Rightarrow> addr) \<Rightarrow> addr \<Rightarrow> addr list \<Rightarrow> bool" where
  "quarantine_ring h q qs \<longleftrightarrow>
     distinct qs \<and> 0 \<notin> set qs \<and> dchain h qs
   \<and> (if qs = [] then q = 0
      else q = hd qs \<and> next_of h (last qs) = hd qs \<and> prev_of h (hd qs) = last qs)"

text \<open>
  The invariant of the heap, over the set \<open>C\<close> of all chunks carved so far, the set
  \<open>L\<close> of the chunks on the live list and the list \<open>qs\<close> of the quarantine:
  chunks are non-null, aligned, of a power-of-two size of at least \<^verbatim>\<open>kMinAllocSize\<close>,
  pairwise disjoint, and inside the mapped pages; the live list is doubly linked and its chunks are
  \<^verbatim>\<open>CHUNK_ALLOCATED\<close>; the ring holds \<^verbatim>\<open>CHUNK_QUARANTINE\<close> chunks and the counter is the
  sum of their sizes, computed in the natural numbers; the free lists stay inside \<open>C\<close>.
\<close>

definition chunks_ok :: "config \<Rightarrow> (addr \<Rightarrow> addr) \<Rightarrow> addr set \<Rightarrow> bool" where
  "chunks_ok cfg h C \<longleftrightarrow>
     finite C
   \<and> (\<forall>c\<in>C. c \<noteq> 0 \<and> aligned cfg c \<and> kMinAllocSize cfg \<le> allocated_size h c
            \<and> unat c + unat (allocated_size h c) \<le> 2 ^ 64
            \<and> IsPowerOfTwo (allocated_size h c))
   \<and> (\<forall>c\<in>C. \<forall>d\<in>C. c \<noteq> d \<longrightarrow>
          region c (allocated_size h c) \<inter> region d (allocated_size h d) = {})"

definition covered :: "(addr \<Rightarrow> addr) \<Rightarrow> addr set \<Rightarrow> (addr \<times> addr) list \<Rightarrow> bool" where
  "covered h C M \<longleftrightarrow>
     (\<forall>c\<in>C. \<exists>(b, n)\<in>set M. region c (allocated_size h c) \<subseteq> region b n)"

definition live_ok :: "(addr \<Rightarrow> addr) \<Rightarrow> addr set \<Rightarrow> addr set \<Rightarrow> addr \<Rightarrow> bool" where
  "live_ok h C L first \<longleftrightarrow>
     L \<subseteq> C \<and> (first = 0 \<or> first \<in> L \<and> prev_of h first = 0)
   \<and> (\<forall>c\<in>L. chunk_state h c = CHUNK_ALLOCATED
          \<and> (next_of h c = 0 \<or> next_of h c \<in> L \<and> prev_of h (next_of h c) = c)
          \<and> (prev_of h c = 0 \<or> prev_of h c \<in> L \<and> next_of h (prev_of h c) = c))"

definition ring_ok :: "(addr \<Rightarrow> addr) \<Rightarrow> addr set \<Rightarrow> addr list \<Rightarrow> addr \<Rightarrow> addr \<Rightarrow> bool" where
  "ring_ok h C qs q cnt \<longleftrightarrow>
     set qs \<subseteq> C \<and> (\<forall>c\<in>set qs. chunk_state h c = CHUNK_QUARANTINE)
   \<and> quarantine_ring h q qs
   \<and> unat cnt = sum_list (map (\<lambda>c. unat (allocated_size h c)) qs)"

definition free_ok :: "(addr \<Rightarrow> addr) \<Rightarrow> addr set \<Rightarrow> addr set \<Rightarrow> addr list \<Rightarrow> (nat \<Rightarrow> addr) \<Rightarrow> bool" where
  "free_ok h C L qs fl \<longleftrightarrow>
     (\<forall>i. fl i = 0 \<or> fl i \<in> C)
   \<and> (\<forall>c\<in>C. c \<in> L \<or> c \<in> set qs \<or> next_of h c = 0 \<or> next_of h c \<in> C)"

definition heap_inv :: "config \<Rightarrow> state \<Rightarrow> addr set \<Rightarrow> addr set \<Rightarrow> addr list \<Rightarrow> bool" where
  "heap_inv cfg s C L qs \<longleftrightarrow>
     wf_config cfg
   \<and> chunks_ok cfg (mem s) C
   \<and> covered (mem s) C (mapped s)
   \<and> live_ok (mem s) C L (malloced_items s)
   \<and> ring_ok (mem s) C qs (quarantine s) (quarantine_size s)
   \<and> free_ok (mem s) C L qs (chunks s)"

text \<open>
  The two blocks of \<^verbatim>\<open>TakeChunkBack\<close> before its loop, and the block of
  \<^verbatim>\<open>AllocateChunk\<close> after \<^verbatim>\<open>GetNewChunks\<close>, named so that each can be reasoned
  about on its own; \<open>TakeChunkBack_steps\<close> and \<open>AllocateChunk_steps\<close> below show that
  the functions are composed of them.
\<close>

definition unlink :: "addr \<Rightarrow> state \<Rightarrow> state" where
  "unlink m s =
     (if m = malloced_items s
      then (let sa = s\<lparr>malloced_items := next_of (mem s) m\<rparr>
            in if malloced_items sa \<noteq> 0 then set_prev (malloced_items sa) 0 sa else sa)
      else (let prv = prev_of (mem s) m;
                nxt = next_of (mem s) m;
                sa = (if prv \<noteq> 0 then set_next prv nxt s else s)
            in if nxt \<noteq> 0 then set_prev nxt prv sa else sa))"

definition enqueue :: "addr \<Rightarrow> state \<Rightarrow> state" where
  "enqueue m s1 =
     (let s2 = (if quarantine s1 = 0
                 then set_next m m (set_prev m m s1)
                 else (let prv = prev_of (mem s1) (quarantine s1);
                           nxt = quarantine s1
                       in set_prev nxt m (set_next prv m (set_prev m prv (set_next m nxt s1)))));
           s3 = s2\<lparr>quarantine := m\<rparr>;
           s4 = s3\<lparr>quarantine_size := quarantine_size s3 + allocated_size (mem s3) m\<rparr>
       in set_chunk_state m CHUNK_QUARANTINE s4)"

definition draw :: "nat \<Rightarrow> state \<Rightarrow> state" where
  "draw idx s1 =
     (let m = chunks s1 idx;
          s2 = s1\<lparr>chunks := (chunks s1)(idx := next_of (mem s1) m)\<rparr>;
          s3 = set_next m 0 (set_prev m 0 s2);
          s4 = set_chunk_state m CHUNK_ALLOCATED s3;
          s5 = (if malloced_items s4 \<noteq> 0 then set_prev (malloced_items s4) m s4 else s4);
          s6 = set_next m (malloced_items s5) s5
      in s6\<lparr>malloced_items := m\<rparr>)"

text \<open>
  What the callers owe.  A pointer passed to \<^verbatim>\<open>Deallocate\<close> or \<^verbatim>\<open>Reallocate\<close> resolves
  to a chunk that is on the live list, and it is either that chunk plus the redzone, or
  the \<^verbatim>\<open>CHUNK_MEMALIGN\<close> record it is resolved through lies in the chunk, after the header.
  The pointers \<^verbatim>\<open>Allocate\<close> returns are such when they are returned
  (\<open>Allocate_valid_ptr\<close> below).
  \<^verbatim>\<open>mmap\<close> answers with fresh pages: page-aligned, not null, not wrapping around the
  address space and disjoint from the pages mapped before.
\<close>

inductive on_list :: "(addr \<Rightarrow> addr) \<Rightarrow> addr \<Rightarrow> addr \<Rightarrow> bool" for h :: "addr \<Rightarrow> addr" where
  here: "x \<noteq> 0 \<Longrightarrow> on_list h x x"
| there: "x \<noteq> 0 \<Longrightarrow> on_list h (next_of h x) m \<Longrightarrow> on_list h x m"

definition valid_ptr :: "config \<Rightarrow> state \<Rightarrow> addr \<Rightarrow> bool" where
  "valid_ptr cfg s p \<longleftrightarrow>
     p \<noteq> 0
   \<and> on_list (mem s) (malloced_items s) (PtrToChunk cfg (mem s) p)
   \<and> (p - kRedzone cfg = PtrToChunk cfg (mem s) p
      \<or> unat (PtrToChunk cfg (mem s) p) + 40 \<le> unat (p - kRedzone cfg)
        \<and> unat (p - kRedzone cfg) + 16
            \<le> unat (PtrToChunk cfg (mem s) p)
              + unat (allocated_size (mem s) (PtrToChunk cfg (mem s) p)))"

definition os_ok :: "config \<Rightarrow> state \<Rightarrow> os_mmap \<Rightarrow> bool" where
  "os_ok cfg s os \<longleftrightarrow>
     (\<forall>n. os n = - 1
        \<or> (os n \<noteq> 0 \<and> unat (kPageSize cfg) dvd unat (os n) \<and> unat (os n) + unat n \<le> 2 ^ 64
           \<and> (\<forall>(b, l)\<in>set (mapped s). region (os n) n \<inter> region b l = {})))"

text \<open>The residue of an address modulo \<^verbatim>\<open>kMinAllocSize\<close>.\<close>

definition res :: "config \<Rightarrow> addr \<Rightarrow> nat" where
  "res cfg a = unat a mod unat (kMinAllocSize cfg)"

text \<open>
  The states that \<^verbatim>\<open>Allocate\<close>, \<^verbatim>\<open>Deallocate\<close>, \<^verbatim>\<open>Reallocate\<close> and
  \<^verbatim>\<open>__asan_calloc\<close> lead to from the empty heap, when each call returns (no \<^verbatim>\<open>CHECK\<close>
  fails) and the callers and \<^verbatim>\<open>mmap\<close> behave as above.  The other entry points are
  \<^verbatim>\<open>Allocate\<close>, \<^verbatim>\<open>Deallocate\<close> or \<^verbatim>\<open>Reallocate\<close> themselves.
\<close>

inductive reachable :: "config \<Rightarrow> state \<Rightarrow> bool" for cfg :: config where
  init: "wf_config cfg \<Longrightarrow> reachable cfg init_state"
| allocate: "reachable cfg s \<Longrightarrow> os_ok cfg s os \<Longrightarrow> Allocate cfg os a n s = Inr (p, s')
    \<Longrightarrow> reachable cfg s'"
| deallocate: "reachable cfg s \<Longrightarrow> p = 0 \<or> valid_ptr cfg s p \<Longrightarrow> Deallocate cfg p s = Inr s'
    \<Longrightarrow> reachable cfg s'"
| reallocate: "reachable cfg s \<Longrightarrow> os_ok cfg s os \<Longrightarrow> p = 0 \<or> valid_ptr cfg s p
    \<Longrightarrow> Reallocate cfg os p n s = Inr (q, s') \<Longrightarrow> reachable cfg s'"
| calloc: "reachable cfg s \<Longrightarrow> os_ok cfg s os \<Longrightarrow> asan_calloc cfg os k n s = Inr (p, s')
    \<Longrightarrow> reachable cfg s'"


section \<open>A sample configuration and its runs\<close>

text \<open>
  The concrete inputs of the witnesses: a 64-bit configuration with a redzone of 128 bytes,
  pages of 4096 bytes, a shadow granule of 8 bytes and a quarantine of 256 MiB, and the same
  with a quarantine of 4096 bytes; an operating system that maps requests of up to 1 MiB
  at \<open>0x7F0000000000\<close>, then at \<open>0x7F0000100000\<close>, and refuses larger ones.
\<close>

definition sample_cfg :: config where
  "sample_cfg = \<lparr> kMinRedzone = 64, kPageSize = 4096, kShadowShift = 3,
            kShadowOffset = 0x100000000000, flag_quarantine_size = 0x10000000 \<rparr>"

definition small_cap_cfg :: config where
  "small_cap_cfg = \<lparr> kMinRedzone = 64, kPageSize = 4096, kShadowShift = 3,
            kShadowOffset = 0x100000000000, flag_quarantine_size = 0x1000 \<rparr>"

definition sample_os :: os_mmap where
  "sample_os = (\<lambda>n. if n \<le> 0x100000 then 0x7F0000000000 else - 1)"

definition sample_os2 :: os_mmap where
  "sample_os2 = (\<lambda>n. if n \<le> 0x100000 then 0x7F0000100000 else - 1)"

text \<open>
  The lookup as the specification words it: the tag is looked for two words before the
  user pointer, the chunk's address in the word after it.
\<close>

definition PtrToChunk_two_words_before :: "config \<Rightarrow> (addr \<Rightarrow> addr) \<Rightarrow> addr \<Rightarrow> addr" where
  "PtrToChunk_two_words_before cfg h ptr =
     (if h (ptr - 2 * kWordSize) = CHUNK_MEMALIGN then h (ptr - kWordSize) else ptr - kRedzone cfg)"

text \<open>
  \<open>scenario_aligned\<close> is \<^verbatim>\<open>memalign(0x80000, 10)\<close> on the initial state,
  \<open>scenario_size_max\<close> is \<^verbatim>\<open>memalign(0x80000, SIZE_MAX)\<close> on the initial state,
  \<open>scenario_realloc\<close> is \<^verbatim>\<open>realloc(p, 0x40000)\<close> of the pointer of the first,
  \<open>scenario_plain\<close> is \<^verbatim>\<open>malloc(0x80000)\<close> on the initial state, and
  \<open>scenario_small_cap\<close> is the same under the small quarantine.
\<close>

definition scenario_aligned :: "(addr \<times> state) result" where
  "scenario_aligned = Allocate sample_cfg sample_os 0x80000 10 init_state"

definition scenario_size_max :: "(addr \<times> state) result" where
  "scenario_size_max = Allocate sample_cfg sample_os 0x80000 (- 1) init_state"

definition scenario_realloc :: "(addr \<times> state) result" where
  "scenario_realloc =
     Reallocate sample_cfg sample_os2 (fst (projr scenario_aligned)) 0x40000
       (snd (projr scenario_aligned))"

definition scenario_plain :: "(addr \<times> state) result" where
  "scenario_plain = Allocate sample_cfg sample_os 0 0x80000 init_state"

definition scenario_small_cap :: "(addr \<times> state) result" where
  "scenario_small_cap = Allocate small_cap_cfg sample_os 0 0x80000 init_state"

section \<open>Evaluation and decomposition lemmas\<close>

lemma bitlen_nat_0 [simp]: "bitlen_nat 0 = 0" by (simp add: bitlen_nat.simps)
lemma bitlen_nat_Suc0 [simp]: "bitlen_nat (Suc 0) = 1" by (simp add: bitlen_nat.simps)
lemma bitlen_nat_One [simp]: "bitlen_nat 1 = 1" by (simp add: bitlen_nat.simps)
lemma bitlen_nat_Bit0 [simp]: "bitlen_nat (numeral (Num.Bit0 n)) = Suc (bitlen_nat (numeral n))"
  by (subst bitlen_nat.simps) simp
lemma bitlen_nat_Bit1 [simp]: "bitlen_nat (numeral (Num.Bit1 n)) = Suc (bitlen_nat (numeral n))"
  by (subst bitlen_nat.simps) simp
lemma ctz_nat_0 [simp]: "ctz_nat 0 = 0" by (simp add: ctz_nat.simps)
lemma ctz_nat_One [simp]: "ctz_nat 1 = 0" by (simp add: ctz_nat.simps)
lemma ctz_nat_Suc0 [simp]: "ctz_nat (Suc 0) = 0" by (simp add: ctz_nat.simps)
lemma ctz_nat_Bit0 [simp]: "ctz_nat (numeral (Num.Bit0 n)) = Suc (ctz_nat (numeral n))"
  by (subst ctz_nat.simps) simp
lemma ctz_nat_Bit1 [simp]: "ctz_nat (numeral (Num.Bit1 n)) = 0"
  by (subst ctz_nat.simps) simp

lemma pow2_nat:
  fixes n :: nat
  shows "0 < n \<Longrightarrow> n AND (n - 1) = 0 \<Longrightarrow> \<exists>k. n = 2 ^ k"
proof (induction n rule: less_induct)
  case (less n)
  show ?case
  proof (cases "even n")
    case True
    then obtain m where m: "n = 2 * m" by (auto elim: evenE)
    with less.prems have mpos: "0 < m" by simp
    have "(n - 1) div 2 = m - 1" using m mpos by simp
    moreover have "n div 2 = m" using m by simp
    ultimately have "n AND (n - 1) = 2 * (m AND (m - 1))"
      using True by (subst and_nat_rec) simp
    with less.prems have "m AND (m - 1) = 0" by simp
    moreover have "m < n" using m mpos by simp
    ultimately obtain k where "m = 2 ^ k" using less.IH mpos by blast
    then have "n = 2 ^ Suc k" using m by simp
    then show ?thesis by blast
  next
    case False
    then obtain m where m: "n = 2 * m + 1" by (auto elim: oddE)
    have "n AND (n - 1) = 2 * (m AND m)"
      using m by (subst and_nat_rec) simp
    with less.prems have "m = 0" by simp
    then have "n = 2 ^ 0" using m by simp
    then show ?thesis by blast
  qed
qed

lemma unat_exp: "k < 64 \<Longrightarrow> unat ((2::addr) ^ k) = 2 ^ k"
proof -
  assume k: "k < 64"
  have lt: "(2::nat) ^ k < 2 ^ 64"
    by (rule power_strict_increasing) (use k in simp_all)
  have "unat (word_of_nat (2 ^ k) :: addr) = (2 ^ k) mod 2 ^ LENGTH(64)"
    by (rule unat_of_nat)
  also have "\<dots> = 2 ^ k" using lt by simp
  finally show ?thesis by simp
qed

lemma IsPowerOfTwo_exp:
  assumes "IsPowerOfTwo x" and "x \<noteq> 0"
  shows "\<exists>k<64. x = 2 ^ k"
proof -
  have "unat (x AND (x - 1)) = unat x AND unat (x - 1)"
    by (simp add: unsigned_and_eq)
  moreover have "unat (x - 1) = unat x - 1" using assms(2) by (simp add: unat_minus_one)
  ultimately have "unat x AND (unat x - 1) = 0"
    using assms(1) by (simp add: IsPowerOfTwo_def)
  moreover have "0 < unat x" using assms(2) by (simp add: unat_gt_0)
  ultimately obtain k where k: "unat x = 2 ^ k" using pow2_nat by blast
  have "unat x < 2 ^ LENGTH(64)" by (rule unsigned_less)
  then have "(2::nat) ^ k < 2 ^ 64" unfolding k by (simp del: power_strict_increasing_iff)
  then have "k < 64" by (rule power_less_imp_less_exp [rotated]) simp
  moreover from \<open>k < 64\<close> have "x = 2 ^ k"
    using k by (simp add: word_unat_eq_iff unat_exp)
  ultimately show ?thesis by blast
qed

lemma exp_IsPowerOfTwo: "IsPowerOfTwo (2 ^ k)"
  unfolding IsPowerOfTwo_def
  by (rule bit_eqI) (auto simp: bit_and_iff bit_mask_iff bit_exp_iff simp flip: mask_eq_exp_minus_1)

lemmas field_defs = chunk_state_def allocated_size_def used_size_def next_of_def prev_of_def
  store_def set_next_def set_prev_def set_chunk_state_def set_allocated_size_def set_used_size_def

lemmas magic_defs = CHUNK_AVAILABLE_def CHUNK_ALLOCATED_def CHUNK_MEMALIGN_def CHUNK_QUARANTINE_def

lemmas run_defs = Allocate_def AllocateChunk_def GetNewChunks_def MmapNewPages_def PoisonShadow_def
  place_def needed_size_def RoundUptoRedzone_def RoundUptoPowerOfTwo_def Log2_def builtin_ctzl_def
  builtin_clzl_def shl1_def WORDSIZE_def CHECK_def bind_r_def IsPowerOfTwo_def IsAligned_def
  IsWordAligned_def kWordSize_def
  kRedzone_def kMinAllocSize_def kMinMmapSize_def carve_def field_defs memset_def MemToShadow_def
  magic_defs Deallocate_def MallocInfo_Deallocate_def TakeChunkBack_def PtrToChunk_def pop_def
  Reallocate_def asan_copy_mem_def asan_clear_mem_def

lemma PoisonShadow_Inr:
  "PoisonShadow cfg a n v s = Inr s' \<Longrightarrow>
     mem s' = mem s \<and> malloced_items s' = malloced_items s \<and> chunks s' = chunks s
     \<and> quarantine s' = quarantine s \<and> quarantine_size s' = quarantine_size s \<and> mapped s' = mapped s"
  by (auto simp: PoisonShadow_def CHECK_Inr_iff Let_def)

lemma place_Inr:
  assumes "place cfg a m s = Inr (p, s')"
  shows "malloced_items s' = malloced_items s"
    and "p = m + kRedzone cfg \<and> s' = s \<or>
         mem s' = (mem s)(p - kRedzone cfg := CHUNK_MEMALIGN, p - kRedzone cfg + 8 := m)"
  using assms
  by (auto simp: place_def Let_def bind_r_Inr_iff CHECK_Inr_iff store_def split: if_splits)

lemma place_no_alignment: "place cfg 0 m s = Inr (m + kRedzone cfg, s)"
  by (simp add: place_def)

lemma AllocateChunk_malloced_items:
  "AllocateChunk cfg os sz s = Inr (m, s') \<Longrightarrow> malloced_items s' = m"
  by (auto simp: AllocateChunk_def CHECK_Inr_iff bind_r_Inr_iff Let_def)

lemma Allocate_Inr_cases:
  assumes "Allocate cfg os a n s = Inr (p, s')" and "n \<noteq> 0"
  shows "\<exists>sz' m s1 s2.
      RoundUptoPowerOfTwo (needed_size cfg a n) = Inr sz' \<and> kMinAllocSize cfg \<le> sz'
    \<and> AllocateChunk cfg os sz' s = Inr (m, s1) \<and> m \<noteq> 0
    \<and> allocated_size (mem s1) m = sz' \<and> chunk_state (mem s1) m = CHUNK_ALLOCATED
    \<and> place cfg a m (set_used_size m n s1) = Inr (p, s2)
    \<and> PoisonShadow cfg p (RoundUptoRedzone cfg n) 0 s2 = Inr s'
    \<and> IsPowerOfTwo a"
  using assms
  by (auto simp: Allocate_def CHECK_Inr_iff bind_r_Inr_iff Let_def split: prod.splits)

lemma Reallocate_zero: "Reallocate cfg os ptr 0 s = Inr (0, s)"
  by (simp add: Reallocate_def Allocate_def)

text \<open>
  Claim C8: with a quarantine cap of 0, \<^verbatim>\<open>Deallocate\<close> of any non-null pointer ends in a
  failed \<^verbatim>\<open>CHECK\<close>; no chunk is ever quarantined.
\<close>

theorem Deallocate_cap_zero:
  "flag_quarantine_size cfg = 0 \<Longrightarrow> ptr \<noteq> 0 \<Longrightarrow> Deallocate cfg ptr s = Inl CheckFailed"
  by (simp add: Deallocate_def MallocInfo_Deallocate_def TakeChunkBack_def PoisonShadow_def
        CHECK_def bind_r_def Let_def)

lemma result_pair: "\<not> isl r \<Longrightarrow> r = Inr (fst (projr r), snd (projr r))"
  by (cases r) simp_all

lemma scenario_aligned_run:
  "\<exists>s. scenario_aligned = Inr (0x7F0000080000, s)
      \<and> malloced_items s = 0x7F0000000000
      \<and> mem s 0x7F000007FF80 = CHUNK_MEMALIGN
      \<and> mem s 0x7F000007FF88 = 0x7F0000000000
      \<and> mem s 0x7F000007FFF0 = 0 \<and> mem s 0x7F000007FFF8 = 0
      \<and> mapped s = [(0x7F0000000000, 0x100000)]"
  by (simp add: scenario_aligned_def run_defs sample_cfg_def sample_os_def init_state_def Let_def)

text \<open>
  Claim C2, as stated: the tag is found two words before the user pointer.  For the
  over-aligned pointer of \<open>scenario_aligned\<close> the word two words before it is not the
  tag, and the lookup worded by the specification does not find the chunk the code finds.
\<close>

theorem PtrToChunk_two_words_before_counterexample:
  "\<not> isl scenario_aligned
   \<and> mem (snd (projr scenario_aligned)) (fst (projr scenario_aligned) - 2 * kWordSize) \<noteq> CHUNK_MEMALIGN
   \<and> PtrToChunk sample_cfg (mem (snd (projr scenario_aligned))) (fst (projr scenario_aligned))
       \<noteq> PtrToChunk_two_words_before sample_cfg (mem (snd (projr scenario_aligned)))
            (fst (projr scenario_aligned))"
proof -
  from scenario_aligned_run obtain s where
    r: "scenario_aligned = Inr (0x7F0000080000, s)"
    and f: "mem s 0x7F000007FF80 = CHUNK_MEMALIGN" "mem s 0x7F000007FF88 = 0x7F0000000000"
       "mem s 0x7F000007FFF0 = 0" "mem s 0x7F000007FFF8 = 0"
    by blast
  show ?thesis
    by (simp add: r f PtrToChunk_def PtrToChunk_two_words_before_def kWordSize_def
          kRedzone_def sample_cfg_def chunk_state_def magic_defs)
qed

text \<open>
  Claim C5 (a returned pointer is non-null, aligned, and the shadow of its \<open>n\<close> bytes is
  clean).  \<^verbatim>\<open>memalign(0x80000, SIZE_MAX)\<close> returns: the rounding of the size to the
  redzone wraps to 0, the pointer is not null, and the shadow of its first byte is still
  poisoned.
\<close>

theorem Allocate_size_max_poisoned:
  "\<not> isl scenario_size_max
   \<and> fst (projr scenario_size_max) = 0x7F0000080000
   \<and> shadow (snd (projr scenario_size_max)) (MemToShadow sample_cfg (fst (projr scenario_size_max))) = 0xFF"
proof -
  have "\<exists>s. scenario_size_max = Inr (0x7F0000080000, s)
      \<and> shadow s (MemToShadow sample_cfg 0x7F0000080000) = 0xFF"
    by (simp add: scenario_size_max_def run_defs sample_cfg_def sample_os_def init_state_def Let_def)
  then obtain s where r: "scenario_size_max = Inr (0x7F0000080000, s)"
    and f: "shadow s (MemToShadow sample_cfg 0x7F0000080000) = 0xFF" by blast
  show ?thesis by (simp add: r f)
qed

lemma scenario_realloc_run:
  "\<exists>s. scenario_realloc = Inr (0x7F0000100080, s)"
proof -
  have "\<exists>s. scenario_aligned = Inr (0x7F0000080000, s)
      \<and> Reallocate sample_cfg sample_os2 0x7F0000080000 0x40000 s = Inr (0x7F0000100080, snd (projr (Reallocate sample_cfg sample_os2 0x7F0000080000 0x40000 s)))"
  by (simp add: scenario_aligned_def run_defs sample_cfg_def sample_os_def sample_os2_def init_state_def Let_def
      TakeChunkBack_loop.simps upt_rec)
  then obtain s where r: "scenario_aligned = Inr (0x7F0000080000, s)"
    and f: "Reallocate sample_cfg sample_os2 0x7F0000080000 0x40000 s = Inr (0x7F0000100080, snd (projr (Reallocate sample_cfg sample_os2 0x7F0000080000 0x40000 s)))"
    by blast
  show ?thesis by (simp add: scenario_realloc_def r) (use f in blast)
qed

lemma exp_le_addr: "a < 64 \<Longrightarrow> b < 64 \<Longrightarrow> (2::addr) ^ a \<le> 2 ^ b \<longleftrightarrow> a \<le> b"
  by (simp add: word_le_nat_alt unat_exp)

lemma exp_less_addr: "a < 64 \<Longrightarrow> b < 64 \<Longrightarrow> (2::addr) ^ a < 2 ^ b \<longleftrightarrow> a < b"
  by (simp add: word_less_nat_alt unat_exp)

lemma RoundUptoPowerOfTwo_Inr:
  assumes "RoundUptoPowerOfTwo x = Inr y"
  shows "\<exists>k<64. y = 2 ^ k \<and> x \<le> y \<and> (\<forall>j<64. x \<le> 2 ^ j \<longrightarrow> y \<le> 2 ^ j)"
proof (cases "IsPowerOfTwo x")
  case True
  with assms have "y = x" "x \<noteq> 0"
    by (auto simp: RoundUptoPowerOfTwo_def CHECK_Inr_iff)
  with True IsPowerOfTwo_exp [of x] show ?thesis by auto
next
  case False
  with assms obtain up where up: "up < 64" "y = push_bit up 1" "x < y" "push_bit (up - 1) 1 < x"
    by (auto simp: RoundUptoPowerOfTwo_def CHECK_Inr_iff bind_r_Inr_iff Let_def shl1_def
          WORDSIZE_def split: if_splits)
  have y: "y = 2 ^ up" using up(2) by (simp add: push_bit_eq_mult)
  have lo: "(2::addr) ^ (up - 1) < x" using up(4) by (simp add: push_bit_eq_mult)
  have "y \<le> 2 ^ j" if j: "j < 64" "x \<le> 2 ^ j" for j
  proof -
    from lo j(2) have "(2::addr) ^ (up - 1) < 2 ^ j" by simp
    with up(1) j(1) have "up - 1 < j" by (simp add: exp_less_addr)
    then have "up \<le> j" by simp
    with up(1) j(1) show ?thesis by (simp add: y exp_le_addr)
  qed
  with up(1,3) y show ?thesis by auto
qed

text \<open>
  The needed size in the natural numbers: when the exact sum fits a word, the word computed
  is the exact sum.
\<close>

lemma needed_size_exact:
  assumes k: "kRedzone cfg \<noteq> 0"
    and fit: "(unat sz + unat (kRedzone cfg) - 1) div unat (kRedzone cfg) * unat (kRedzone cfg)
        + unat (kRedzone cfg) + (if alignment > kRedzone cfg then unat alignment else 0) < 2 ^ 64"
  shows "unat (needed_size cfg alignment sz)
     = (unat sz + unat (kRedzone cfg) - 1) div unat (kRedzone cfg) * unat (kRedzone cfg)
        + unat (kRedzone cfg) + (if alignment > kRedzone cfg then unat alignment else 0)"
proof -
  define R where "R = unat (kRedzone cfg)"
  define N where "N = unat sz"
  define A where "A = (if alignment > kRedzone cfg then unat alignment else 0)"
  define W where "W = (2::nat) ^ 64"
  define q where "q = (N + R - 1) div R"
  have R0: "0 < R" using k by (simp add: R_def unat_gt_0)
  have fitW: "q * R + R + A < W" using fit by (simp add: R_def N_def A_def W_def q_def)
  have "(N + R - 1) mod R < R" using R0 by simp
  moreover have "q * R + (N + R - 1) mod R = N + R - 1" by (simp add: q_def)
  ultimately have "N + R - 1 < q * R + R" by linarith
  with fitW have nw: "N + (R - 1) < W" using R0 by simp
  have a: "sz + kRedzone cfg - 1 = sz + (kRedzone cfg - 1)" by simp
  have b: "unat (kRedzone cfg - 1) = R - 1" using k by (simp add: unat_minus_one R_def)
  have "unat (sz + (kRedzone cfg - 1)) = (unat sz + unat (kRedzone cfg - 1)) mod 2 ^ LENGTH(64)"
    by (rule unat_word_ariths(1))
  then have "unat (sz + kRedzone cfg - 1) = (N + (R - 1)) mod W"
    unfolding a b by (simp add: N_def W_def)
  then have t: "unat (sz + kRedzone cfg - 1) = N + R - 1" using nw R0 by simp
  have "unat ((sz + kRedzone cfg - 1) div kRedzone cfg)
      = unat (sz + kRedzone cfg - 1) div unat (kRedzone cfg)" by (rule unat_div)
  then have uq: "unat ((sz + kRedzone cfg - 1) div kRedzone cfg) = q"
    by (simp add: t q_def R_def)
  have "unat (RoundUptoRedzone cfg sz)
      = (unat ((sz + kRedzone cfg - 1) div kRedzone cfg) * unat (kRedzone cfg)) mod 2 ^ LENGTH(64)"
    unfolding RoundUptoRedzone_def by (rule unat_word_ariths(2))
  then have "unat (RoundUptoRedzone cfg sz) = (q * R) mod W"
    unfolding uq by (simp add: R_def W_def)
  then have ur: "unat (RoundUptoRedzone cfg sz) = q * R" using fitW by simp
  have "unat (RoundUptoRedzone cfg sz + kRedzone cfg)
      = (unat (RoundUptoRedzone cfg sz) + unat (kRedzone cfg)) mod 2 ^ LENGTH(64)"
    by (rule unat_word_ariths(1))
  then have "unat (RoundUptoRedzone cfg sz + kRedzone cfg) = (q * R + R) mod W"
    unfolding ur by (simp add: R_def W_def)
  then have u1: "unat (RoundUptoRedzone cfg sz + kRedzone cfg) = q * R + R" using fitW by simp
  have "unat (needed_size cfg alignment sz) = q * R + R + A"
  proof (cases "alignment > kRedzone cfg")
    case True
    then have "needed_size cfg alignment sz = RoundUptoRedzone cfg sz + kRedzone cfg + alignment"
      by (simp add: needed_size_def Let_def)
    moreover have "unat (RoundUptoRedzone cfg sz + kRedzone cfg + alignment)
        = (unat (RoundUptoRedzone cfg sz + kRedzone cfg) + unat alignment) mod 2 ^ LENGTH(64)"
      by (rule unat_word_ariths(1))
    ultimately have "unat (needed_size cfg alignment sz) = (q * R + R + A) mod W"
      unfolding u1 using True by (simp add: A_def W_def)
    then show ?thesis using fitW by simp
  next
    case False
    then have "needed_size cfg alignment sz = RoundUptoRedzone cfg sz + kRedzone cfg"
      by (simp add: needed_size_def Let_def)
    then show ?thesis using u1 False by (simp add: A_def)
  qed
  then show ?thesis by (simp add: q_def R_def N_def A_def)
qed

lemma Allocate_Inr_redzone:
  assumes "Allocate cfg os a n s = Inr (p, s')" and "n \<noteq> 0"
  shows "kRedzone cfg \<noteq> 0"
proof
  assume z: "kRedzone cfg = 0"
  from assms obtain y where "needed_size cfg a n mod kRedzone cfg = 0"
    and "RoundUptoPowerOfTwo (needed_size cfg a n) = Inr y"
    by (auto simp: Allocate_def CHECK_Inr_iff bind_r_Inr_iff Let_def)
  then show False by (simp add: z RoundUptoPowerOfTwo_def CHECK_Inr_iff)
qed

text \<open>
  The chunk size in \<^verbatim>\<open>size_t\<close> arithmetic: when \<^verbatim>\<open>Allocate\<close> returns for a size that
  is not 0, the chunk it drew has the size \<^verbatim>\<open>RoundUptoPowerOfTwo(needed_size)\<close>, where
  \<open>needed_size\<close> is the size rounded to the redzone, plus the redzone, plus the alignment
  when that exceeds the redzone, all three computed modulo \<open>2 ^ 64\<close>; this size is at
  least \<^verbatim>\<open>kMinAllocSize\<close>, and it is the least power of two that is not below
  \<open>needed_size\<close>.  The sums are the exact ones whenever the exact needed size is below
  \<open>2 ^ 64\<close>.
\<close>

theorem Allocate_chunk_size:
  assumes "Allocate cfg os alignment sz s = Inr (p, s')" and "sz \<noteq> 0"
  shows "\<exists>size_to_allocate s1.
           needed_size cfg alignment sz
             = RoundUptoRedzone cfg sz + kRedzone cfg
               + (if alignment > kRedzone cfg then alignment else 0)
         \<and> RoundUptoPowerOfTwo (needed_size cfg alignment sz) = Inr size_to_allocate
         \<and> AllocateChunk cfg os size_to_allocate s = Inr (malloced_items s', s1)
         \<and> allocated_size (mem s1) (malloced_items s') = size_to_allocate
         \<and> kMinAllocSize cfg \<le> size_to_allocate
         \<and> (\<exists>k<64. size_to_allocate = 2 ^ k)
         \<and> needed_size cfg alignment sz \<le> size_to_allocate
         \<and> (\<forall>j<64. needed_size cfg alignment sz \<le> 2 ^ j \<longrightarrow> size_to_allocate \<le> 2 ^ j)
         \<and> ((unat sz + unat (kRedzone cfg) - 1) div unat (kRedzone cfg) * unat (kRedzone cfg)
              + unat (kRedzone cfg) + (if alignment > kRedzone cfg then unat alignment else 0)
              < 2 ^ 64 \<longrightarrow>
            unat (needed_size cfg alignment sz)
              = (unat sz + unat (kRedzone cfg) - 1) div unat (kRedzone cfg) * unat (kRedzone cfg)
                + unat (kRedzone cfg) + (if alignment > kRedzone cfg then unat alignment else 0))"
proof -
  from Allocate_Inr_cases [OF assms] obtain sz' m s1 s2 where
    ru: "RoundUptoPowerOfTwo (needed_size cfg alignment sz) = Inr sz'" and
    mn: "kMinAllocSize cfg \<le> sz'" and
    ac: "AllocateChunk cfg os sz' s = Inr (m, s1)" and
    az: "allocated_size (mem s1) m = sz'" and
    pl: "place cfg alignment m (set_used_size m sz s1) = Inr (p, s2)" and
    po: "PoisonShadow cfg p (RoundUptoRedzone cfg sz) 0 s2 = Inr s'"
    by blast
  have mi: "malloced_items s' = m"
    using PoisonShadow_Inr [OF po] place_Inr(1) [OF pl] AllocateChunk_malloced_items [OF ac]
    by (simp add: set_used_size_def store_def)
  have nd: "needed_size cfg alignment sz
             = RoundUptoRedzone cfg sz + kRedzone cfg
               + (if alignment > kRedzone cfg then alignment else 0)"
    by (simp add: needed_size_def Let_def)
  have ex: "(unat sz + unat (kRedzone cfg) - 1) div unat (kRedzone cfg) * unat (kRedzone cfg)
              + unat (kRedzone cfg) + (if alignment > kRedzone cfg then unat alignment else 0)
              < 2 ^ 64 \<longrightarrow>
            unat (needed_size cfg alignment sz)
              = (unat sz + unat (kRedzone cfg) - 1) div unat (kRedzone cfg) * unat (kRedzone cfg)
                + unat (kRedzone cfg) + (if alignment > kRedzone cfg then unat alignment else 0)"
    using needed_size_exact [OF Allocate_Inr_redzone [OF assms]] by blast
  from RoundUptoPowerOfTwo_Inr [OF ru] obtain k where
    k: "k < 64" "sz' = 2 ^ k" "needed_size cfg alignment sz \<le> sz'"
      "\<forall>j<64. needed_size cfg alignment sz \<le> 2 ^ j \<longrightarrow> sz' \<le> 2 ^ j"
    by blast
  show ?thesis
    apply (intro exI [of _ sz'] exI [of _ s1])
    unfolding mi
    using nd ru mn ac az k ex by blast
qed

text \<open>An instance: \<open>scenario_aligned\<close> draws a chunk of \<open>0x100000\<close> bytes.\<close>

theorem Allocate_chunk_size_witness:
  "\<not> isl scenario_aligned \<and> (10 :: addr) \<noteq> 0
   \<and> RoundUptoPowerOfTwo (needed_size sample_cfg 0x80000 10) = Inr 0x100000
   \<and> (\<exists>s1. AllocateChunk sample_cfg sample_os 0x100000 init_state
          = Inr (malloced_items (snd (projr scenario_aligned)), s1)
        \<and> allocated_size (mem s1) (malloced_items (snd (projr scenario_aligned))) = 0x100000)"
proof -
  from scenario_aligned_run obtain s where
    r: "scenario_aligned = Inr (0x7F0000080000, s)" by blast
  have a: "Allocate sample_cfg sample_os 0x80000 10 init_state = Inr (0x7F0000080000, s)"
    using r by (simp add: scenario_aligned_def)
  have ru: "RoundUptoPowerOfTwo (needed_size sample_cfg 0x80000 10) = Inr 0x100000"
    by (simp add: run_defs sample_cfg_def)
  from Allocate_chunk_size [OF a] ru show ?thesis
    by (auto simp: r)
qed

lemma scenario_size_max_run:
  "\<exists>s. scenario_size_max = Inr (0x7F0000080000, s)
      \<and> malloced_items s = 0x7F0000000000
      \<and> allocated_size (mem s) 0x7F0000000000 = 0x100000
      \<and> used_size (mem s) 0x7F0000000000 = - 1"
  by (simp add: scenario_size_max_def run_defs sample_cfg_def sample_os_def init_state_def Let_def)

text \<open>
  Claim C6 (for every request with a size above 0 the chunk drawn has the size
  \<^verbatim>\<open>round_up_to_power_of_two(needed)\<close>, \<open>needed\<close> being the size rounded up to the
  redzone, plus the redzone, plus the alignment when above the redzone).
  \<^verbatim>\<open>memalign(0x80000, SIZE_MAX)\<close> returns with a chunk of \<open>0x100000\<close> bytes whose
  \<^verbatim>\<open>used_size\<close> is \<open>2 ^ 64 - 1\<close>: the rounding of the size to the redzone wraps to 0
  and \<^verbatim>\<open>needed_size\<close> is \<open>0x80080\<close>, while the needed size of the request is
  \<open>2 ^ 64 + 0x80080\<close>, which no chunk can have.
\<close>

theorem Allocate_chunk_size_wraps:
  "\<not> isl scenario_size_max
   \<and> allocated_size (mem (snd (projr scenario_size_max))) (malloced_items (snd (projr scenario_size_max)))
       = 0x100000
   \<and> used_size (mem (snd (projr scenario_size_max))) (malloced_items (snd (projr scenario_size_max)))
       = - 1
   \<and> needed_size sample_cfg 0x80000 (- 1) = 0x80080
   \<and> RoundUptoPowerOfTwo (needed_size sample_cfg 0x80000 (- 1)) = Inr 0x100000
   \<and> (unat (- 1 :: addr) + unat (kRedzone sample_cfg) - 1) div unat (kRedzone sample_cfg)
         * unat (kRedzone sample_cfg)
       + unat (kRedzone sample_cfg) + unat (0x80000 :: addr)
       = 2 ^ 64 + 0x80080
   \<and> unat (allocated_size (mem (snd (projr scenario_size_max)))
              (malloced_items (snd (projr scenario_size_max))))
       < (unat (- 1 :: addr) + unat (kRedzone sample_cfg) - 1) div unat (kRedzone sample_cfg)
           * unat (kRedzone sample_cfg)
         + unat (kRedzone sample_cfg) + unat (0x80000 :: addr)
   \<and> allocated_size (mem (snd (projr scenario_size_max))) (malloced_items (snd (projr scenario_size_max)))
       < used_size (mem (snd (projr scenario_size_max))) (malloced_items (snd (projr scenario_size_max)))"
proof -
  from scenario_size_max_run obtain s where
    r: "scenario_size_max = Inr (0x7F0000080000, s)"
    and f: "malloced_items s = 0x7F0000000000"
      "allocated_size (mem s) 0x7F0000000000 = 0x100000"
      "used_size (mem s) 0x7F0000000000 = - 1"
    by blast
  have n: "needed_size sample_cfg 0x80000 (- 1) = 0x80080"
    by (simp add: needed_size_def RoundUptoRedzone_def kRedzone_def sample_cfg_def Let_def)
  have ru: "RoundUptoPowerOfTwo 0x80080 = Inr 0x100000"
    by (simp add: run_defs)
  have u: "unat (- 1 :: addr) = 18446744073709551615"
    by (simp add: unsigned_minus_1_eq_mask mask_eq_exp_minus_1)
  have k: "unat (kRedzone sample_cfg) = 128" by (simp add: kRedzone_def sample_cfg_def)
  have e: "(unat (- 1 :: addr) + unat (kRedzone sample_cfg) - 1) div unat (kRedzone sample_cfg)
         * unat (kRedzone sample_cfg)
       + unat (kRedzone sample_cfg) + unat (0x80000 :: addr)
       = 2 ^ 64 + 0x80080"
    unfolding u k by simp
  have l: "(0x100000 :: addr) < - 1" by (simp add: word_less_nat_alt u)
  show ?thesis unfolding e by (simp add: r f n ru l)
qed

lemma asan_clear_mem_returns:
  "IsWordAligned p \<Longrightarrow> \<exists>s'. asan_clear_mem p k s = Inr s'"
  by (simp add: asan_clear_mem_def CHECK_def)

lemma scenario_plain_alloc:
  "\<exists>s. scenario_plain = Inr (0x7F0000000080, s)
      \<and> malloced_items s = 0x7F0000000000
      \<and> used_size (mem s) 0x7F0000000000 = 0x80000
      \<and> allocated_size (mem s) 0x7F0000000000 = 0x100000"
  by (simp add: scenario_plain_def run_defs sample_cfg_def sample_os_def init_state_def Let_def)

text \<open>
  Claim C10: \<^verbatim>\<open>__asan_calloc\<close> allocates the product reduced modulo \<open>2 ^ 64\<close>, with no
  check; \<^verbatim>\<open>calloc(2^61 + 1, 8)\<close>, whose exact product is \<open>2 ^ 64 + 8\<close>, is
  \<^verbatim>\<open>calloc(1, 8)\<close>.  On the initial state \<^verbatim>\<open>calloc(2^61 + 2^16, 8)\<close>, whose exact product
  is \<open>2 ^ 64 + 2 ^ 19\<close>, returns the pointer of \<^verbatim>\<open>malloc(0x80000)\<close>: a chunk of 1 MiB
  with a used size of \<open>2 ^ 19\<close> bytes.
\<close>

theorem calloc_product_wraps:
  "asan_calloc cfg os nmemb sz s
     = bind_r (Allocate cfg os 0 (word_of_nat ((unat nmemb * unat sz) mod 2 ^ 64)) s) (\<lambda>(res, s1).
       bind_r (asan_clear_mem res
                 ((word_of_nat ((unat nmemb * unat sz) mod 2 ^ 64) + kWordSize - 1) div kWordSize) s1)
         (\<lambda>s2. Inr (res, s2)))
   \<and> asan_calloc cfg os (2 ^ 61 + 1) 8 s = asan_calloc cfg os 1 8 s
   \<and> 2 ^ 64 \<le> unat (2 ^ 61 + 1 :: addr) * unat (8 :: addr)
   \<and> (\<exists>s1 s2. Allocate sample_cfg sample_os 0 0x80000 init_state = Inr (0x7F0000000080, s1)
         \<and> used_size (mem s1) (malloced_items s1) = 0x80000
         \<and> allocated_size (mem s1) (malloced_items s1) = 0x100000
         \<and> asan_calloc sample_cfg sample_os (2 ^ 61 + 2 ^ 16) 8 init_state
               = Inr (0x7F0000000080, s2))
   \<and> unat (2 ^ 61 + 2 ^ 16 :: addr) * unat (8 :: addr) = 2 ^ 64 + 2 ^ 19"
proof -
  have "nmemb * sz = word_of_nat ((unat nmemb * unat sz) mod 2 ^ 64)"
    by (simp add: word_unat_eq_iff unat_word_ariths unat_of_nat)
  then have 1: "asan_calloc cfg os nmemb sz s
     = bind_r (Allocate cfg os 0 (word_of_nat ((unat nmemb * unat sz) mod 2 ^ 64)) s) (\<lambda>(res, s1).
       bind_r (asan_clear_mem res
                 ((word_of_nat ((unat nmemb * unat sz) mod 2 ^ 64) + kWordSize - 1) div kWordSize) s1)
         (\<lambda>s2. Inr (res, s2)))"
    by (simp only: asan_calloc_def)
  have e: "(2 ^ 61 + 1) * 8 = (1 * 8 :: addr)" by simp
  have 2: "asan_calloc cfg os (2 ^ 61 + 1) 8 s = asan_calloc cfg os 1 8 s"
    unfolding asan_calloc_def e ..
  have 3: "2 ^ 64 \<le> unat (2 ^ 61 + 1 :: addr) * unat (8 :: addr)" by simp
  from scenario_plain_alloc obtain s1 where
    a: "Allocate sample_cfg sample_os 0 0x80000 init_state = Inr (0x7F0000000080, s1)"
    and f: "malloced_items s1 = 0x7F0000000000" "used_size (mem s1) 0x7F0000000000 = 0x80000"
      "allocated_size (mem s1) 0x7F0000000000 = 0x100000"
    unfolding scenario_plain_def by blast
  have wa: "IsWordAligned (0x7F0000000080 :: addr)"
    by (simp add: IsWordAligned_def IsAligned_def kWordSize_def)
  define k where "k = ((0x80000 :: addr) + kWordSize - 1) div kWordSize"
  from wa obtain s2 where c: "asan_clear_mem 0x7F0000000080 k s1 = Inr s2"
    using asan_clear_mem_returns by blast
  have e': "(2 ^ 61 + 2 ^ 16) * 8 = (0x80000 :: addr)" by simp
  have "asan_calloc sample_cfg sample_os (2 ^ 61 + 2 ^ 16) 8 init_state
      = Inr (0x7F0000000080, s2)"
    unfolding asan_calloc_def e' k_def [symmetric] by (simp add: a c bind_r_def)
  with a f have 4: "\<exists>s1 s2. Allocate sample_cfg sample_os 0 0x80000 init_state
           = Inr (0x7F0000000080, s1)
         \<and> used_size (mem s1) (malloced_items s1) = 0x80000
         \<and> allocated_size (mem s1) (malloced_items s1) = 0x100000
         \<and> asan_calloc sample_cfg sample_os (2 ^ 61 + 2 ^ 16) 8 init_state
               = Inr (0x7F0000000080, s2)"
    by auto
  have 5: "unat (2 ^ 61 + 2 ^ 16 :: addr) * unat (8 :: addr) = 2 ^ 64 + 2 ^ 19" by simp
  from 1 2 3 4 5 show ?thesis by blast
qed

text \<open>Witness of C8: the pointer of \<open>scenario_aligned\<close> under a cap of 0.\<close>

theorem Deallocate_cap_zero_witness:
  "flag_quarantine_size (sample_cfg\<lparr>flag_quarantine_size := 0\<rparr>) = 0
   \<and> fst (projr scenario_aligned) \<noteq> 0
   \<and> Deallocate (sample_cfg\<lparr>flag_quarantine_size := 0\<rparr>) (fst (projr scenario_aligned))
        (snd (projr scenario_aligned)) = Inl CheckFailed"
proof -
  from scenario_aligned_run obtain s where
    r: "scenario_aligned = Inr (0x7F0000080000, s)" by blast
  show ?thesis
    using Deallocate_cap_zero [of "sample_cfg\<lparr>flag_quarantine_size := 0\<rparr>" "0x7F0000080000" s]
    by (simp add: r)
qed

lemma scenario_aligned_free_run:
  "\<exists>s s'. scenario_aligned = Inr (0x7F0000080000, s)
      \<and> chunk_state (mem s) 0x7F0000000000 = CHUNK_ALLOCATED
      \<and> PtrToChunk sample_cfg (mem s) 0x7F0000080000 = 0x7F0000000000
      \<and> malloced_items s = 0x7F0000000000
      \<and> allocated_size (mem s) 0x7F0000000000 = 0x100000
      \<and> Deallocate sample_cfg 0x7F0000080000 s = Inr s'
      \<and> chunk_state (mem s') 0x7F0000000000 = CHUNK_QUARANTINE
      \<and> quarantine s' = 0x7F0000000000 \<and> quarantine_size s' = 0x100000"
  by (simp add: scenario_aligned_def run_defs sample_cfg_def sample_os_def init_state_def Let_def
      TakeChunkBack_loop.simps)

text \<open>
  Claim C1 (\<^verbatim>\<open>reallocate(p, 0)\<close> deallocates \<open>p\<close> and returns null).  The code returns
  null at once and leaves the state as it was: for the pointer of \<open>scenario_aligned\<close> the
  chunk is still \<^verbatim>\<open>CHUNK_ALLOCATED\<close> after \<^verbatim>\<open>Reallocate\<close>, while \<^verbatim>\<open>Deallocate\<close> of
  the same pointer puts it into the quarantine.
\<close>

theorem Reallocate_zero_size_keeps_chunk:
  "\<not> isl scenario_aligned
   \<and> Reallocate sample_cfg sample_os (fst (projr scenario_aligned)) 0 (snd (projr scenario_aligned))
       = Inr (0, snd (projr scenario_aligned))
   \<and> chunk_state (mem (snd (projr scenario_aligned)))
        (PtrToChunk sample_cfg (mem (snd (projr scenario_aligned))) (fst (projr scenario_aligned)))
       = CHUNK_ALLOCATED
   \<and> \<not> isl (Deallocate sample_cfg (fst (projr scenario_aligned)) (snd (projr scenario_aligned)))
   \<and> chunk_state (mem (projr (Deallocate sample_cfg (fst (projr scenario_aligned))
                                (snd (projr scenario_aligned)))))
        (PtrToChunk sample_cfg (mem (snd (projr scenario_aligned))) (fst (projr scenario_aligned)))
       = CHUNK_QUARANTINE"
proof -
  from scenario_aligned_free_run obtain s s' where
    r: "scenario_aligned = Inr (0x7F0000080000, s)"
    and f: "chunk_state (mem s) 0x7F0000000000 = CHUNK_ALLOCATED"
      "PtrToChunk sample_cfg (mem s) 0x7F0000080000 = 0x7F0000000000"
      "Deallocate sample_cfg 0x7F0000080000 s = Inr s'"
      "chunk_state (mem s') 0x7F0000000000 = CHUNK_QUARANTINE"
    by blast
  show ?thesis by (simp add: r f Reallocate_zero)
qed


section \<open>The heap invariant is kept\<close>

subsection \<open>Powers of two and header words\<close>

lemma wf_config_exp:
  assumes "wf_config cfg"
  obtains e j where "7 \<le> e" "e \<le> j" "j \<le> 50"
    "kMinRedzone cfg = 2 ^ (e - 2)" "kRedzone cfg = 2 ^ (e - 1)" "kMinAllocSize cfg = 2 ^ e"
    "kPageSize cfg = 2 ^ j" "kMinMmapSize cfg = 2 ^ (j + 7)"
proof -
  from assms have p: "IsPowerOfTwo (kMinRedzone cfg)" and lo: "32 \<le> kMinRedzone cfg"
    and hi: "kMinRedzone cfg \<le> 2 ^ 40" and pp: "IsPowerOfTwo (kPageSize cfg)"
    and pl: "kMinAllocSize cfg \<le> kPageSize cfg" and ph: "kPageSize cfg \<le> 2 ^ 50"
    by (simp_all add: wf_config_def)
  from lo have "kMinRedzone cfg \<noteq> 0" by auto
  with p obtain k where k: "k < 64" "kMinRedzone cfg = 2 ^ k" using IsPowerOfTwo_exp by blast
  have k5: "5 \<le> k" using exp_le_addr [of 5 k] lo k by simp
  have k40: "k \<le> 40" using exp_le_addr [of k 40] hi k by simp
  have rz: "kRedzone cfg = 2 ^ (k + 1)" by (simp add: kRedzone_def k(2))
  have ma: "kMinAllocSize cfg = 2 ^ (k + 2)" by (simp add: kMinAllocSize_def rz)
  have "unat ((2::addr) ^ (k + 2)) = 2 ^ (k + 2)" by (rule unat_exp) (use k40 in simp)
  then have "(2::addr) ^ (k + 2) \<noteq> 0" by (auto simp: word_unat_eq_iff simp del: power_add)
  then have "kPageSize cfg \<noteq> 0" using pl ma by auto
  with pp obtain j where j: "j < 64" "kPageSize cfg = 2 ^ j" using IsPowerOfTwo_exp by blast
  have "(2::addr) ^ (k + 2) \<le> 2 ^ j" using pl ma j(2) by (simp del: power_add)
  then have kj: "k + 2 \<le> j" using j(1) k40 exp_le_addr [of "k + 2" j] by simp
  have j50: "j \<le> 50" using exp_le_addr [of j 50] ph j by simp
  have mm: "kMinMmapSize cfg = 2 ^ (j + 7)" by (simp add: kMinMmapSize_def j(2) power_add)
  show ?thesis
    by (rule that [of "k + 2" j]) (use k5 kj j50 k(2) rz ma j(2) mm in simp_all)
qed

lemma unat_al_add:
  assumes "al c" and "unat x < 64"
  shows "unat (c + x) = unat c + unat x"
proof -
  from assms(1) obtain q where q: "unat c = 64 * q" unfolding al_def by (auto elim: dvdE)
  have "unat c < 2 ^ LENGTH(64)" by (rule unsigned_less)
  then have "64 * q < 64 * 288230376151711744" using q by simp
  then have "q < 288230376151711744" by simp
  then have "64 * q + unat x < 18446744073709551616" using assms(2) by arith
  then have "unat c + unat x < 2 ^ LENGTH(64)" using q by simp
  then show ?thesis by (simp only: unat_add_lem)
qed

lemma al_alias:
  assumes "al c" and "al d" and "unat x < 64" and "unat y < 64"
  shows "c + x = d + y \<longleftrightarrow> c = d \<and> x = y"
proof
  assume e: "c + x = d + y"
  then have s: "unat c + unat x = unat d + unat y"
    using unat_al_add [OF assms(1,3)] unat_al_add [OF assms(2,4)] by simp
  from assms(1) obtain q where q: "unat c = 64 * q" unfolding al_def by (auto elim: dvdE)
  from assms(2) obtain r where r: "unat d = 64 * r" unfolding al_def by (auto elim: dvdE)
  have "(unat c + unat x) mod 64 = unat x" using assms(3) by (simp add: q)
  moreover have "(unat d + unat y) mod 64 = unat y" using assms(4) by (simp add: r)
  ultimately have "unat x = unat y" using s by simp
  with s show "c = d \<and> x = y" by (simp add: word_unat_eq_iff)
qed simp

lemma al_alias0:
  assumes "al c" and "al d" and "unat y < 64"
  shows "c = d + y \<longleftrightarrow> c = d \<and> y = 0" and "d + y = c \<longleftrightarrow> c = d \<and> y = 0"
  using al_alias [OF assms(1,2), of 0 y] assms(3) by auto

lemma aligned_al:
  assumes "wf_config cfg" and "aligned cfg c"
  shows "al c"
proof -
  from assms(1) obtain e j where e: "7 \<le> e" "e \<le> j" "j \<le> 50" "kMinAllocSize cfg = 2 ^ e"
    by (rule wf_config_exp)
  have u: "unat (kMinAllocSize cfg) = 2 ^ e" unfolding e(4) by (rule unat_exp) (use e in simp)
  have "(2::nat) ^ 6 dvd 2 ^ e" by (rule le_imp_power_dvd) (use e in simp)
  then have "64 dvd unat (kMinAllocSize cfg)" using u by simp
  then show ?thesis using assms(2) unfolding al_def aligned_def by (rule dvd_trans)
qed

text \<open>Reading a header field after a write to a header field.\<close>

lemma get_set_next [simp]:
  "next_of (mem (set_next m v s)) c = (if c = m then v else next_of (mem s) c)"
  "al c \<Longrightarrow> al m \<Longrightarrow> prev_of (mem (set_next m v s)) c = prev_of (mem s) c"
  "al c \<Longrightarrow> al m \<Longrightarrow> chunk_state (mem (set_next m v s)) c = chunk_state (mem s) c"
  "al c \<Longrightarrow> al m \<Longrightarrow> allocated_size (mem (set_next m v s)) c = allocated_size (mem s) c"
  by (simp_all add: field_defs al_alias al_alias0)

lemma get_set_prev [simp]:
  "prev_of (mem (set_prev m v s)) c = (if c = m then v else prev_of (mem s) c)"
  "al c \<Longrightarrow> al m \<Longrightarrow> next_of (mem (set_prev m v s)) c = next_of (mem s) c"
  "al c \<Longrightarrow> al m \<Longrightarrow> chunk_state (mem (set_prev m v s)) c = chunk_state (mem s) c"
  "al c \<Longrightarrow> al m \<Longrightarrow> allocated_size (mem (set_prev m v s)) c = allocated_size (mem s) c"
  by (simp_all add: field_defs al_alias al_alias0)

lemma get_set_chunk_state [simp]:
  "chunk_state (mem (set_chunk_state m v s)) c = (if c = m then v else chunk_state (mem s) c)"
  "al c \<Longrightarrow> al m \<Longrightarrow> next_of (mem (set_chunk_state m v s)) c = next_of (mem s) c"
  "al c \<Longrightarrow> al m \<Longrightarrow> prev_of (mem (set_chunk_state m v s)) c = prev_of (mem s) c"
  "al c \<Longrightarrow> al m \<Longrightarrow> allocated_size (mem (set_chunk_state m v s)) c = allocated_size (mem s) c"
  by (simp_all add: field_defs al_alias al_alias0)

lemma get_set_used_size [simp]:
  "al c \<Longrightarrow> al m \<Longrightarrow> chunk_state (mem (set_used_size m v s)) c = chunk_state (mem s) c"
  "al c \<Longrightarrow> al m \<Longrightarrow> next_of (mem (set_used_size m v s)) c = next_of (mem s) c"
  "al c \<Longrightarrow> al m \<Longrightarrow> prev_of (mem (set_used_size m v s)) c = prev_of (mem s) c"
  "al c \<Longrightarrow> al m \<Longrightarrow> allocated_size (mem (set_used_size m v s)) c = allocated_size (mem s) c"
  by (simp_all add: field_defs al_alias al_alias0)

lemma set_field_globals [simp]:
  "chunks (set_next m v s) = chunks s" "quarantine (set_next m v s) = quarantine s"
  "quarantine_size (set_next m v s) = quarantine_size s"
  "malloced_items (set_next m v s) = malloced_items s" "mapped (set_next m v s) = mapped s"
  "chunks (set_prev m v s) = chunks s" "quarantine (set_prev m v s) = quarantine s"
  "quarantine_size (set_prev m v s) = quarantine_size s"
  "malloced_items (set_prev m v s) = malloced_items s" "mapped (set_prev m v s) = mapped s"
  "chunks (set_chunk_state m v s) = chunks s" "quarantine (set_chunk_state m v s) = quarantine s"
  "quarantine_size (set_chunk_state m v s) = quarantine_size s"
  "malloced_items (set_chunk_state m v s) = malloced_items s"
  "mapped (set_chunk_state m v s) = mapped s"
  "chunks (set_used_size m v s) = chunks s" "quarantine (set_used_size m v s) = quarantine s"
  "quarantine_size (set_used_size m v s) = quarantine_size s"
  "malloced_items (set_used_size m v s) = malloced_items s"
  "mapped (set_used_size m v s) = mapped s"
  by (simp_all add: field_defs)

subsection \<open>Chains\<close>

lemma dchain_Cons:
  "dchain h (x # qs) \<longleftrightarrow>
     (qs = [] \<or> next_of h x = hd qs \<and> prev_of h (hd qs) = x) \<and> dchain h qs"
  by (cases qs) auto

lemma dchain_snoc:
  "dchain h (qs @ [a]) \<longleftrightarrow>
     (qs = [] \<or> next_of h (last qs) = a \<and> prev_of h a = last qs) \<and> dchain h qs"
  by (induction qs) (auto simp: dchain_Cons)

lemma dchain_butlast: "dchain h qs \<Longrightarrow> dchain h (butlast qs)"
  by (cases qs rule: rev_cases) (auto simp: dchain_snoc)

lemma dchain_last:
  assumes "dchain h qs" and "2 \<le> length qs"
  shows "prev_of h (last qs) = last (butlast qs)" and "next_of h (last (butlast qs)) = last qs"
proof -
  from assms(2) obtain r a where qs: "qs = r @ [a]"
    by (cases qs rule: rev_cases) auto
  with assms(2) have "r \<noteq> []" by auto
  with qs assms(1) show "prev_of h (last qs) = last (butlast qs)"
    and "next_of h (last (butlast qs)) = last qs"
    by (auto simp: dchain_snoc)
qed

lemma dchain_frame:
  assumes "\<forall>x\<in>set (butlast qs). next_of h' x = next_of h x"
    and "\<forall>x\<in>set (tl qs). prev_of h' x = prev_of h x"
  shows "dchain h' qs = dchain h qs"
  using assms
proof (induction qs)
  case (Cons x qs)
  then show ?case by (cases qs) (auto simp: dchain_Cons)
qed simp

lemma off_hdr:
  assumes "a \<notin> hdr C" and "c \<in> C"
  shows "a \<noteq> c" "a \<noteq> c + 8" "a \<noteq> c + 16" "a \<noteq> c + 24" "a \<noteq> c + 32"
  using assms by (auto simp: hdr_def)

lemma hdr_mono: "C \<subseteq> D \<Longrightarrow> hdr C \<subseteq> hdr D"
  by (auto simp: hdr_def)

lemma mem_set_field:
  "mem (set_next m v s) = (mem s)(m + 24 := v)"
  "mem (set_prev m v s) = (mem s)(m + 32 := v)"
  "mem (set_chunk_state m v s) = (mem s)(m := v)"
  "mem (set_used_size m v s) = (mem s)(m + 16 := v)"
  "mem (set_allocated_size m v s) = (mem s)(m + 8 := v)"
  by (simp_all add: field_defs)

subsection \<open>The invariant depends on the headers only\<close>

lemma chunks_ok_cong:
  assumes "\<forall>c\<in>C. allocated_size h' c = allocated_size h c" and "chunks_ok cfg h C"
  shows "chunks_ok cfg h' C"
  using assms by (simp add: chunks_ok_def)

lemma covered_cong:
  assumes "\<forall>c\<in>C. allocated_size h' c = allocated_size h c" and "covered h C M"
  shows "covered h' C M"
  using assms by (simp add: covered_def)

lemma live_ok_cong:
  assumes "\<forall>c\<in>L. chunk_state h' c = chunk_state h c \<and> next_of h' c = next_of h c
              \<and> prev_of h' c = prev_of h c"
    and "live_ok h C L x"
  shows "live_ok h' C L x"
  unfolding live_ok_def
proof (intro conjI ballI)
  show "L \<subseteq> C" using assms(2) by (simp add: live_ok_def)
  show "x = 0 \<or> x \<in> L \<and> prev_of h' x = 0" using assms by (auto simp: live_ok_def)
next
  fix c assume c: "c \<in> L"
  with assms(2) have d: "chunk_state h c = CHUNK_ALLOCATED"
    "next_of h c = 0 \<or> next_of h c \<in> L \<and> prev_of h (next_of h c) = c"
    "prev_of h c = 0 \<or> prev_of h c \<in> L \<and> next_of h (prev_of h c) = c"
    by (auto simp: live_ok_def)
  from c assms(1) have e: "chunk_state h' c = chunk_state h c" "next_of h' c = next_of h c"
    "prev_of h' c = prev_of h c" by auto
  show "chunk_state h' c = CHUNK_ALLOCATED" using d e by simp
  show "next_of h' c = 0 \<or> next_of h' c \<in> L \<and> prev_of h' (next_of h' c) = c"
    using d(2) e assms(1) by auto
  show "prev_of h' c = 0 \<or> prev_of h' c \<in> L \<and> next_of h' (prev_of h' c) = c"
    using d(3) e assms(1) by auto
qed

lemma heap_inv_al:
  assumes "heap_inv cfg s C L qs"
  shows "\<forall>c\<in>C. al c" and "\<forall>c\<in>L. al c" and "\<forall>c\<in>set qs. al c"
    and "L \<subseteq> C" and "set qs \<subseteq> C" and "0 \<notin> C"
proof -
  from assms have wf: "wf_config cfg" and ck: "chunks_ok cfg (mem s) C"
    and l: "L \<subseteq> C" and q: "set qs \<subseteq> C"
    by (auto simp: heap_inv_def live_ok_def ring_ok_def)
  show a: "\<forall>c\<in>C. al c" using ck wf by (auto simp: chunks_ok_def intro: aligned_al)
  show "\<forall>c\<in>L. al c" using a l by auto
  show "\<forall>c\<in>set qs. al c" using a q by auto
  show "L \<subseteq> C" by (rule l)
  show "set qs \<subseteq> C" by (rule q)
  show "0 \<notin> C" using ck by (auto simp: chunks_ok_def)
qed

lemma magic_distinct [simp]:
  "CHUNK_AVAILABLE \<noteq> CHUNK_ALLOCATED" "CHUNK_ALLOCATED \<noteq> CHUNK_AVAILABLE"
  "CHUNK_AVAILABLE \<noteq> CHUNK_QUARANTINE" "CHUNK_QUARANTINE \<noteq> CHUNK_AVAILABLE"
  "CHUNK_ALLOCATED \<noteq> CHUNK_QUARANTINE" "CHUNK_QUARANTINE \<noteq> CHUNK_ALLOCATED"
  "CHUNK_MEMALIGN \<noteq> CHUNK_ALLOCATED" "CHUNK_ALLOCATED \<noteq> CHUNK_MEMALIGN"
  "CHUNK_MEMALIGN \<noteq> CHUNK_QUARANTINE" "CHUNK_QUARANTINE \<noteq> CHUNK_MEMALIGN"
  "CHUNK_MEMALIGN \<noteq> CHUNK_AVAILABLE" "CHUNK_AVAILABLE \<noteq> CHUNK_MEMALIGN"
  by (simp_all add: magic_defs)

text \<open>What \<open>pop\<close> writes, on a ring of the invariant.\<close>

lemma pop_result:
  assumes inv: "heap_inv cfg s C L qs" and p: "pop s = Inr s'"
  shows "qs \<noteq> [] \<and> (\<exists>idx.
      Log2 (allocated_size (mem s) (last qs)) = Inr idx
    \<and> allocated_size (mem s) (last qs) \<le> quarantine_size s
    \<and> s' = (let m = last qs;
                s1 = (if hd qs = m then s\<lparr>quarantine := 0\<rparr>
                      else set_next (last (butlast qs)) (hd qs)
                             (set_prev (hd qs) (last (butlast qs)) s));
                s2 = s1\<lparr>quarantine_size := quarantine_size s - allocated_size (mem s) m\<rparr>;
                s4 = set_next m (chunks s idx) (set_chunk_state m CHUNK_AVAILABLE s2)
            in s4\<lparr>chunks := (chunks s)(idx := m)\<rparr>))"
proof -
  note a = heap_inv_al [OF inv]
  from inv have rg: "ring_ok (mem s) C qs (quarantine s) (quarantine_size s)"
    by (simp add: heap_inv_def)
  then have qr: "quarantine_ring (mem s) (quarantine s) qs" by (simp add: ring_ok_def)
  from p have q0: "quarantine s \<noteq> 0" by (simp add: pop_def CHECK_Inr_iff)
  with qr have ne: "qs \<noteq> []" by (auto simp: quarantine_ring_def)
  with qr have q: "quarantine s = hd qs" and nl: "next_of (mem s) (last qs) = hd qs"
    and pl: "prev_of (mem s) (hd qs) = last qs" and dc: "dchain (mem s) qs"
    and di: "distinct qs"
    by (auto simp: quarantine_ring_def)
  define m where "m = last qs"
  have mq: "m \<in> set qs" and hq: "hd qs \<in> set qs" using ne by (simp_all add: m_def)
  have alm: "al m" and alh: "al (hd qs)" using a(3) mq hq by auto
  show ?thesis
  proof (cases "hd qs = m")
    case True
    with p q pl nl alm show ?thesis
      unfolding pop_def m_def [symmetric]
      by (auto simp: CHECK_Inr_iff bind_r_Inr_iff Let_def ne)
  next
    case False
    have len: "2 \<le> length qs"
    proof (cases qs rule: rev_cases)
      case Nil
      with ne show ?thesis by simp
    next
      case (snoc ys y)
      with False show ?thesis by (cases ys) (auto simp: m_def)
    qed
    from dchain_last [OF dc len] have pm: "prev_of (mem s) m = last (butlast qs)"
      by (simp add: m_def)
    have "butlast qs \<noteq> []" using len by (cases qs rule: rev_cases) auto
    then have "last (butlast qs) \<in> set (butlast qs)" by simp
    then have "last (butlast qs) \<in> set qs" by (rule in_set_butlastD)
    then have alp: "al (last (butlast qs))" using a(3) by auto
    from p q pl nl pm alm alh alp False show ?thesis
      unfolding pop_def m_def [symmetric]
      by (auto simp: CHECK_Inr_iff bind_r_Inr_iff Let_def ne)
  qed
qed

lemma sum_list_butlast:
  "qs \<noteq> [] \<Longrightarrow> sum_list (map f qs) = sum_list (map f (butlast qs)) + f (last qs)"
  by (cases qs rule: rev_cases) auto

lemma pop_heap_inv:
  assumes inv: "heap_inv cfg s C L qs" and p: "pop s = Inr s'"
  shows "qs \<noteq> []"
    and "heap_inv cfg s' C L (butlast qs)"
    and "quarantine_size s' = quarantine_size s - allocated_size (mem s) (last qs)"
    and "allocated_size (mem s) (last qs) \<le> quarantine_size s"
    and "\<forall>c\<in>C. chunk_state (mem s') c
            = (if c = last qs then CHUNK_AVAILABLE else chunk_state (mem s) c)"
    and "\<forall>c\<in>C. allocated_size (mem s') c = allocated_size (mem s) c"
    and "\<exists>idx. Log2 (allocated_size (mem s) (last qs)) = Inr idx
            \<and> chunks s' = (chunks s)(idx := last qs)
            \<and> next_of (mem s') (last qs) = chunks s idx"
    and "malloced_items s' = malloced_items s"
proof -
  note a = heap_inv_al [OF inv]
  from inv have wf: "wf_config cfg" and ck: "chunks_ok cfg (mem s) C"
    and cv: "covered (mem s) C (mapped s)"
    and lv: "live_ok (mem s) C L (malloced_items s)"
    and rg: "ring_ok (mem s) C qs (quarantine s) (quarantine_size s)"
    and fr: "free_ok (mem s) C L qs (chunks s)"
    by (simp_all add: heap_inv_def)
  from rg have qr: "quarantine_ring (mem s) (quarantine s) qs"
    and qst: "\<forall>c\<in>set qs. chunk_state (mem s) c = CHUNK_QUARANTINE"
    and cnt: "unat (quarantine_size s) = sum_list (map (\<lambda>c. unat (allocated_size (mem s) c)) qs)"
    by (simp_all add: ring_ok_def)
  from pop_result [OF inv p] obtain idx where ne: "qs \<noteq> []"
    and lg: "Log2 (allocated_size (mem s) (last qs)) = Inr idx"
    and le: "allocated_size (mem s) (last qs) \<le> quarantine_size s"
    and s': "s' = (let m = last qs;
                s1 = (if hd qs = m then s\<lparr>quarantine := 0\<rparr>
                      else set_next (last (butlast qs)) (hd qs)
                             (set_prev (hd qs) (last (butlast qs)) s));
                s2 = s1\<lparr>quarantine_size := quarantine_size s - allocated_size (mem s) m\<rparr>;
                s4 = set_next m (chunks s idx) (set_chunk_state m CHUNK_AVAILABLE s2)
            in s4\<lparr>chunks := (chunks s)(idx := m)\<rparr>)"
    by blast
  define m where "m = last qs"
  define pb where "pb = last (butlast qs)"
  define single where "single \<longleftrightarrow> hd qs = m"
  from qr ne have q: "quarantine s = hd qs" and dc: "dchain (mem s) qs" and di: "distinct qs"
    and z: "0 \<notin> set qs"
    by (auto simp: quarantine_ring_def)
  have mq: "m \<in> set qs" and hq: "hd qs \<in> set qs" using ne by (simp_all add: m_def)
  have mC: "m \<in> C" and hC: "hd qs \<in> C" using a(5) mq hq by auto
  have alm: "al m" and alh: "al (hd qs)" using a(3) mq hq by auto
  have qs_eq: "qs = butlast qs @ [m]" using ne by (simp add: m_def)
  have bl: "butlast qs = [] \<longleftrightarrow> single"
  proof
    assume "butlast qs = []"
    with qs_eq have "qs = [m]" by simp
    then show single by (simp add: single_def)
  next
    assume single
    show "butlast qs = []"
    proof (rule ccontr)
      assume n: "butlast qs \<noteq> []"
      then have "hd qs = hd (butlast qs)" using qs_eq by (metis hd_append2)
      with n have "hd qs \<in> set (butlast qs)" by simp
      moreover have "m \<notin> set (butlast qs)" using di qs_eq
        by (metis distinct_append distinct.simps(2) disjoint_iff list.set_intros(1))
      ultimately show False using \<open>single\<close> by (simp add: single_def)
    qed
  qed
  have pbq: "\<not> single \<Longrightarrow> pb \<in> set (butlast qs)" using bl by (simp add: pb_def)
  have mnb: "m \<notin> set (butlast qs)" using di qs_eq
    by (metis distinct_append distinct.simps(2) disjoint_iff list.set_intros(1))
  have bsub: "set (butlast qs) \<subseteq> set qs" by (auto dest: in_set_butlastD)
  have alp: "\<not> single \<Longrightarrow> al pb" using pbq bsub a(3) by auto
  have pbm: "\<not> single \<Longrightarrow> pb \<noteq> m" using pbq mnb by auto
  have fs: "\<forall>c\<in>C. chunk_state (mem s') c
            = (if c = m then CHUNK_AVAILABLE else chunk_state (mem s) c)"
    using a(1) alm alh alp
    by (auto simp: s' Let_def m_def [symmetric] pb_def [symmetric] single_def [symmetric])
  have fa: "\<forall>c\<in>C. allocated_size (mem s') c = allocated_size (mem s) c"
    using a(1) alm alh alp
    by (auto simp: s' Let_def m_def [symmetric] pb_def [symmetric] single_def [symmetric])
  have fn: "\<forall>c\<in>C. next_of (mem s') c
            = (if c = m then chunks s idx else if \<not> single \<and> c = pb then hd qs
               else next_of (mem s) c)"
    using a(1) alm alh alp
    by (auto simp: s' Let_def m_def [symmetric] pb_def [symmetric] single_def [symmetric])
  have fp: "\<forall>c\<in>C. prev_of (mem s') c
            = (if \<not> single \<and> c = hd qs then pb else prev_of (mem s) c)"
    using a(1) alm alh alp
    by (auto simp: s' Let_def m_def [symmetric] pb_def [symmetric] single_def [symmetric])
  have gl: "malloced_items s' = malloced_items s" "mapped s' = mapped s"
    "chunks s' = (chunks s)(idx := m)"
    "quarantine s' = (if single then 0 else quarantine s)"
    "quarantine_size s' = quarantine_size s - allocated_size (mem s) m"
    by (auto simp: s' Let_def m_def [symmetric] pb_def [symmetric] single_def [symmetric])
  show "qs \<noteq> []" by (rule ne)
  show "quarantine_size s' = quarantine_size s - allocated_size (mem s) (last qs)"
    using gl(5) by (simp add: m_def)
  show "allocated_size (mem s) (last qs) \<le> quarantine_size s" by (rule le)
  show "\<forall>c\<in>C. chunk_state (mem s') c
            = (if c = last qs then CHUNK_AVAILABLE else chunk_state (mem s) c)"
    using fs by (simp add: m_def)
  show "\<forall>c\<in>C. allocated_size (mem s') c = allocated_size (mem s) c" by (rule fa)
  show "\<exists>idx. Log2 (allocated_size (mem s) (last qs)) = Inr idx
            \<and> chunks s' = (chunks s)(idx := last qs)
            \<and> next_of (mem s') (last qs) = chunks s idx"
    using lg gl(3) fn mC by (auto simp: m_def)
  show "malloced_items s' = malloced_items s" by (rule gl(1))
  have ck': "chunks_ok cfg (mem s') C" using fa ck by (rule chunks_ok_cong)
  have cv': "covered (mem s') C (mapped s')" unfolding gl(2) using fa cv by (rule covered_cong)
  have Lq: "\<forall>c\<in>L. c \<notin> set qs"
  proof
    fix c assume "c \<in> L"
    with lv have "chunk_state (mem s) c = CHUNK_ALLOCATED" by (simp add: live_ok_def)
    with qst show "c \<notin> set qs" by auto
  qed
  have lv': "live_ok (mem s') C L (malloced_items s')"
    unfolding gl(1)
  proof (rule live_ok_cong [OF _ lv], intro ballI)
    fix c assume c: "c \<in> L"
    then have "c \<in> C" "c \<notin> set qs" using a(4) Lq by auto
    moreover have "\<not> single \<Longrightarrow> pb \<in> set qs" using pbq bsub by auto
    ultimately show "chunk_state (mem s') c = chunk_state (mem s) c
        \<and> next_of (mem s') c = next_of (mem s) c \<and> prev_of (mem s') c = prev_of (mem s) c"
      using fs fn fp mq hq by auto
  qed
  have dcb: "dchain (mem s) (butlast qs)" using dc by (rule dchain_butlast)
  have "dchain (mem s') (butlast qs) = dchain (mem s) (butlast qs)"
  proof (rule dchain_frame)
    show "\<forall>x\<in>set (butlast (butlast qs)). next_of (mem s') x = next_of (mem s) x"
    proof
      fix x assume x: "x \<in> set (butlast (butlast qs))"
      then have xb: "x \<in> set (butlast qs)" by (rule in_set_butlastD)
      then have xC: "x \<in> C" using bsub a(5) by auto
      have "x \<noteq> m" using xb mnb by auto
      moreover have "x \<noteq> pb"
      proof -
        have "distinct (butlast qs)" using di by (rule distinct_butlast)
        moreover have "butlast qs \<noteq> []" using xb by auto
        then have "butlast qs = butlast (butlast qs) @ [pb]" by (simp add: pb_def)
        ultimately show ?thesis using x
          by (metis distinct_append distinct.simps(2) disjoint_iff list.set_intros(1))
      qed
      ultimately show "next_of (mem s') x = next_of (mem s) x" using fn xC by simp
    qed
    show "\<forall>x\<in>set (tl (butlast qs)). prev_of (mem s') x = prev_of (mem s) x"
    proof
      fix x assume x: "x \<in> set (tl (butlast qs))"
      then have ne': "butlast qs \<noteq> []" by auto
      from x have xb: "x \<in> set (butlast qs)" by (rule list.set_sel(2) [OF ne'])
      then have xC: "x \<in> C" using bsub a(5) by auto
      have "hd qs = hd (butlast qs)" using ne' qs_eq by (metis hd_append2)
      moreover have "distinct (butlast qs)" using di by (rule distinct_butlast)
      ultimately have "x \<noteq> hd qs" using x ne'
        by (metis distinct.simps(2) list.collapse)
      then show "prev_of (mem s') x = prev_of (mem s) x" using fp xC by simp
    qed
  qed
  with dcb have dc': "dchain (mem s') (butlast qs)" by simp
  have qr': "quarantine_ring (mem s') (quarantine s') (butlast qs)"
  proof (cases single)
    case True
    then show ?thesis using bl gl(4) by (simp add: quarantine_ring_def)
  next
    case False
    then have ne': "butlast qs \<noteq> []" using bl by simp
    have hh: "hd (butlast qs) = hd qs" using ne' qs_eq by (metis hd_append2)
    have pC: "pb \<in> C" using pbq [OF False] bsub a(5) by auto
    have "next_of (mem s') pb = hd qs" using fn pC pbm [OF False] False by simp
    moreover have "prev_of (mem s') (hd qs) = pb" using fp hC False by simp
    moreover have "distinct (butlast qs)" using di by (rule distinct_butlast)
    moreover have "0 \<notin> set (butlast qs)" using z bsub by auto
    ultimately show ?thesis using dc' ne' hh gl(4) q False
      by (simp add: quarantine_ring_def pb_def)
  qed
  have cnt': "unat (quarantine_size s')
      = sum_list (map (\<lambda>c. unat (allocated_size (mem s') c)) (butlast qs))"
  proof -
    have "sum_list (map (\<lambda>c. unat (allocated_size (mem s') c)) (butlast qs))
        = sum_list (map (\<lambda>c. unat (allocated_size (mem s) c)) (butlast qs))"
      using fa bsub a(5) by (intro arg_cong [where f = sum_list] map_cong) auto
    moreover have "unat (quarantine_size s) = sum_list (map (\<lambda>c. unat (allocated_size (mem s) c)) (butlast qs))
        + unat (allocated_size (mem s) m)"
      using cnt sum_list_butlast [OF ne, of "\<lambda>c. unat (allocated_size (mem s) c)"]
      by (simp add: m_def)
    moreover have "unat (quarantine_size s') = unat (quarantine_size s) - unat (allocated_size (mem s) m)"
      unfolding gl(5) using le by (simp add: unat_sub m_def)
    ultimately show ?thesis by simp
  qed
  have rg': "ring_ok (mem s') C (butlast qs) (quarantine s') (quarantine_size s')"
    unfolding ring_ok_def
  proof (intro conjI ballI)
    show "set (butlast qs) \<subseteq> C" using bsub a(5) by auto
    show "quarantine_ring (mem s') (quarantine s') (butlast qs)" by (rule qr')
    show "unat (quarantine_size s')
      = sum_list (map (\<lambda>c. unat (allocated_size (mem s') c)) (butlast qs))" by (rule cnt')
  next
    fix c assume c: "c \<in> set (butlast qs)"
    then have "c \<noteq> m" "c \<in> C" "c \<in> set qs" using mnb bsub a(5) by auto
    then show "chunk_state (mem s') c = CHUNK_QUARANTINE" using fs qst by simp
  qed
  have fr': "free_ok (mem s') C L (butlast qs) (chunks s')"
    unfolding free_ok_def gl(3)
  proof (intro conjI allI ballI)
    fix i show "((chunks s)(idx := m)) i = 0 \<or> ((chunks s)(idx := m)) i \<in> C"
      using fr mC by (auto simp: free_ok_def)
  next
    fix c assume c: "c \<in> C"
    show "c \<in> L \<or> c \<in> set (butlast qs) \<or> next_of (mem s') c = 0 \<or> next_of (mem s') c \<in> C"
    proof (cases "c = m")
      case True
      then show ?thesis using fn c fr by (auto simp: free_ok_def)
    next
      case False
      show ?thesis
      proof (cases "c \<in> set qs")
        case True
        with False qs_eq have "c \<in> set (butlast qs)"
          by (metis Un_iff empty_iff empty_set set_ConsD set_append)
        then show ?thesis by simp
      next
        case nq: False
        then have "single \<or> c \<noteq> pb" using pbq bsub by auto
        then have "next_of (mem s') c = next_of (mem s) c" using fn c False by auto
        then show ?thesis using fr c nq by (auto simp: free_ok_def)
      qed
    qed
  qed
  show "heap_inv cfg s' C L (butlast qs)"
    unfolding heap_inv_def using wf ck' cv' lv' rg' fr' by blast
qed

subsection \<open>The eviction loop\<close>

lemma in_set_tlD: "x \<in> set (tl xs) \<Longrightarrow> x \<in> set xs"
  by (cases xs) auto

lemma ring_ok_cong:
  assumes "\<forall>c\<in>set qs. chunk_state h' c = chunk_state h c
              \<and> allocated_size h' c = allocated_size h c
              \<and> next_of h' c = next_of h c \<and> prev_of h' c = prev_of h c"
    and "ring_ok h C qs q cnt"
  shows "ring_ok h' C qs q cnt"
proof -
  have d: "dchain h' qs = dchain h qs"
    by (rule dchain_frame) (use assms(1) in \<open>auto dest: in_set_butlastD in_set_tlD\<close>)
  have s: "sum_list (map (\<lambda>c. unat (allocated_size h' c)) qs)
         = sum_list (map (\<lambda>c. unat (allocated_size h c)) qs)"
    by (rule arg_cong [where f = sum_list], rule map_cong) (use assms(1) in auto)
  have e: "qs \<noteq> [] \<Longrightarrow> next_of h' (last qs) = next_of h (last qs)
       \<and> prev_of h' (hd qs) = prev_of h (hd qs)"
    using assms(1) by simp
  have st: "\<forall>c\<in>set qs. chunk_state h' c = CHUNK_QUARANTINE"
    using assms by (simp add: ring_ok_def)
  from assms(2) have "quarantine_ring h q qs" by (simp add: ring_ok_def)
  then have "quarantine_ring h' q qs" using d e by (auto simp: quarantine_ring_def)
  then show ?thesis using assms(2) st unfolding ring_ok_def s by blast
qed

lemma free_ok_cong:
  assumes "\<forall>c\<in>C. c \<notin> L \<longrightarrow> c \<notin> set qs \<longrightarrow> next_of h' c = next_of h c"
    and "free_ok h C L qs fl"
  shows "free_ok h' C L qs fl"
  using assms by (auto simp: free_ok_def)

text \<open>Chunks are disjoint regions of the address space: their sizes add up below \<open>2 ^ 64\<close>.\<close>

lemma sum_allocated_size_bound:
  assumes ck: "chunks_ok cfg h C" and di: "distinct xs" and sub: "set xs \<subseteq> C"
  shows "sum_list (map (\<lambda>c. unat (allocated_size h c)) xs) < 2 ^ 64"
proof -
  let ?r = "\<lambda>c. region c (allocated_size h c)"
  have fin: "finite (set xs)" by simp
  have dj: "\<forall>c\<in>set xs. \<forall>d\<in>set xs. c \<noteq> d \<longrightarrow> ?r c \<inter> ?r d = {}"
    using ck sub unfolding chunks_ok_def by blast
  have in_top: "?r c \<subseteq> {1 ..< 2 ^ 64}" if "c \<in> set xs" for c
  proof -
    from that sub ck have "c \<noteq> 0" "unat c + unat (allocated_size h c) \<le> 2 ^ 64"
      by (auto simp: chunks_ok_def)
    moreover from \<open>c \<noteq> 0\<close> have "0 < unat c" by (simp add: unat_gt_0)
    ultimately show ?thesis by (auto simp: region_def)
  qed
  have "sum_list (map (\<lambda>c. unat (allocated_size h c)) xs) = (\<Sum>c\<in>set xs. unat (allocated_size h c))"
    using di by (simp add: sum_list_distinct_conv_sum_set)
  also have "\<dots> = (\<Sum>c\<in>set xs. card (?r c))" by (simp add: region_def)
  also have "\<dots> = card (\<Union>c\<in>set xs. ?r c)"
    by (rule card_UN_disjoint [symmetric, OF fin _ dj]) (simp add: region_def)
  also have "\<dots> \<le> card {1 ..< (2::nat) ^ 64}"
    by (rule card_mono) (use in_top in auto)
  also have "\<dots> < 2 ^ 64" by simp
  finally show ?thesis .
qed

lemma TakeChunkBack_loop_heap_inv:
  assumes "heap_inv cfg s C L qs" and "TakeChunkBack_loop cfg s = Inr s'"
  shows "\<exists>n. heap_inv cfg s' C L (take n qs)
      \<and> quarantine_size s' \<le> flag_quarantine_size cfg
      \<and> malloced_items s' = malloced_items s
      \<and> (\<forall>c\<in>C. allocated_size (mem s') c = allocated_size (mem s) c)
      \<and> (\<forall>c\<in>C. chunk_state (mem s') c
            = (if c \<in> set (drop n qs) then CHUNK_AVAILABLE else chunk_state (mem s) c))"
  using assms
proof (induction cfg s arbitrary: qs rule: TakeChunkBack_loop.induct)
  case (1 cfg s)
  show ?case
  proof (cases "quarantine_size s \<noteq> 0 \<and> flag_quarantine_size cfg < quarantine_size s")
    case False
    with "1.prems"(2) have "s' = s" by (simp add: TakeChunkBack_loop.simps)
    moreover from False have "quarantine_size s \<le> flag_quarantine_size cfg" by auto
    ultimately show ?thesis using "1.prems"(1)
      by (intro exI [of _ "length qs"]) simp
  next
    case True
    with "1.prems"(2) obtain t where t: "pop s = Inr t" and l: "TakeChunkBack_loop cfg t = Inr s'"
      by (subst (asm) TakeChunkBack_loop.simps) (auto split: sum.splits)
    note ph = pop_heap_inv [OF "1.prems"(1) t]
    from "1.IH" [OF True t ph(2) l] obtain n where
      n: "heap_inv cfg s' C L (take n (butlast qs))"
        "quarantine_size s' \<le> flag_quarantine_size cfg"
        "malloced_items s' = malloced_items t"
        "\<forall>c\<in>C. allocated_size (mem s') c = allocated_size (mem t) c"
        "\<forall>c\<in>C. chunk_state (mem s') c
            = (if c \<in> set (drop n (butlast qs)) then CHUNK_AVAILABLE else chunk_state (mem t) c)"
      by blast
    define k where "k = min n (length qs - 1)"
    have tk: "take n (butlast qs) = take k qs"
      by (simp add: k_def butlast_conv_take min.commute)
    have qs_eq: "qs = butlast qs @ [last qs]" using ph(1) by simp
    have dr: "set (drop k qs) = set (drop n (butlast qs)) \<union> {last qs}"
    proof -
      have "drop k (butlast qs @ [last qs]) = drop k (butlast qs) @ [last qs]"
        by (simp add: k_def)
      then have "drop k qs = drop k (butlast qs) @ [last qs]"
        using ph(1) by simp
      moreover have "drop k (butlast qs) = drop n (butlast qs)"
        by (simp add: k_def min_def)
      ultimately show ?thesis by simp
    qed
    have "\<forall>c\<in>C. chunk_state (mem s') c
            = (if c \<in> set (drop k qs) then CHUNK_AVAILABLE else chunk_state (mem s) c)"
      using n(5) ph(5) dr by auto
    moreover have "\<forall>c\<in>C. allocated_size (mem s') c = allocated_size (mem s) c"
      using n(4) ph(6) by auto
    ultimately show ?thesis using n(1,2,3) ph(8) tk by (intro exI [of _ k]) simp
  qed
qed

subsection \<open>\<^verbatim>\<open>TakeChunkBack\<close> and \<^verbatim>\<open>Deallocate\<close>\<close>

lemma TakeChunkBack_steps:
  "TakeChunkBack cfg m s =
     CHECK (m \<noteq> 0)
    (CHECK (chunk_state (mem s) m = CHUNK_ALLOCATED)
    (CHECK (IsPowerOfTwo (allocated_size (mem s) m))
    (CHECK (flag_quarantine_size cfg > 0)
      (TakeChunkBack_loop cfg (enqueue m (unlink m s))))))"
  by (simp add: TakeChunkBack_def unlink_def enqueue_def Let_def)

lemma unlink_heap_inv:
  assumes inv: "heap_inv cfg s C L qs" and mL: "m \<in> L"
  shows "heap_inv cfg (unlink m s) C (L - {m}) qs"
    and "\<forall>c\<in>C. chunk_state (mem (unlink m s)) c = chunk_state (mem s) c"
    and "\<forall>c\<in>C. allocated_size (mem (unlink m s)) c = allocated_size (mem s) c"
    and "quarantine (unlink m s) = quarantine s"
    and "quarantine_size (unlink m s) = quarantine_size s"
proof -
  note a = heap_inv_al [OF inv]
  from inv have wf: "wf_config cfg" and ck: "chunks_ok cfg (mem s) C"
    and cv: "covered (mem s) C (mapped s)"
    and lv: "live_ok (mem s) C L (malloced_items s)"
    and rg: "ring_ok (mem s) C qs (quarantine s) (quarantine_size s)"
    and fr: "free_ok (mem s) C L qs (chunks s)"
    by (simp_all add: heap_inv_def)
  define nxt where "nxt = next_of (mem s) m"
  define prv where "prv = prev_of (mem s) m"
  define s1 where "s1 = unlink m s"
  from lv mL have mn: "nxt = 0 \<or> nxt \<in> L \<and> prev_of (mem s) nxt = m"
    and mp: "prv = 0 \<or> prv \<in> L \<and> next_of (mem s) prv = m"
    by (simp_all add: live_ok_def nxt_def prv_def)
  from lv have hd: "malloced_items s = 0 \<or> malloced_items s \<in> L \<and> prev_of (mem s) (malloced_items s) = 0"
    by (simp add: live_ok_def)
  from lv have lc: "\<forall>c\<in>L. chunk_state (mem s) c = CHUNK_ALLOCATED
          \<and> (next_of (mem s) c = 0 \<or> next_of (mem s) c \<in> L \<and> prev_of (mem s) (next_of (mem s) c) = c)
          \<and> (prev_of (mem s) c = 0 \<or> prev_of (mem s) c \<in> L \<and> next_of (mem s) (prev_of (mem s) c) = c)"
    by (simp add: live_ok_def)
  have m0: "m \<noteq> 0" using mL a(4,6) by auto
  have hp: "m = malloced_items s \<Longrightarrow> prv = 0" using hd m0 by (auto simp: prv_def)
  have aln: "nxt \<noteq> 0 \<Longrightarrow> al nxt" and alp: "prv \<noteq> 0 \<Longrightarrow> al prv"
    using mn mp a(2) by auto
  have s1_eq: "s1 = (if m = malloced_items s
        then (if nxt \<noteq> 0 then set_prev nxt 0 (s\<lparr>malloced_items := nxt\<rparr>)
              else s\<lparr>malloced_items := nxt\<rparr>)
        else (if nxt \<noteq> 0 then set_prev nxt prv (if prv \<noteq> 0 then set_next prv nxt s else s)
              else (if prv \<noteq> 0 then set_next prv nxt s else s)))"
    by (simp add: s1_def unlink_def Let_def nxt_def prv_def)
  have fs: "\<forall>c\<in>C. chunk_state (mem s1) c = chunk_state (mem s) c"
    using a(1) aln alp by (simp add: s1_eq)
  have fa: "\<forall>c\<in>C. allocated_size (mem s1) c = allocated_size (mem s) c"
    using a(1) aln alp by (simp add: s1_eq)
  have fn: "\<forall>c\<in>C. next_of (mem s1) c = (if c = prv \<and> prv \<noteq> 0 then nxt else next_of (mem s) c)"
    using a(1) aln alp hp by (auto simp: s1_eq)
  have fp: "\<forall>c\<in>C. prev_of (mem s1) c = (if c = nxt \<and> nxt \<noteq> 0 then prv else prev_of (mem s) c)"
    using a(1) aln alp hp by (auto simp: s1_eq)
  have gl: "malloced_items s1 = (if m = malloced_items s then nxt else malloced_items s)"
    "mapped s1 = mapped s" "chunks s1 = chunks s" "quarantine s1 = quarantine s"
    "quarantine_size s1 = quarantine_size s"
    by (simp_all add: s1_eq)
  have ck': "chunks_ok cfg (mem s1) C" using fa ck by (rule chunks_ok_cong)
  have cv': "covered (mem s1) C (mapped s1)" unfolding gl(2) using fa cv by (rule covered_cong)
  from rg have qst: "\<forall>c\<in>set qs. chunk_state (mem s) c = CHUNK_QUARANTINE"
    by (simp add: ring_ok_def)
  have Lq: "\<forall>c\<in>L. c \<notin> set qs" using lc qst by auto
  have rg': "ring_ok (mem s1) C qs (quarantine s1) (quarantine_size s1)"
    unfolding gl
  proof (rule ring_ok_cong [OF _ rg], intro ballI)
    fix c assume c: "c \<in> set qs"
    then have "c \<in> C" "c \<notin> L" using a(5) Lq by auto
    then show "chunk_state (mem s1) c = chunk_state (mem s) c \<and>
         allocated_size (mem s1) c = allocated_size (mem s) c \<and>
         next_of (mem s1) c = next_of (mem s) c \<and> prev_of (mem s1) c = prev_of (mem s) c"
      using fs fa fn fp mn mp by auto
  qed
  have fr': "free_ok (mem s1) C (L - {m}) qs (chunks s1)"
    unfolding free_ok_def gl
  proof (intro conjI allI ballI)
    fix i show "chunks s i = 0 \<or> chunks s i \<in> C" using fr by (simp add: free_ok_def)
  next
    fix c assume c: "c \<in> C"
    have "next_of (mem s1) c = nxt \<or> next_of (mem s1) c = next_of (mem s) c"
      using fn c by auto
    moreover have "nxt = 0 \<or> nxt \<in> C" using mn a(4) by auto
    moreover have "c \<in> L \<Longrightarrow> c \<noteq> m \<Longrightarrow> c \<in> L - {m}" by simp
    moreover have "c \<notin> L \<Longrightarrow> c \<notin> set qs \<Longrightarrow> next_of (mem s) c = 0 \<or> next_of (mem s) c \<in> C"
      using fr c by (auto simp: free_ok_def)
    moreover have "c \<notin> L \<Longrightarrow> next_of (mem s1) c = next_of (mem s) c"
      using fn c mp by auto
    moreover have "c = m \<Longrightarrow> next_of (mem s1) c = nxt"
      using fn c by (auto simp: nxt_def)
    ultimately show "c \<in> L - {m} \<or> c \<in> set qs \<or> next_of (mem s1) c = 0 \<or> next_of (mem s1) c \<in> C"
      by metis
  qed
  have lv': "live_ok (mem s1) C (L - {m}) (malloced_items s1)"
    unfolding live_ok_def
  proof (intro conjI ballI)
    show "L - {m} \<subseteq> C" using a(4) by auto
    show "malloced_items s1 = 0 \<or> malloced_items s1 \<in> L - {m} \<and> prev_of (mem s1) (malloced_items s1) = 0"
    proof (cases "m = malloced_items s")
      case True
      then have h1: "malloced_items s1 = nxt" by (simp add: gl)
      show ?thesis
      proof (cases "nxt = 0")
        case False
        with mn have n: "nxt \<in> L" "prev_of (mem s) nxt = m" by auto
        have "nxt \<noteq> m" using n(2) hp [OF True] m0 by (auto simp: prv_def)
        moreover have "prev_of (mem s1) nxt = 0" using fp n(1) a(4) False hp [OF True] by auto
        ultimately show ?thesis using h1 n(1) by simp
      qed (simp add: h1)
    next
      case False
      then have h1: "malloced_items s1 = malloced_items s" by (simp add: gl)
      show ?thesis
      proof (cases "malloced_items s = 0")
        case nz: False
        with hd have hL: "malloced_items s \<in> L" and hp0: "prev_of (mem s) (malloced_items s) = 0" by auto
        have "malloced_items s \<noteq> nxt \<or> nxt = 0" using mn hp0 m0 by auto
        then have "prev_of (mem s1) (malloced_items s) = 0" using fp hL a(4) hp0 by auto
        then show ?thesis using h1 hL False by auto
      qed (simp add: h1)
    qed
  next
    fix c assume "c \<in> L - {m}"
    then have c: "c \<in> L" "c \<noteq> m" "c \<in> C" "c \<noteq> 0" using a(4,6) by auto
    from lc c(1) have cn: "next_of (mem s) c = 0 \<or> next_of (mem s) c \<in> L \<and> prev_of (mem s) (next_of (mem s) c) = c"
      and cp: "prev_of (mem s) c = 0 \<or> prev_of (mem s) c \<in> L \<and> next_of (mem s) (prev_of (mem s) c) = c"
      and cs: "chunk_state (mem s) c = CHUNK_ALLOCATED" by auto
    show "chunk_state (mem s1) c = CHUNK_ALLOCATED" using fs c(3) cs by simp
    show "next_of (mem s1) c = 0 \<or> next_of (mem s1) c \<in> L - {m}
        \<and> prev_of (mem s1) (next_of (mem s1) c) = c"
    proof (cases "c = prv \<and> prv \<noteq> 0")
      case True
      then have e: "next_of (mem s1) c = nxt" using fn c(3) by simp
      show ?thesis
      proof (cases "nxt = 0")
        case False
        with mn have n: "nxt \<in> L" "prev_of (mem s) nxt = m" by auto
        have "nxt \<noteq> m" using n(2) True c(2) by (auto simp: prv_def)
        moreover have "prev_of (mem s1) nxt = prv" using fp n(1) a(4) False by auto
        ultimately show ?thesis using e n(1) True by simp
      qed (simp add: e)
    next
      case False
      then have e: "next_of (mem s1) c = next_of (mem s) c" using fn c(3) by auto
      show ?thesis
      proof (cases "next_of (mem s) c = 0")
        case nz: False
        with cn have n: "next_of (mem s) c \<in> L" "prev_of (mem s) (next_of (mem s) c) = c" by auto
        have n1: "next_of (mem s) c \<noteq> m" using n(2) False c(4) by (auto simp: prv_def)
        have "next_of (mem s) c \<noteq> nxt \<or> nxt = 0" using n(2) mn c(2) by auto
        then have "prev_of (mem s1) (next_of (mem s) c) = c" using fp n a(4) by auto
        then show ?thesis using e n(1) n1 by simp
      qed (simp add: e)
    qed
    show "prev_of (mem s1) c = 0 \<or> prev_of (mem s1) c \<in> L - {m}
        \<and> next_of (mem s1) (prev_of (mem s1) c) = c"
    proof (cases "c = nxt \<and> nxt \<noteq> 0")
      case True
      then have e: "prev_of (mem s1) c = prv" using fp c(3) by simp
      show ?thesis
      proof (cases "prv = 0")
        case False
        with mp have n: "prv \<in> L" "next_of (mem s) prv = m" by auto
        have "prv \<noteq> m" using n(2) True c(2) by (auto simp: nxt_def)
        moreover have "next_of (mem s1) prv = nxt" using fn n(1) a(4) False by auto
        ultimately show ?thesis using e n(1) True by simp
      qed (simp add: e)
    next
      case False
      then have e: "prev_of (mem s1) c = prev_of (mem s) c" using fp c(3) by auto
      show ?thesis
      proof (cases "prev_of (mem s) c = 0")
        case nz: False
        with cp have n: "prev_of (mem s) c \<in> L" "next_of (mem s) (prev_of (mem s) c) = c" by auto
        have n1: "prev_of (mem s) c \<noteq> m" using n(2) False c(4) by (auto simp: nxt_def)
        have "prev_of (mem s) c \<noteq> prv \<or> prv = 0" using n(2) mp c(2) by auto
        then have "next_of (mem s1) (prev_of (mem s) c) = c" using fn n a(4) by auto
        then show ?thesis using e n(1) n1 by simp
      qed (simp add: e)
    qed
  qed
  show "heap_inv cfg (unlink m s) C (L - {m}) qs"
    unfolding heap_inv_def s1_def [symmetric] using wf ck' cv' lv' rg' fr' by blast
  show "\<forall>c\<in>C. chunk_state (mem (unlink m s)) c = chunk_state (mem s) c"
    using fs by (simp add: s1_def)
  show "\<forall>c\<in>C. allocated_size (mem (unlink m s)) c = allocated_size (mem s) c"
    using fa by (simp add: s1_def)
  show "quarantine (unlink m s) = quarantine s" using gl by (simp add: s1_def)
  show "quarantine_size (unlink m s) = quarantine_size s" using gl by (simp add: s1_def)
qed

lemma enqueue_heap_inv:
  assumes inv: "heap_inv cfg s C L qs" and mC: "m \<in> C" and mL: "m \<notin> L"
    and mq: "m \<notin> set qs"
  shows "heap_inv cfg (enqueue m s) C L (m # qs)"
    and "\<forall>c\<in>C. chunk_state (mem (enqueue m s)) c
            = (if c = m then CHUNK_QUARANTINE else chunk_state (mem s) c)"
    and "\<forall>c\<in>C. allocated_size (mem (enqueue m s)) c = allocated_size (mem s) c"
    and "malloced_items (enqueue m s) = malloced_items s"
proof -
  note a = heap_inv_al [OF inv]
  from inv have wf: "wf_config cfg" and ck: "chunks_ok cfg (mem s) C"
    and cv: "covered (mem s) C (mapped s)"
    and lv: "live_ok (mem s) C L (malloced_items s)"
    and rg: "ring_ok (mem s) C qs (quarantine s) (quarantine_size s)"
    and fr: "free_ok (mem s) C L qs (chunks s)"
    by (simp_all add: heap_inv_def)
  from rg have qr: "quarantine_ring (mem s) (quarantine s) qs"
    and qst: "\<forall>c\<in>set qs. chunk_state (mem s) c = CHUNK_QUARANTINE"
    and cnt: "unat (quarantine_size s) = sum_list (map (\<lambda>c. unat (allocated_size (mem s) c)) qs)"
    by (simp_all add: ring_ok_def)
  from qr have di: "distinct qs" and z: "0 \<notin> set qs" and dc: "dchain (mem s) qs"
    by (simp_all add: quarantine_ring_def)
  define s5 where "s5 = enqueue m s"
  define first where "first = hd qs"
  define final where "final = last qs"
  have alm: "al m" using mC a(1) by auto
  have m0: "m \<noteq> 0" using mC a(6) by auto
  have e0: "quarantine s = 0 \<longleftrightarrow> qs = []"
  proof
    assume "quarantine s = 0"
    show "qs = []"
    proof (rule ccontr)
      assume n: "qs \<noteq> []"
      with qr have "quarantine s = hd qs" by (simp add: quarantine_ring_def)
      moreover have "hd qs \<in> set qs" using n by simp
      ultimately show False using z \<open>quarantine s = 0\<close> by auto
    qed
  qed (use qr in \<open>simp add: quarantine_ring_def\<close>)
  have ne: "qs \<noteq> [] \<Longrightarrow> quarantine s = first \<and> prev_of (mem s) first = final
      \<and> next_of (mem s) final = first \<and> first \<in> set qs \<and> final \<in> set qs \<and> first \<noteq> 0"
  proof -
    assume n: "qs \<noteq> []"
    then have "hd qs \<in> set qs" "last qs \<in> set qs" by simp_all
    moreover from this z have "hd qs \<noteq> 0" by auto
    ultimately show ?thesis using qr n by (simp add: quarantine_ring_def first_def final_def)
  qed
  have alf: "qs \<noteq> [] \<Longrightarrow> al first \<and> al final" using ne a(3) by auto
  have nm: "qs \<noteq> [] \<Longrightarrow> first \<noteq> m \<and> final \<noteq> m" using ne mq by auto
  have s5_eq: "s5 = set_chunk_state m CHUNK_QUARANTINE
        ((if qs = [] then set_next m m (set_prev m m s)
          else set_prev first m (set_next final m (set_prev m final (set_next m first s))))
         \<lparr>quarantine := m, quarantine_size := quarantine_size s + allocated_size (mem s) m\<rparr>)"
    using ne alf alm nm
    by (cases "qs = []") (simp_all add: s5_def enqueue_def Let_def e0)
  have fs: "\<forall>c\<in>C. chunk_state (mem s5) c
            = (if c = m then CHUNK_QUARANTINE else chunk_state (mem s) c)"
    using a(1) alm alf by (simp add: s5_eq)
  have fa: "\<forall>c\<in>C. allocated_size (mem s5) c = allocated_size (mem s) c"
    using a(1) alm alf by (simp add: s5_eq)
  have fn: "\<forall>c\<in>C. next_of (mem s5) c
       = (if qs \<noteq> [] \<and> c = final then m else if c = m then (if qs = [] then m else first)
          else next_of (mem s) c)"
    using a(1) alm alf nm by (auto simp: s5_eq)
  have fp: "\<forall>c\<in>C. prev_of (mem s5) c
       = (if qs \<noteq> [] \<and> c = first then m else if c = m then (if qs = [] then m else final)
          else prev_of (mem s) c)"
    using a(1) alm alf nm by (auto simp: s5_eq)
  have gl: "malloced_items s5 = malloced_items s" "mapped s5 = mapped s" "chunks s5 = chunks s"
    "quarantine s5 = m" "quarantine_size s5 = quarantine_size s + allocated_size (mem s) m"
    by (simp_all add: s5_eq)
  have ck': "chunks_ok cfg (mem s5) C" using fa ck by (rule chunks_ok_cong)
  have cv': "covered (mem s5) C (mapped s5)" unfolding gl(2) using fa cv by (rule covered_cong)
  from lv have lc: "\<forall>c\<in>L. chunk_state (mem s) c = CHUNK_ALLOCATED" by (simp add: live_ok_def)
  have Lq: "\<forall>c\<in>L. c \<notin> set qs" using lc qst by auto
  have lv': "live_ok (mem s5) C L (malloced_items s5)"
    unfolding gl(1)
  proof (rule live_ok_cong [OF _ lv], intro ballI)
    fix c assume c: "c \<in> L"
    then have "c \<in> C" "c \<notin> set qs" "c \<noteq> m" using a(4) Lq mL by auto
    then show "chunk_state (mem s5) c = chunk_state (mem s) c
        \<and> next_of (mem s5) c = next_of (mem s) c \<and> prev_of (mem s5) c = prev_of (mem s) c"
      using fs fn fp ne by auto
  qed
  have "dchain (mem s5) qs = dchain (mem s) qs"
  proof (rule dchain_frame)
    show "\<forall>x\<in>set (butlast qs). next_of (mem s5) x = next_of (mem s) x"
    proof
      fix x assume x: "x \<in> set (butlast qs)"
      then have xq: "x \<in> set qs" by (rule in_set_butlastD)
      then have ne': "qs \<noteq> []" by auto
      have "qs = butlast qs @ [final]" using ne' by (simp add: final_def)
      then have "x \<noteq> final" using di x
        by (metis distinct_append distinct.simps(2) disjoint_iff list.set_intros(1))
      moreover have "x \<noteq> m" using xq mq by auto
      ultimately show "next_of (mem s5) x = next_of (mem s) x" using fn xq a(5) by auto
    qed
    show "\<forall>x\<in>set (tl qs). prev_of (mem s5) x = prev_of (mem s) x"
    proof
      fix x assume x: "x \<in> set (tl qs)"
      then have xq: "x \<in> set qs" by (rule in_set_tlD)
      then have ne': "qs \<noteq> []" by auto
      have "x \<noteq> first" using di x ne' unfolding first_def
        by (metis distinct.simps(2) list.collapse)
      moreover have "x \<noteq> m" using xq mq by auto
      ultimately show "prev_of (mem s5) x = prev_of (mem s) x" using fp xq a(5) by auto
    qed
  qed
  with dc have dc': "dchain (mem s5) qs" by simp
  have qr': "quarantine_ring (mem s5) (quarantine s5) (m # qs)"
  proof (cases "qs = []")
    case True
    then show ?thesis using fn fp mC m0 gl(4) by (simp add: quarantine_ring_def)
  next
    case False
    note n = ne [OF False]
    have fC: "first \<in> C" "final \<in> C" using n a(5) by auto
    have "next_of (mem s5) m = hd qs" using fn mC False nm by (auto simp: first_def)
    moreover have "prev_of (mem s5) (hd qs) = m" using fp fC False by (simp add: first_def)
    moreover have "next_of (mem s5) (last qs) = m" using fn fC False by (simp add: final_def)
    moreover have "prev_of (mem s5) m = last qs" using fp mC False nm by (auto simp: final_def)
    ultimately show ?thesis using dc' di z mq m0 gl(4) False
      by (simp add: quarantine_ring_def dchain_Cons)
  qed
  have cnt': "unat (quarantine_size s5)
      = sum_list (map (\<lambda>c. unat (allocated_size (mem s5) c)) (m # qs))"
  proof -
    have e: "sum_list (map (\<lambda>c. unat (allocated_size (mem s5) c)) (m # qs))
        = sum_list (map (\<lambda>c. unat (allocated_size (mem s) c)) (m # qs))"
      by (rule arg_cong [where f = sum_list], rule map_cong) (use fa mC a(5) in auto)
    have "sum_list (map (\<lambda>c. unat (allocated_size (mem s) c)) (m # qs)) < 2 ^ 64"
      by (rule sum_allocated_size_bound [OF ck]) (use di mq mC a(5) in auto)
    then have "unat (quarantine_size s) + unat (allocated_size (mem s) m) < 2 ^ LENGTH(64)"
      using cnt by simp
    then have "unat (quarantine_size s + allocated_size (mem s) m)
        = unat (quarantine_size s) + unat (allocated_size (mem s) m)"
      by (simp only: unat_add_lem)
    then show ?thesis unfolding e gl(5) using cnt by simp
  qed
  have rg': "ring_ok (mem s5) C (m # qs) (quarantine s5) (quarantine_size s5)"
    unfolding ring_ok_def
  proof (intro conjI ballI)
    show "set (m # qs) \<subseteq> C" using mC a(5) by auto
    show "quarantine_ring (mem s5) (quarantine s5) (m # qs)" by (rule qr')
    show "unat (quarantine_size s5)
      = sum_list (map (\<lambda>c. unat (allocated_size (mem s5) c)) (m # qs))" by (rule cnt')
  next
    fix c assume c: "c \<in> set (m # qs)"
    then have "c \<in> C" using mC a(5) by auto
    then show "chunk_state (mem s5) c = CHUNK_QUARANTINE" using fs qst c by auto
  qed
  have fr': "free_ok (mem s5) C L (m # qs) (chunks s5)"
    unfolding free_ok_def gl(3)
  proof (intro conjI allI ballI)
    fix i show "chunks s i = 0 \<or> chunks s i \<in> C" using fr by (simp add: free_ok_def)
  next
    fix c assume c: "c \<in> C"
    show "c \<in> L \<or> c \<in> set (m # qs) \<or> next_of (mem s5) c = 0 \<or> next_of (mem s5) c \<in> C"
    proof (cases "c = m \<or> c \<in> set qs")
      case False
      then have "next_of (mem s5) c = next_of (mem s) c" using fn c ne by auto
      then show ?thesis using fr c False by (auto simp: free_ok_def)
    qed auto
  qed
  show "heap_inv cfg (enqueue m s) C L (m # qs)"
    unfolding heap_inv_def s5_def [symmetric] using wf ck' cv' lv' rg' fr' by blast
  show "\<forall>c\<in>C. chunk_state (mem (enqueue m s)) c
            = (if c = m then CHUNK_QUARANTINE else chunk_state (mem s) c)"
    using fs by (simp add: s5_def)
  show "\<forall>c\<in>C. allocated_size (mem (enqueue m s)) c = allocated_size (mem s) c"
    using fa by (simp add: s5_def)
  show "malloced_items (enqueue m s) = malloced_items s" using gl by (simp add: s5_def)
qed

lemma on_list_live:
  assumes "on_list h x m" and "live_ok h C L first" and "x = 0 \<or> x \<in> L"
  shows "m \<in> L"
  using assms
proof (induction rule: on_list.induct)
  case (here x)
  then show ?case by simp
next
  case (there x m)
  then have "x \<in> L" by simp
  with there.prems(1) have "next_of h x = 0 \<or> next_of h x \<in> L" by (auto simp: live_ok_def)
  with there show ?case by simp
qed

lemma valid_ptr_live:
  assumes "heap_inv cfg s C L qs" and "valid_ptr cfg s p"
  shows "PtrToChunk cfg (mem s) p \<in> L"
proof -
  from assms(1) have lv: "live_ok (mem s) C L (malloced_items s)" by (simp add: heap_inv_def)
  then have "malloced_items s = 0 \<or> malloced_items s \<in> L" by (auto simp: live_ok_def)
  with assms(2) lv show ?thesis by (auto simp: valid_ptr_def intro: on_list_live)
qed

lemma heap_inv_state_cong:
  assumes "mem s' = mem s" "mapped s' = mapped s" "malloced_items s' = malloced_items s"
    "quarantine s' = quarantine s" "quarantine_size s' = quarantine_size s" "chunks s' = chunks s"
  shows "heap_inv cfg s' C L qs = heap_inv cfg s C L qs"
  by (simp add: heap_inv_def assms)

lemma TakeChunkBack_heap_inv:
  assumes inv: "heap_inv cfg s C L qs" and mL: "m \<in> L" and t: "TakeChunkBack cfg m s = Inr s'"
  shows "\<exists>n. heap_inv cfg s' C (L - {m}) (take n (m # qs))
      \<and> quarantine_size s' \<le> flag_quarantine_size cfg
      \<and> (\<forall>c\<in>C. allocated_size (mem s') c = allocated_size (mem s) c)
      \<and> (\<forall>c\<in>C. chunk_state (mem s') c
            = (if c \<in> set (drop n (m # qs)) then CHUNK_AVAILABLE
               else if c = m then CHUNK_QUARANTINE else chunk_state (mem s) c))"
proof -
  note a = heap_inv_al [OF inv]
  from t have l: "TakeChunkBack_loop cfg (enqueue m (unlink m s)) = Inr s'"
    by (simp add: TakeChunkBack_steps CHECK_Inr_iff)
  note u = unlink_heap_inv [OF inv mL]
  have mC: "m \<in> C" using mL a(4) by auto
  from inv have "live_ok (mem s) C L (malloced_items s)"
    and "ring_ok (mem s) C qs (quarantine s) (quarantine_size s)"
    by (simp_all add: heap_inv_def)
  then have "chunk_state (mem s) m = CHUNK_ALLOCATED"
    and "\<forall>c\<in>set qs. chunk_state (mem s) c = CHUNK_QUARANTINE"
    using mL by (simp_all add: live_ok_def ring_ok_def)
  then have mq: "m \<notin> set qs" by auto
  note e = enqueue_heap_inv [OF u(1) mC _ mq, simplified]
  from TakeChunkBack_loop_heap_inv [OF e(1) l] obtain n where
    n: "heap_inv cfg s' C (L - {m}) (take n (m # qs))"
      "quarantine_size s' \<le> flag_quarantine_size cfg"
      "\<forall>c\<in>C. allocated_size (mem s') c = allocated_size (mem (enqueue m (unlink m s))) c"
      "\<forall>c\<in>C. chunk_state (mem s') c
            = (if c \<in> set (drop n (m # qs)) then CHUNK_AVAILABLE
               else chunk_state (mem (enqueue m (unlink m s))) c)"
    by blast
  have "\<forall>c\<in>C. allocated_size (mem s') c = allocated_size (mem s) c"
    using n(3) e(3) u(3) by simp
  moreover have "\<forall>c\<in>C. chunk_state (mem s') c
            = (if c \<in> set (drop n (m # qs)) then CHUNK_AVAILABLE
               else if c = m then CHUNK_QUARANTINE else chunk_state (mem s) c)"
    using n(4) e(2) u(2) by simp
  ultimately show ?thesis using n(1,2) by blast
qed

lemma Deallocate_heap_inv:
  assumes inv: "heap_inv cfg s C L qs" and mL: "PtrToChunk cfg (mem s) p \<in> L"
    and p0: "p \<noteq> 0" and d: "Deallocate cfg p s = Inr s'"
  shows "\<exists>n. heap_inv cfg s' C (L - {PtrToChunk cfg (mem s) p})
               (take n (PtrToChunk cfg (mem s) p # qs))
      \<and> quarantine_size s' \<le> flag_quarantine_size cfg
      \<and> (\<forall>c\<in>C. allocated_size (mem s') c = allocated_size (mem s) c)
      \<and> (\<forall>c\<in>C. chunk_state (mem s') c
            = (if c \<in> set (drop n (PtrToChunk cfg (mem s) p # qs)) then CHUNK_AVAILABLE
               else if c = PtrToChunk cfg (mem s) p then CHUNK_QUARANTINE
               else chunk_state (mem s) c))"
proof -
  define m where "m = PtrToChunk cfg (mem s) p"
  from d p0 obtain s1 where
    po: "PoisonShadow cfg p (RoundUptoRedzone cfg (used_size (mem s) m)) (- 1) s = Inr s1"
    and t: "TakeChunkBack cfg m s1 = Inr s'"
    by (auto simp: Deallocate_def MallocInfo_Deallocate_def CHECK_Inr_iff bind_r_Inr_iff
          Let_def m_def)
  note e = PoisonShadow_Inr [OF po]
  have "heap_inv cfg s1 C L qs"
    using inv heap_inv_state_cong [of s1 s cfg C L qs] e by simp
  from TakeChunkBack_heap_inv [OF this _ t] mL have "\<exists>n. heap_inv cfg s' C (L - {m}) (take n (m # qs))
      \<and> quarantine_size s' \<le> flag_quarantine_size cfg
      \<and> (\<forall>c\<in>C. allocated_size (mem s') c = allocated_size (mem s1) c)
      \<and> (\<forall>c\<in>C. chunk_state (mem s') c
            = (if c \<in> set (drop n (m # qs)) then CHUNK_AVAILABLE
               else if c = m then CHUNK_QUARANTINE else chunk_state (mem s1) c))"
    by (simp add: m_def)
  then show ?thesis unfolding m_def [symmetric] e [THEN conjunct1] .
qed

subsection \<open>Drawing a chunk from a free list\<close>

lemma AllocateChunk_steps:
  "AllocateChunk cfg os sz s =
     CHECK (IsPowerOfTwo sz)
       (bind_r (Log2 sz) (\<lambda>idx.
        bind_r (if chunks s idx = 0 then GetNewChunks cfg os sz s else Inr s) (\<lambda>s1.
        CHECK (chunks s1 idx \<noteq> 0)
          (CHECK (chunk_state (mem (set_next (chunks s1 idx) 0 (set_prev (chunks s1 idx) 0 s1)))
                    (chunks s1 idx) = CHUNK_AVAILABLE)
             (Inr (chunks s1 idx, draw idx s1))))))"
  by (simp add: AllocateChunk_def draw_def Let_def field_defs)

lemma heap_inv_frame:
  assumes inv: "heap_inv cfg s C L qs"
    and f: "\<forall>c\<in>C. chunk_state (mem s') c = chunk_state (mem s) c
              \<and> allocated_size (mem s') c = allocated_size (mem s) c
              \<and> next_of (mem s') c = next_of (mem s) c
              \<and> prev_of (mem s') c = prev_of (mem s) c"
    and g: "set (mapped s) \<subseteq> set (mapped s')" "malloced_items s' = malloced_items s"
      "quarantine s' = quarantine s" "quarantine_size s' = quarantine_size s"
      "chunks s' = chunks s"
  shows "heap_inv cfg s' C L qs"
proof -
  note a = heap_inv_al [OF inv]
  from inv have wf: "wf_config cfg" and ck: "chunks_ok cfg (mem s) C"
    and cv: "covered (mem s) C (mapped s)"
    and lv: "live_ok (mem s) C L (malloced_items s)"
    and rg: "ring_ok (mem s) C qs (quarantine s) (quarantine_size s)"
    and fr: "free_ok (mem s) C L qs (chunks s)"
    by (simp_all add: heap_inv_def)
  have fa: "\<forall>c\<in>C. allocated_size (mem s') c = allocated_size (mem s) c" using f by simp
  have ck': "chunks_ok cfg (mem s') C" using fa ck by (rule chunks_ok_cong)
  have "covered (mem s') C (mapped s)" using fa cv by (rule covered_cong)
  then have cv': "covered (mem s') C (mapped s')" using g(1) unfolding covered_def by blast
  have lv': "live_ok (mem s') C L (malloced_items s')"
    unfolding g by (rule live_ok_cong [OF _ lv]) (use f a(4) in auto)
  have rg': "ring_ok (mem s') C qs (quarantine s') (quarantine_size s')"
    unfolding g by (rule ring_ok_cong [OF _ rg]) (use f a(5) in auto)
  have fr': "free_ok (mem s') C L qs (chunks s')"
    unfolding g by (rule free_ok_cong [OF _ fr]) (use f in auto)
  show ?thesis unfolding heap_inv_def using wf ck' cv' lv' rg' fr' by blast
qed

lemma draw_heap_inv:
  assumes inv: "heap_inv cfg s C L qs" and m0: "chunks s idx \<noteq> 0"
    and av: "chunk_state (mem s) (chunks s idx) = CHUNK_AVAILABLE"
  shows "heap_inv cfg (draw idx s) C (insert (chunks s idx) L) qs"
    and "chunks s idx \<in> C" and "chunks s idx \<notin> L"
    and "\<forall>c\<in>C. chunk_state (mem (draw idx s)) c
           = (if c = chunks s idx then CHUNK_ALLOCATED else chunk_state (mem s) c)"
    and "\<forall>c\<in>C. allocated_size (mem (draw idx s)) c = allocated_size (mem s) c"
    and "malloced_items (draw idx s) = chunks s idx"
    and "quarantine_size (draw idx s) = quarantine_size s"
    and "mapped (draw idx s) = mapped s"
proof -
  note a = heap_inv_al [OF inv]
  from inv have wf: "wf_config cfg" and ck: "chunks_ok cfg (mem s) C"
    and cv: "covered (mem s) C (mapped s)"
    and lv: "live_ok (mem s) C L (malloced_items s)"
    and rg: "ring_ok (mem s) C qs (quarantine s) (quarantine_size s)"
    and fr: "free_ok (mem s) C L qs (chunks s)"
    by (simp_all add: heap_inv_def)
  define m where "m = chunks s idx"
  define first where "first = malloced_items s"
  define s6 where "s6 = draw idx s"
  have mC: "m \<in> C" using fr m0 by (auto simp: free_ok_def m_def)
  have alm: "al m" using mC a(1) by auto
  from lv have lc: "\<forall>c\<in>L. chunk_state (mem s) c = CHUNK_ALLOCATED
          \<and> (next_of (mem s) c = 0 \<or> next_of (mem s) c \<in> L \<and> prev_of (mem s) (next_of (mem s) c) = c)
          \<and> (prev_of (mem s) c = 0 \<or> prev_of (mem s) c \<in> L \<and> next_of (mem s) (prev_of (mem s) c) = c)"
    and hd: "first = 0 \<or> first \<in> L \<and> prev_of (mem s) first = 0"
    by (simp_all add: live_ok_def first_def)
  from rg have qst: "\<forall>c\<in>set qs. chunk_state (mem s) c = CHUNK_QUARANTINE"
    by (simp add: ring_ok_def)
  have mL: "m \<notin> L" using lc av by (auto simp: m_def)
  have mq: "m \<notin> set qs" using qst av by (auto simp: m_def)
  have alf: "first \<noteq> 0 \<Longrightarrow> al first" using hd a(2) by auto
  have fm: "first \<noteq> m" using hd mL m0 by (auto simp: m_def)
  have s6_eq: "s6 = (set_next m first
       (if first \<noteq> 0
        then set_prev first m (set_chunk_state m CHUNK_ALLOCATED (set_next m 0 (set_prev m 0
               (s\<lparr>chunks := (chunks s)(idx := next_of (mem s) m)\<rparr>))))
        else set_chunk_state m CHUNK_ALLOCATED (set_next m 0 (set_prev m 0
               (s\<lparr>chunks := (chunks s)(idx := next_of (mem s) m)\<rparr>)))))
       \<lparr>malloced_items := m\<rparr>"
    by (simp add: s6_def draw_def Let_def m_def first_def)
  have fs: "\<forall>c\<in>C. chunk_state (mem s6) c
           = (if c = m then CHUNK_ALLOCATED else chunk_state (mem s) c)"
    using a(1) alm alf by (simp add: s6_eq)
  have fa: "\<forall>c\<in>C. allocated_size (mem s6) c = allocated_size (mem s) c"
    using a(1) alm alf by (simp add: s6_eq)
  have fn: "\<forall>c\<in>C. next_of (mem s6) c = (if c = m then first else next_of (mem s) c)"
    using a(1) alm alf by (simp add: s6_eq)
  have fp: "\<forall>c\<in>C. prev_of (mem s6) c
       = (if c = first \<and> first \<noteq> 0 then m else if c = m then 0 else prev_of (mem s) c)"
    using a(1) alm alf fm by (auto simp: s6_eq)
  have gl: "malloced_items s6 = m" "mapped s6 = mapped s"
    "chunks s6 = (chunks s)(idx := next_of (mem s) m)"
    "quarantine s6 = quarantine s" "quarantine_size s6 = quarantine_size s"
    by (simp_all add: s6_eq)
  have ck': "chunks_ok cfg (mem s6) C" using fa ck by (rule chunks_ok_cong)
  have cv': "covered (mem s6) C (mapped s6)" unfolding gl(2) using fa cv by (rule covered_cong)
  have Lq: "\<forall>c\<in>L. c \<notin> set qs" using lc qst by auto
  have rg': "ring_ok (mem s6) C qs (quarantine s6) (quarantine_size s6)"
    unfolding gl
  proof (rule ring_ok_cong [OF _ rg], intro ballI)
    fix c assume c: "c \<in> set qs"
    then have "c \<in> C" "c \<notin> L" "c \<noteq> m" using a(5) Lq mq by auto
    then show "chunk_state (mem s6) c = chunk_state (mem s) c \<and>
         allocated_size (mem s6) c = allocated_size (mem s) c \<and>
         next_of (mem s6) c = next_of (mem s) c \<and> prev_of (mem s6) c = prev_of (mem s) c"
      using fs fa fn fp hd by auto
  qed
  have nm: "next_of (mem s) m = 0 \<or> next_of (mem s) m \<in> C"
    using fr mC mL mq by (auto simp: free_ok_def)
  have fr': "free_ok (mem s6) C (insert m L) qs (chunks s6)"
    unfolding free_ok_def gl
  proof (intro conjI allI ballI)
    fix i show "((chunks s)(idx := next_of (mem s) m)) i = 0
        \<or> ((chunks s)(idx := next_of (mem s) m)) i \<in> C"
      using fr nm by (auto simp: free_ok_def)
  next
    fix c assume c: "c \<in> C"
    show "c \<in> insert m L \<or> c \<in> set qs \<or> next_of (mem s6) c = 0 \<or> next_of (mem s6) c \<in> C"
    proof (cases "c = m")
      case False
      then have "next_of (mem s6) c = next_of (mem s) c" using fn c by simp
      then show ?thesis using fr c by (auto simp: free_ok_def)
    qed simp
  qed
  have lv': "live_ok (mem s6) C (insert m L) (malloced_items s6)"
    unfolding live_ok_def gl(1)
  proof (intro conjI ballI)
    show "insert m L \<subseteq> C" using a(4) mC by auto
    show "m = 0 \<or> m \<in> insert m L \<and> prev_of (mem s6) m = 0" using fp mC fm by simp
  next
    fix c assume cL: "c \<in> insert m L"
    then have cC: "c \<in> C" using a(4) mC by auto
    show "chunk_state (mem s6) c = CHUNK_ALLOCATED" using fs cC cL lc by auto
    show "next_of (mem s6) c = 0 \<or> next_of (mem s6) c \<in> insert m L
        \<and> prev_of (mem s6) (next_of (mem s6) c) = c"
    proof (cases "c = m")
      case True
      then have e: "next_of (mem s6) c = first" using fn mC by simp
      show ?thesis
      proof (cases "first = 0")
        case False
        with hd have "first \<in> L" by simp
        moreover from this have "prev_of (mem s6) first = m" using fp a(4) False by auto
        ultimately show ?thesis using e True by simp
      qed (simp add: e)
    next
      case False
      with cL have c: "c \<in> L" "c \<noteq> 0" using a(4,6) by auto
      have e: "next_of (mem s6) c = next_of (mem s) c" using fn cC False by simp
      show ?thesis
      proof (cases "next_of (mem s) c = 0")
        case nz: False
        with lc c(1) have n: "next_of (mem s) c \<in> L" "prev_of (mem s) (next_of (mem s) c) = c" by auto
        have "next_of (mem s) c \<noteq> m" using n(1) mL by auto
        moreover have "next_of (mem s) c \<noteq> first \<or> first = 0" using n(2) hd c(2) by auto
        ultimately have "prev_of (mem s6) (next_of (mem s) c) = c" using fp n a(4) by auto
        then show ?thesis using e n(1) by simp
      qed (simp add: e)
    qed
    show "prev_of (mem s6) c = 0 \<or> prev_of (mem s6) c \<in> insert m L
        \<and> next_of (mem s6) (prev_of (mem s6) c) = c"
    proof (cases "c = m")
      case True
      then show ?thesis using fp mC fm by simp
    next
      case False
      with cL have c: "c \<in> L" "c \<noteq> 0" using a(4,6) by auto
      show ?thesis
      proof (cases "c = first \<and> first \<noteq> 0")
        case True
        then have "prev_of (mem s6) c = m" using fp cC by simp
        moreover have "next_of (mem s6) m = first" using fn mC by simp
        ultimately show ?thesis using True by simp
      next
        case nf: False
        then have e: "prev_of (mem s6) c = prev_of (mem s) c" using fp cC False by auto
        show ?thesis
        proof (cases "prev_of (mem s) c = 0")
          case nz: False
          with lc c(1) have n: "prev_of (mem s) c \<in> L" "next_of (mem s) (prev_of (mem s) c) = c" by auto
          have "prev_of (mem s) c \<noteq> m" using n(1) mL by auto
          then have "next_of (mem s6) (prev_of (mem s) c) = c" using fn n a(4) by auto
          then show ?thesis using e n(1) by simp
        qed (simp add: e)
      qed
    qed
  qed
  show "heap_inv cfg (draw idx s) C (insert (chunks s idx) L) qs"
    unfolding heap_inv_def s6_def [symmetric] m_def [symmetric]
    using wf ck' cv' lv' rg' fr' by blast
  show "chunks s idx \<in> C" using mC by (simp add: m_def)
  show "chunks s idx \<notin> L" using mL by (simp add: m_def)
  show "\<forall>c\<in>C. chunk_state (mem (draw idx s)) c
           = (if c = chunks s idx then CHUNK_ALLOCATED else chunk_state (mem s) c)"
    using fs by (simp add: s6_def m_def)
  show "\<forall>c\<in>C. allocated_size (mem (draw idx s)) c = allocated_size (mem s) c"
    using fa by (simp add: s6_def)
  show "malloced_items (draw idx s) = chunks s idx" using gl by (simp add: s6_def m_def)
  show "quarantine_size (draw idx s) = quarantine_size s" using gl by (simp add: s6_def)
  show "mapped (draw idx s) = mapped s" using gl by (simp add: s6_def)
qed

subsection \<open>New pages and new chunks\<close>

lemma in_region_iff:
  assumes "unat b + unat n \<le> 2 ^ 64"
  shows "a - b < n \<longleftrightarrow> unat a \<in> region b n"
proof -
  have "unat a < 2 ^ LENGTH(64)" by (rule unsigned_less)
  then have "unat a < 18446744073709551616" by simp
  with assms show ?thesis
    by (auto simp: word_less_nat_alt unat_sub_if' region_def)
qed

lemma hdr_in_region:
  assumes "al c" and "unat x < 64" and "64 \<le> unat n"
  shows "unat (c + x) \<in> region c n"
  using assms unat_al_add [OF assms(1,2)] by (simp add: region_def)

lemma wf_config_unat:
  assumes "wf_config cfg"
  obtains e j where "7 \<le> e" "e \<le> j" "j \<le> 50"
    "unat (kRedzone cfg) = 2 ^ (e - 1)" "unat (kMinAllocSize cfg) = 2 ^ e"
    "unat (kPageSize cfg) = 2 ^ j" "kRedzone cfg = 2 ^ (e - 1)"
proof -
  from assms obtain e j where e: "7 \<le> e" "e \<le> j" "j \<le> 50"
    "kRedzone cfg = 2 ^ (e - 1)" "kMinAllocSize cfg = 2 ^ e" "kPageSize cfg = 2 ^ j"
    by (rule wf_config_exp)
  have "unat (kRedzone cfg) = 2 ^ (e - 1)" unfolding e(4) by (rule unat_exp) (use e in simp)
  moreover have "unat (kMinAllocSize cfg) = 2 ^ e" unfolding e(5) by (rule unat_exp) (use e in simp)
  moreover have "unat (kPageSize cfg) = 2 ^ j" unfolding e(6) by (rule unat_exp) (use e in simp)
  ultimately show ?thesis using e by (intro that [of e j]) simp_all
qed

lemma wf_min_alloc_64:
  assumes "wf_config cfg" and "kMinAllocSize cfg \<le> v"
  shows "128 \<le> unat v"
proof -
  from assms(1) obtain e j where e: "7 \<le> e" "unat (kMinAllocSize cfg) = 2 ^ e"
    by (rule wf_config_unat)
  have "(2::nat) ^ 7 \<le> 2 ^ e" by (rule power_increasing) (use e in simp_all)
  with assms(2) e(2) show ?thesis by (simp add: word_le_nat_alt)
qed

lemma chunk_hdr_in_region:
  assumes "heap_inv cfg s C L qs" and "c \<in> C" and "unat x < 64"
  shows "unat (c + x) \<in> region c (allocated_size (mem s) c)"
proof -
  from assms(1) have wf: "wf_config cfg" and ck: "chunks_ok cfg (mem s) C"
    by (simp_all add: heap_inv_def)
  from ck assms(2) have "kMinAllocSize cfg \<le> allocated_size (mem s) c"
    by (simp add: chunks_ok_def)
  then have "64 \<le> unat (allocated_size (mem s) c)" using wf_min_alloc_64 [OF wf] by fastforce
  moreover have "al c" using heap_inv_al(1) [OF assms(1)] assms(2) by auto
  ultimately show ?thesis using assms(3) by (intro hdr_in_region)
qed

text \<open>After \<^verbatim>\<open>mmap\<close>: the new pages are not part of any chunk.\<close>

lemma MmapNewPages_Inr:
  assumes "MmapNewPages cfg os n s = Inr (base, s0)"
  shows "base = os n" and "os n \<noteq> - 1" and "mem s0 = memset (mem s) base 0 n"
    and "mapped s0 = (base, n) # mapped s" and "malloced_items s0 = malloced_items s"
    and "chunks s0 = chunks s" and "quarantine s0 = quarantine s"
    and "quarantine_size s0 = quarantine_size s"
  using assms
  by (auto simp: MmapNewPages_def CHECK_Inr_iff bind_r_Inr_iff Let_def PoisonShadow_def
      split: if_splits)

lemma MmapNewPages_heap_inv:
  assumes inv: "heap_inv cfg s C L qs" and ok: "os_ok cfg s os"
    and mm: "MmapNewPages cfg os n s = Inr (base, s0)"
  shows "heap_inv cfg s0 C L qs"
    and "\<forall>c\<in>C. region base n \<inter> region c (allocated_size (mem s0) c) = {}"
    and "base \<noteq> 0" and "unat (kPageSize cfg) dvd unat base" and "unat base + unat n \<le> 2 ^ 64"
    and "\<forall>a. unat a \<notin> region base n \<longrightarrow> mem s0 a = mem s a"
    and "\<forall>c\<in>C. allocated_size (mem s0) c = allocated_size (mem s) c"
proof -
  note m = MmapNewPages_Inr [OF mm]
  from ok m(1,2) have b: "base \<noteq> 0" "unat (kPageSize cfg) dvd unat base"
    "unat base + unat n \<le> 2 ^ 64"
    and dj: "\<forall>(b, l)\<in>set (mapped s). region base n \<inter> region b l = {}"
    unfolding os_ok_def by metis+
  from inv have cv: "covered (mem s) C (mapped s)" by (simp add: heap_inv_def)
  have out: "region base n \<inter> region c (allocated_size (mem s) c) = {}" if "c \<in> C" for c
  proof -
    from cv that obtain b0 l0 where "(b0, l0) \<in> set (mapped s)"
      "region c (allocated_size (mem s) c) \<subseteq> region b0 l0"
      unfolding covered_def by blast
    with dj show ?thesis by blast
  qed
  have fr: "mem s0 a = mem s a" if "unat a \<notin> region base n" for a
    using that by (simp add: m(3) memset_def in_region_iff [OF b(3)])
  have keep: "mem s0 (c + x) = mem s (c + x)" if "c \<in> C" "unat x < 64" for c x
  proof -
    have "unat (c + x) \<in> region c (allocated_size (mem s) c)"
      using inv that by (rule chunk_hdr_in_region)
    with out [OF that(1)] have "unat (c + x) \<notin> region base n" by blast
    then show ?thesis by (rule fr)
  qed
  have f: "\<forall>c\<in>C. chunk_state (mem s0) c = chunk_state (mem s) c
              \<and> allocated_size (mem s0) c = allocated_size (mem s) c
              \<and> next_of (mem s0) c = next_of (mem s) c
              \<and> prev_of (mem s0) c = prev_of (mem s) c"
    using keep [of _ 0] keep [of _ 8] keep [of _ 24] keep [of _ 32]
    by (simp add: field_defs)
  show "heap_inv cfg s0 C L qs"
    by (rule heap_inv_frame [OF inv f]) (simp_all add: m subset_insertI2)
  show "\<forall>c\<in>C. region base n \<inter> region c (allocated_size (mem s0) c) = {}"
    using out f by simp
  show "base \<noteq> 0" "unat (kPageSize cfg) dvd unat base" "unat base + unat n \<le> 2 ^ 64"
    by (rule b)+
  show "\<forall>a. unat a \<notin> region base n \<longrightarrow> mem s0 a = mem s a" using fr by blast
  show "\<forall>c\<in>C. allocated_size (mem s0) c = allocated_size (mem s) c" using f by simp
qed

lemma payload_not_hdr:
  assumes wf: "wf_config cfg" and ck: "chunks_ok cfg h C" and m: "m \<in> C"
    and a: "a \<in> payload h m"
  shows "a \<notin> hdr C"
proof
  assume "a \<in> hdr C"
  then obtain c x where c: "c \<in> C" and x: "unat x < 40" "a = c + x"
    by (auto simp: hdr_def) (force intro: exI [of _ 0])+
  from ck c have ac: "aligned cfg c" "kMinAllocSize cfg \<le> allocated_size h c"
    by (simp_all add: chunks_ok_def)
  have alc: "al c" using wf ac(1) by (rule aligned_al)
  from x(1) have x64: "unat x < 64" by simp
  have u: "unat a = unat c + unat x" unfolding x(2) using alc x64 by (rule unat_al_add)
  have big: "128 \<le> unat (allocated_size h c)" using wf ac(2) by (rule wf_min_alloc_64)
  have ar: "unat a \<in> region c (allocated_size h c)" using u x(1) big by (simp add: region_def)
  have am: "unat a \<in> region m (allocated_size h m)" using a by (simp add: payload_def region_def)
  show False
  proof (cases "c = m")
    case True
    with u x(1) a show False by (simp add: payload_def)
  next
    case False
    with ck c m have "region c (allocated_size h c) \<inter> region m (allocated_size h m) = {}"
      unfolding chunks_ok_def by blast
    with ar am show False by blast
  qed
qed

lemma payload_disjoint:
  assumes "chunks_ok cfg h C" and "m \<in> C" and "c \<in> C" and "c \<noteq> m"
    and "a \<in> payload h m"
  shows "a \<notin> payload h c"
proof
  assume "a \<in> payload h c"
  then have "unat a \<in> region c (allocated_size h c)" by (simp add: payload_def region_def)
  moreover have "unat a \<in> region m (allocated_size h m)"
    using assms(5) by (simp add: payload_def region_def)
  moreover from assms(1-4) have "region c (allocated_size h c) \<inter> region m (allocated_size h m) = {}"
    unfolding chunks_ok_def by blast
  ultimately show False by blast
qed

lemma get_set_allocated_size [simp]:
  "allocated_size (mem (set_allocated_size m v s)) c = (if c = m then v else allocated_size (mem s) c)"
  "al c \<Longrightarrow> al m \<Longrightarrow> chunk_state (mem (set_allocated_size m v s)) c = chunk_state (mem s) c"
  "al c \<Longrightarrow> al m \<Longrightarrow> next_of (mem (set_allocated_size m v s)) c = next_of (mem s) c"
  "al c \<Longrightarrow> al m \<Longrightarrow> prev_of (mem (set_allocated_size m v s)) c = prev_of (mem s) c"
  "chunks (set_allocated_size m v s) = chunks s" "quarantine (set_allocated_size m v s) = quarantine s"
  "quarantine_size (set_allocated_size m v s) = quarantine_size s"
  "malloced_items (set_allocated_size m v s) = malloced_items s"
  "mapped (set_allocated_size m v s) = mapped s"
  by (simp_all add: field_defs al_alias al_alias0)

lemma add_chunk:
  assumes inv: "heap_inv cfg s C L qs"
    and c: "c \<notin> C" "c \<noteq> 0" "aligned cfg c" "kMinAllocSize cfg \<le> allocated_size (mem s) c"
      "unat c + unat (allocated_size (mem s) c) \<le> 2 ^ 64"
    and dj: "\<forall>d\<in>C. region c (allocated_size (mem s) c) \<inter> region d (allocated_size (mem s) d) = {}"
    and cv: "\<exists>(b, n)\<in>set (mapped s). region c (allocated_size (mem s) c) \<subseteq> region b n"
    and nx: "next_of (mem s) c = 0 \<or> next_of (mem s) c \<in> C"
    and pw: "IsPowerOfTwo (allocated_size (mem s) c)"
  shows "heap_inv cfg (s\<lparr>chunks := (chunks s)(idx := c)\<rparr>) (insert c C) L qs"
proof -
  note a = heap_inv_al [OF inv]
  from inv have wf: "wf_config cfg" and ck: "chunks_ok cfg (mem s) C"
    and cov: "covered (mem s) C (mapped s)"
    and lv: "live_ok (mem s) C L (malloced_items s)"
    and rg: "ring_ok (mem s) C qs (quarantine s) (quarantine_size s)"
    and fr: "free_ok (mem s) C L qs (chunks s)"
    by (simp_all add: heap_inv_def)
  have dj': "\<forall>d\<in>C. region d (allocated_size (mem s) d) \<inter> region c (allocated_size (mem s) c) = {}"
    using dj by (simp add: Int_commute)
  have k1: "finite (insert c C)" using ck by (simp add: chunks_ok_def)
  have k2: "\<forall>d\<in>insert c C. d \<noteq> 0 \<and> aligned cfg d \<and> kMinAllocSize cfg \<le> allocated_size (mem s) d
        \<and> unat d + unat (allocated_size (mem s) d) \<le> 2 ^ 64
        \<and> IsPowerOfTwo (allocated_size (mem s) d)"
    using c pw ck unfolding chunks_ok_def by blast
  have k3: "\<forall>d\<in>insert c C. \<forall>d'\<in>insert c C. d \<noteq> d' \<longrightarrow>
      region d (allocated_size (mem s) d) \<inter> region d' (allocated_size (mem s) d') = {}"
    using dj dj' ck unfolding chunks_ok_def by blast
  have ck': "chunks_ok cfg (mem s) (insert c C)"
    unfolding chunks_ok_def using k1 k2 k3 by blast
  have cv': "covered (mem s) (insert c C) (mapped s)"
    using cov cv unfolding covered_def by blast
  have lv': "live_ok (mem s) (insert c C) L (malloced_items s)"
    using lv unfolding live_ok_def by blast
  have rg': "ring_ok (mem s) (insert c C) qs (quarantine s) (quarantine_size s)"
    using rg unfolding ring_ok_def by blast
  have f1: "\<forall>i. ((chunks s)(idx := c)) i = 0 \<or> ((chunks s)(idx := c)) i \<in> insert c C"
    using fr by (auto simp: free_ok_def)
  have f2: "\<forall>d\<in>insert c C. d \<in> L \<or> d \<in> set qs \<or> next_of (mem s) d = 0
      \<or> next_of (mem s) d \<in> insert c C"
    using fr nx unfolding free_ok_def by blast
  have fr': "free_ok (mem s) (insert c C) L qs ((chunks s)(idx := c))"
    unfolding free_ok_def using f1 f2 by blast
  show ?thesis unfolding heap_inv_def using wf ck' cv' lv' rg' fr' by simp
qed

lemma carve_heap_inv:
  assumes inv: "heap_inv cfg s C L qs"
    and c: "c = base + of_nat i * sz" "c \<notin> C" "c \<noteq> 0" "aligned cfg c" "kMinAllocSize cfg \<le> sz"
      "unat c + unat sz \<le> 2 ^ 64"
    and dj: "\<forall>d\<in>C. region c sz \<inter> region d (allocated_size (mem s) d) = {}"
    and cv: "\<exists>(b, n)\<in>set (mapped s). region c sz \<subseteq> region b n"
    and p2: "IsPowerOfTwo sz"
  shows "heap_inv cfg (carve base sz idx i s) (insert c C) L qs"
    and "\<forall>d\<in>C. allocated_size (mem (carve base sz idx i s)) d = allocated_size (mem s) d"
    and "allocated_size (mem (carve base sz idx i s)) c = sz"
    and "mapped (carve base sz idx i s) = mapped s"
    and "malloced_items (carve base sz idx i s) = malloced_items s"
    and "quarantine_size (carve base sz idx i s) = quarantine_size s"
    and "\<forall>a. a \<notin> hdr {c} \<longrightarrow> mem (carve base sz idx i s) a = mem s a"
proof -
  note a = heap_inv_al [OF inv]
  from inv have wf: "wf_config cfg" and fr: "free_ok (mem s) C L qs (chunks s)"
    by (simp_all add: heap_inv_def)
  have alc: "al c" using wf c(4) by (rule aligned_al)
  define s3 where "s3 = set_next c (chunks s idx)
      (set_allocated_size c sz (set_chunk_state c CHUNK_AVAILABLE s))"
  have cv_eq: "carve base sz idx i s = s3\<lparr>chunks := (chunks s3)(idx := c)\<rparr>"
    by (simp add: carve_def Let_def s3_def c(1))
  have ne: "\<forall>d\<in>C. d \<noteq> c" using c(2) by auto
  have f: "\<forall>d\<in>C. chunk_state (mem s3) d = chunk_state (mem s) d
              \<and> allocated_size (mem s3) d = allocated_size (mem s) d
              \<and> next_of (mem s3) d = next_of (mem s) d
              \<and> prev_of (mem s3) d = prev_of (mem s) d"
    using a(1) alc ne by (simp add: s3_def)
  have inv3: "heap_inv cfg s3 C L qs"
    by (rule heap_inv_frame [OF inv f]) (simp_all add: s3_def)
  have az: "allocated_size (mem s3) c = sz" using alc by (simp add: s3_def)
  have nx: "next_of (mem s3) c = chunks s idx" by (simp add: s3_def)
  have g: "mapped s3 = mapped s" "chunks s3 = chunks s" by (simp_all add: s3_def)
  have "heap_inv cfg (s3\<lparr>chunks := (chunks s3)(idx := c)\<rparr>) (insert c C) L qs"
  proof (rule add_chunk [OF inv3 c(2,3,4)])
    show "kMinAllocSize cfg \<le> allocated_size (mem s3) c" using c(5) az by simp
    show "unat c + unat (allocated_size (mem s3) c) \<le> 2 ^ 64" using c(6) az by simp
    show "\<forall>d\<in>C. region c (allocated_size (mem s3) c) \<inter> region d (allocated_size (mem s3) d) = {}"
      using dj f az by simp
    show "\<exists>(b, n)\<in>set (mapped s3). region c (allocated_size (mem s3) c) \<subseteq> region b n"
      using cv az g by simp
    show "next_of (mem s3) c = 0 \<or> next_of (mem s3) c \<in> C"
      using fr nx by (auto simp: free_ok_def)
    show "IsPowerOfTwo (allocated_size (mem s3) c)" using p2 az by simp
  qed
  then show "heap_inv cfg (carve base sz idx i s) (insert c C) L qs" by (simp add: cv_eq)
  show "\<forall>d\<in>C. allocated_size (mem (carve base sz idx i s)) d = allocated_size (mem s) d"
    using f by (simp add: cv_eq)
  show "allocated_size (mem (carve base sz idx i s)) c = sz" using az by (simp add: cv_eq)
  show "mapped (carve base sz idx i s) = mapped s" by (simp add: cv_eq s3_def)
  show "malloced_items (carve base sz idx i s) = malloced_items s" by (simp add: cv_eq s3_def)
  show "quarantine_size (carve base sz idx i s) = quarantine_size s" by (simp add: cv_eq s3_def)
  show "\<forall>a. a \<notin> hdr {c} \<longrightarrow> mem (carve base sz idx i s) a = mem s a"
    by (simp add: cv_eq s3_def mem_set_field hdr_def)
qed

lemma carve_addr:
  fixes base sz :: addr
  assumes "unat base + k * unat sz \<le> 2 ^ 64" and "i < k"
  shows "unat (base + of_nat i * sz) = unat base + i * unat sz"
proof (cases "sz = 0")
  case True
  then show ?thesis by simp
next
  case False
  then have S: "0 < unat sz" by (simp add: unat_gt_0)
  from assms(2) have "Suc i * unat sz \<le> k * unat sz" by (intro mult_le_mono1) simp
  with assms(1) have b: "unat base + i * unat sz + unat sz \<le> 2 ^ 64" by simp
  with S have lt: "unat base + i * unat sz < 2 ^ 64" by simp
  have "i \<le> i * unat sz" using S by (cases "unat sz") simp_all
  with lt have "i < 2 ^ 64" by linarith
  then have i: "i < 2 ^ LENGTH(64)" by simp
  then have ui: "unat (of_nat i :: addr) = i" by (simp add: unat_of_nat)
  have "unat (of_nat i :: addr) * unat sz < 2 ^ LENGTH(64)" using lt ui by simp
  then have "unat (of_nat i * sz) = unat (of_nat i :: addr) * unat sz"
    by (rule unat_mult_lem [THEN iffD1])
  then have um: "unat (of_nat i * sz) = i * unat sz" using ui by simp
  have "unat base + unat (of_nat i * sz) < 2 ^ LENGTH(64)" using lt um by simp
  then have "unat (base + of_nat i * sz) = unat base + unat (of_nat i * sz)"
    by (rule unat_add_lem [THEN iffD1])
  then show ?thesis using um by simp
qed

lemma fold_carve_heap_inv:
  assumes inv0: "heap_inv cfg s0 C L qs"
    and b: "base \<noteq> 0" "unat (kMinAllocSize cfg) dvd unat base"
      "unat base + n * unat sz \<le> 2 ^ 64"
    and sz: "kMinAllocSize cfg \<le> sz" "unat (kMinAllocSize cfg) dvd unat sz"
    and dj: "\<forall>d\<in>C. {unat base ..< unat base + n * unat sz}
                 \<inter> region d (allocated_size (mem s0) d) = {}"
    and cv: "\<exists>(b, l)\<in>set (mapped s0). {unat base ..< unat base + n * unat sz} \<subseteq> region b l"
    and i: "i \<le> n"
    and p2: "IsPowerOfTwo sz"
  shows "heap_inv cfg (fold (carve base sz idx) [0 ..< i] s0)
           (C \<union> (\<lambda>j. base + of_nat j * sz) ` {..< i}) L qs
       \<and> (\<forall>d\<in>C. allocated_size (mem (fold (carve base sz idx) [0 ..< i] s0)) d
                = allocated_size (mem s0) d)
       \<and> (\<forall>j<i. allocated_size (mem (fold (carve base sz idx) [0 ..< i] s0))
                   (base + of_nat j * sz) = sz)
       \<and> mapped (fold (carve base sz idx) [0 ..< i] s0) = mapped s0
       \<and> malloced_items (fold (carve base sz idx) [0 ..< i] s0) = malloced_items s0
       \<and> quarantine_size (fold (carve base sz idx) [0 ..< i] s0) = quarantine_size s0
       \<and> (\<forall>a. a \<notin> hdr ((\<lambda>j. base + of_nat j * sz) ` {..< i})
              \<longrightarrow> mem (fold (carve base sz idx) [0 ..< i] s0) a = mem s0 a)"
  using i
proof (induction i)
  case 0
  then show ?case using inv0 by simp
next
  case (Suc i)
  define si where "si = fold (carve base sz idx) [0 ..< i] s0"
  define Ci where "Ci = C \<union> (\<lambda>j. base + of_nat j * sz) ` {..< i}"
  define c where "c = base + of_nat i * sz"
  define B where "B = unat base"
  define S where "S = unat sz"
  from Suc have ih: "heap_inv cfg si Ci L qs"
    "\<forall>d\<in>C. allocated_size (mem si) d = allocated_size (mem s0) d"
    "\<forall>j<i. allocated_size (mem si) (base + of_nat j * sz) = sz"
    "mapped si = mapped s0" "malloced_items si = malloced_items s0"
    "quarantine_size si = quarantine_size s0"
    "\<forall>a. a \<notin> hdr ((\<lambda>j. base + of_nat j * sz) ` {..< i}) \<longrightarrow> mem si a = mem s0 a"
    and il: "i < n"
    by (simp_all add: si_def Ci_def)
  from ih(1) have wf: "wf_config cfg" by (simp add: heap_inv_def)
  have S64: "128 \<le> S" unfolding S_def using wf sz(1) by (rule wf_min_alloc_64)
  have addr: "unat (base + of_nat j * sz) = B + j * S" if "j < n" for j
    unfolding B_def S_def using b(3) that by (rule carve_addr)
  have uc: "unat c = B + i * S" unfolding c_def using il by (rule addr)
  have le: "Suc i * S \<le> n * S" using il by (intro mult_le_mono1) simp
  then have end_le: "B + i * S + S \<le> B + n * S" by simp
  have rc: "region c sz = {B + i * S ..< B + i * S + S}"
    by (simp add: region_def uc S_def)
  have rsub: "region c sz \<subseteq> {unat base ..< unat base + n * unat sz}"
    unfolding rc using end_le by (auto simp: B_def S_def)
  have c0: "c \<noteq> 0"
  proof
    assume "c = 0"
    then have "unat c = 0" by simp
    moreover have "0 < B" using b(1) by (simp add: B_def unat_gt_0)
    ultimately show False using uc by simp
  qed
  have alc: "aligned cfg c"
    unfolding aligned_def uc using b(2) sz(2) by (simp add: B_def S_def)
  have nw: "unat c + unat sz \<le> 2 ^ 64" using uc end_le b(3) by (simp add: B_def S_def)
  have old: "region c sz \<inter> region d (allocated_size (mem si) d) = {}" if "d \<in> C" for d
    using rsub dj ih(2) that by fastforce
  have new: "region c sz \<inter> region (base + of_nat j * sz) sz = {}" if "j < i" for j
  proof -
    from that il have "j < n" by simp
    then have "unat (base + of_nat j * sz) = B + j * S" by (rule addr)
    moreover from that have "Suc j * S \<le> i * S" by (intro mult_le_mono1) simp
    ultimately show ?thesis unfolding rc by (auto simp: region_def S_def)
  qed
  have djC: "\<forall>d\<in>Ci. region c sz \<inter> region d (allocated_size (mem si) d) = {}"
  proof
    fix d assume "d \<in> Ci"
    then consider "d \<in> C" | j where "j < i" "d = base + of_nat j * sz"
      by (auto simp: Ci_def)
    then show "region c sz \<inter> region d (allocated_size (mem si) d) = {}"
    proof cases
      case 1
      then show ?thesis by (rule old)
    next
      case 2
      with ih(3) have "allocated_size (mem si) d = sz" by simp
      with new [OF 2(1)] 2(2) show ?thesis by simp
    qed
  qed
  have notin: "c \<notin> Ci"
  proof
    assume cC: "c \<in> Ci"
    from ih(1) cC have "kMinAllocSize cfg \<le> allocated_size (mem si) c"
      by (simp add: heap_inv_def chunks_ok_def)
    then have "128 \<le> unat (allocated_size (mem si) c)" using wf_min_alloc_64 [OF wf] by blast
    then have "unat c \<in> region c (allocated_size (mem si) c)" by (simp add: region_def)
    moreover have "unat c \<in> region c sz" using S64 by (simp add: region_def S_def)
    ultimately show False using djC cC by blast
  qed
  have cvi: "\<exists>(b, l)\<in>set (mapped si). region c sz \<subseteq> region b l"
  proof -
    from cv obtain b0 l0 where m: "(b0, l0) \<in> set (mapped s0)"
      "{unat base ..< unat base + n * unat sz} \<subseteq> region b0 l0" by blast
    with rsub show ?thesis unfolding ih(4) by blast
  qed
  note cr = carve_heap_inv [OF ih(1) c_def notin c0 alc sz(1) nw djC cvi p2, of idx]
  have fold_eq: "fold (carve base sz idx) [0 ..< Suc i] s0 = carve base sz idx i si"
    by (simp add: si_def)
  have set_eq: "C \<union> (\<lambda>j. base + of_nat j * sz) ` {..< Suc i} = insert c Ci"
    by (auto simp: Ci_def c_def lessThan_Suc)
  have CCi: "C \<subseteq> Ci" by (auto simp: Ci_def)
  have a1: "\<forall>d\<in>C. allocated_size (mem (carve base sz idx i si)) d = allocated_size (mem s0) d"
    using cr(2) ih(2) CCi by auto
  have a2: "\<forall>j<Suc i. allocated_size (mem (carve base sz idx i si)) (base + of_nat j * sz) = sz"
  proof (intro allI impI)
    fix j assume "j < Suc i"
    show "allocated_size (mem (carve base sz idx i si)) (base + of_nat j * sz) = sz"
    proof (cases "j = i")
      case True
      then show ?thesis using cr(3) by (simp add: c_def)
    next
      case False
      with \<open>j < Suc i\<close> have ji: "j < i" by simp
      then have "base + of_nat j * sz \<in> Ci" by (auto simp: Ci_def)
      then show ?thesis using cr(2) ih(3) ji by simp
    qed
  qed
  have a3: "\<forall>a. a \<notin> hdr ((\<lambda>j. base + of_nat j * sz) ` {..< Suc i})
      \<longrightarrow> mem (carve base sz idx i si) a = mem s0 a"
  proof (intro allI impI)
    fix a assume a: "a \<notin> hdr ((\<lambda>j. base + of_nat j * sz) ` {..< Suc i})"
    then have "a \<notin> hdr {c}" "a \<notin> hdr ((\<lambda>j. base + of_nat j * sz) ` {..< i})"
      by (auto simp: hdr_def c_def lessThan_Suc)
    then show "mem (carve base sz idx i si) a = mem s0 a" using cr(7) ih(7) by simp
  qed
  show ?case unfolding fold_eq set_eq using cr(1,4,5,6) a1 a2 a3 ih(4,5,6) by simp
qed

lemma pow2_dvd:
  assumes "wf_config cfg" and "IsPowerOfTwo sz" and "kMinAllocSize cfg \<le> sz"
  shows "unat (kMinAllocSize cfg) dvd unat sz"
proof -
  from assms(1) obtain e j where e: "7 \<le> e" "e \<le> j" "j \<le> 50" "kMinAllocSize cfg = 2 ^ e"
    by (rule wf_config_exp)
  have ue: "unat (kMinAllocSize cfg) = 2 ^ e" unfolding e(4) by (rule unat_exp) (use e in simp)
  have "128 \<le> unat sz" using assms(1,3) by (rule wf_min_alloc_64)
  then have "sz \<noteq> 0" by auto
  with assms(2) obtain k where k: "k < 64" "sz = 2 ^ k" using IsPowerOfTwo_exp by blast
  have uk: "unat sz = 2 ^ k" unfolding k(2) using k(1) by (rule unat_exp)
  have "(2::addr) ^ e \<le> 2 ^ k" using assms(3) e(4) k(2) by simp
  then have "e \<le> k" using exp_le_addr [of e k] e k(1) by simp
  then have "(2::nat) ^ e dvd 2 ^ k" by (rule le_imp_power_dvd)
  then show ?thesis by (simp add: ue uk)
qed

lemma page_aligned:
  assumes "wf_config cfg" and "unat (kPageSize cfg) dvd unat (base :: addr)"
  shows "unat (kMinAllocSize cfg) dvd unat base"
proof -
  from assms(1) obtain e j where e: "7 \<le> e" "e \<le> j" "j \<le> 50"
    "unat (kMinAllocSize cfg) = 2 ^ e" "unat (kPageSize cfg) = 2 ^ j"
    by (rule wf_config_unat)
  have "(2::nat) ^ e dvd 2 ^ j" using e(2) by (rule le_imp_power_dvd)
  then show ?thesis using assms(2) e(4,5) by (metis dvd_trans)
qed

lemma GetNewChunks_Inr:
  assumes "GetNewChunks cfg os sz s = Inr s1"
  shows "\<exists>idx base s0. Log2 sz = Inr idx \<and> IsPowerOfTwo sz
      \<and> MmapNewPages cfg os (max sz (kMinMmapSize cfg)) s = Inr (base, s0)
      \<and> s1 = fold (carve base sz idx) [0 ..< unat (max sz (kMinMmapSize cfg) div sz)] s0"
  using assms
  by (auto simp: GetNewChunks_def CHECK_Inr_iff bind_r_Inr_iff Let_def split: prod.splits)

lemma GetNewChunks_heap_inv:
  assumes inv: "heap_inv cfg s C L qs" and ok: "os_ok cfg s os"
    and szA: "kMinAllocSize cfg \<le> sz" and g: "GetNewChunks cfg os sz s = Inr s1"
  shows "\<exists>C'. C \<subseteq> C' \<and> heap_inv cfg s1 C' L qs
      \<and> malloced_items s1 = malloced_items s \<and> quarantine_size s1 = quarantine_size s
      \<and> (\<forall>c\<in>C. allocated_size (mem s1) c = allocated_size (mem s) c)
      \<and> (\<forall>m\<in>C. \<forall>a\<in>payload (mem s) m. mem s1 a = mem s a)"
proof -
  from inv have wf: "wf_config cfg" by (simp add: heap_inv_def)
  define M where "M = max sz (kMinMmapSize cfg)"
  from GetNewChunks_Inr [OF g] obtain idx base s0 where
    p2: "IsPowerOfTwo sz" and mm: "MmapNewPages cfg os M s = Inr (base, s0)"
    and s1: "s1 = fold (carve base sz idx) [0 ..< unat (M div sz)] s0"
    unfolding M_def by blast
  note m = MmapNewPages_heap_inv [OF inv ok mm]
  note mi = MmapNewPages_Inr [OF mm]
  define n where "n = unat (M div sz)"
  define N where "N = (\<lambda>j. base + of_nat j * sz) ` {..< n}"
  have n: "n * unat sz \<le> unat M" by (simp add: n_def unat_div)
  have b3: "unat base + n * unat sz \<le> 2 ^ 64" using n m(5) by simp
  have sub: "{unat base ..< unat base + n * unat sz} \<subseteq> region base M"
    using n by (auto simp: region_def)
  have dj: "\<forall>d\<in>C. {unat base ..< unat base + n * unat sz}
                 \<inter> region d (allocated_size (mem s0) d) = {}"
    using sub m(2) by blast
  have cv: "\<exists>(b, l)\<in>set (mapped s0). {unat base ..< unat base + n * unat sz} \<subseteq> region b l"
    using sub mi(4) by auto
  from fold_carve_heap_inv [OF m(1) m(3) page_aligned [OF wf m(4)] b3 szA
      pow2_dvd [OF wf p2 szA] dj cv order_refl p2, of idx]
  have f: "heap_inv cfg s1 (C \<union> N) L qs"
    "\<forall>d\<in>C. allocated_size (mem s1) d = allocated_size (mem s0) d"
    "malloced_items s1 = malloced_items s0" "quarantine_size s1 = quarantine_size s0"
    "\<forall>a. a \<notin> hdr N \<longrightarrow> mem s1 a = mem s0 a"
    unfolding s1 n_def [symmetric] N_def [symmetric] by simp_all
  have az: "\<forall>c\<in>C. allocated_size (mem s1) c = allocated_size (mem s) c"
    using f(2) m(7) by simp
  from f(1) have ck1: "chunks_ok cfg (mem s1) (C \<union> N)" by (simp add: heap_inv_def)
  have keep: "mem s1 a = mem s a" if c: "c \<in> C" and a: "a \<in> payload (mem s) c" for c a
  proof -
    from a az c have a1: "a \<in> payload (mem s1) c" by (simp add: payload_def)
    from c have "c \<in> C \<union> N" by simp
    with wf ck1 have "a \<notin> hdr (C \<union> N)" using a1 by (rule payload_not_hdr)
    then have "a \<notin> hdr N" using hdr_mono [of N "C \<union> N"] by auto
    then have "mem s1 a = mem s0 a" using f(5) by simp
    moreover have "unat a \<in> region c (allocated_size (mem s0) c)"
      using a m(7) c by (simp add: payload_def region_def)
    then have "unat a \<notin> region base M" using m(2) c by blast
    ultimately show ?thesis using m(6) by simp
  qed
  show ?thesis using f(1,3,4) mi(5,8) az keep
    by (intro exI [of _ "C \<union> N"]) simp
qed

lemma draw_frame:
  assumes inv: "heap_inv cfg s C L qs" and m0: "chunks s idx \<noteq> 0" and a: "a \<notin> hdr C"
  shows "mem (draw idx s) a = mem s a"
proof -
  note al = heap_inv_al [OF inv]
  from inv have lv: "live_ok (mem s) C L (malloced_items s)"
    and fr: "free_ok (mem s) C L qs (chunks s)"
    by (simp_all add: heap_inv_def)
  have "chunks s idx \<in> C" using fr m0 by (auto simp: free_ok_def)
  note om = off_hdr [OF a this]
  have "malloced_items s \<noteq> 0 \<Longrightarrow> a \<noteq> malloced_items s + 32"
  proof -
    assume "malloced_items s \<noteq> 0"
    with lv al(4) have "malloced_items s \<in> C" by (auto simp: live_ok_def)
    with a show ?thesis by (rule off_hdr)
  qed
  then show ?thesis using om by (simp add: draw_def Let_def mem_set_field)
qed

lemma AllocateChunk_heap_inv:
  assumes inv: "heap_inv cfg s C L qs" and ok: "os_ok cfg s os"
    and szA: "kMinAllocSize cfg \<le> sz" and ac: "AllocateChunk cfg os sz s = Inr (m, s')"
  shows "\<exists>C'. C \<subseteq> C' \<and> heap_inv cfg s' C' (insert m L) qs \<and> m \<in> C' \<and> m \<notin> L
      \<and> malloced_items s' = m \<and> quarantine_size s' = quarantine_size s
      \<and> (\<forall>c\<in>C. allocated_size (mem s') c = allocated_size (mem s) c)
      \<and> (\<forall>c\<in>C. \<forall>a\<in>payload (mem s) c. mem s' a = mem s a)"
proof -
  from inv have wf: "wf_config cfg" by (simp add: heap_inv_def)
  from ac obtain idx s1 where
    s1: "(if chunks s idx = 0 then GetNewChunks cfg os sz s else Inr s) = Inr s1"
    and m: "m = chunks s1 idx" "m \<noteq> 0"
    and st: "chunk_state (mem (set_next m 0 (set_prev m 0 s1))) m = CHUNK_AVAILABLE"
    and s': "s' = draw idx s1"
    by (auto simp: AllocateChunk_steps CHECK_Inr_iff bind_r_Inr_iff)
  have "\<exists>C'. C \<subseteq> C' \<and> heap_inv cfg s1 C' L qs
      \<and> malloced_items s1 = malloced_items s \<and> quarantine_size s1 = quarantine_size s
      \<and> (\<forall>c\<in>C. allocated_size (mem s1) c = allocated_size (mem s) c)
      \<and> (\<forall>m\<in>C. \<forall>a\<in>payload (mem s) m. mem s1 a = mem s a)"
  proof (cases "chunks s idx = 0")
    case True
    with s1 have "GetNewChunks cfg os sz s = Inr s1" by simp
    from GetNewChunks_heap_inv [OF inv ok szA this] show ?thesis .
  next
    case False
    with s1 inv show ?thesis by auto
  qed
  then obtain C' where C': "C \<subseteq> C'" "heap_inv cfg s1 C' L qs"
    "malloced_items s1 = malloced_items s" "quarantine_size s1 = quarantine_size s"
    "\<forall>c\<in>C. allocated_size (mem s1) c = allocated_size (mem s) c"
    "\<forall>m\<in>C. \<forall>a\<in>payload (mem s) m. mem s1 a = mem s a"
    by blast
  from C'(2) have "free_ok (mem s1) C' L qs (chunks s1)" and ck1: "chunks_ok cfg (mem s1) C'"
    by (simp_all add: heap_inv_def)
  then have mC: "m \<in> C'" using m by (auto simp: free_ok_def)
  then have "al m" using heap_inv_al(1) [OF C'(2)] by auto
  with st have av: "chunk_state (mem s1) (chunks s1 idx) = CHUNK_AVAILABLE"
    by (simp add: m(1))
  from m have m0: "chunks s1 idx \<noteq> 0" by simp
  note d = draw_heap_inv [OF C'(2) m0 av]
  have az: "\<forall>c\<in>C. allocated_size (mem s') c = allocated_size (mem s) c"
    using d(5) C'(1,5) by (auto simp: s')
  have keep: "mem s' a = mem s a" if c: "c \<in> C" and a: "a \<in> payload (mem s) c" for c a
  proof -
    from a C'(5) c have a1: "a \<in> payload (mem s1) c" by (simp add: payload_def)
    from c C'(1) have "c \<in> C'" by auto
    with wf ck1 have "a \<notin> hdr C'" using a1 by (rule payload_not_hdr)
    with C'(2) m0 have "mem (draw idx s1) a = mem s1 a" by (rule draw_frame)
    then show ?thesis using C'(6) c a by (simp add: s')
  qed
  show ?thesis using d(1,2,3,6,7) C'(1,4) az keep by (intro exI [of _ C']) (simp add: s' m(1))
qed

subsection \<open>The alignment record and \<^verbatim>\<open>Allocate\<close>\<close>

lemma ctz_nat_exp: "ctz_nat (2 ^ k) = k"
proof (induction k)
  case 0
  show ?case by (simp add: ctz_nat.simps)
next
  case (Suc k)
  show ?case by (subst ctz_nat.simps) (simp add: Suc)
qed

lemma Log2_exp:
  assumes "Log2 a = Inr l"
  shows "a = 2 ^ l \<and> l < 64"
proof -
  from assms have p: "IsPowerOfTwo a" and z: "a \<noteq> 0" and l: "l = ctz_nat (unat a)"
    by (auto simp: Log2_def CHECK_Inr_iff builtin_ctzl_def split: if_splits)
  from IsPowerOfTwo_exp [OF p z] obtain k where k: "k < 64" "a = 2 ^ k" by blast
  have "unat a = 2 ^ k" unfolding k(2) using k(1) by (rule unat_exp)
  with l have "l = k" by (simp add: ctz_nat_exp)
  with k show ?thesis by simp
qed

lemma res_hdr:
  assumes wf: "wf_config cfg" and al: "aligned cfg c" and x: "unat x < 64"
  shows "res cfg (c + x) = unat x"
proof -
  from wf obtain e j where e: "7 \<le> e" "unat (kMinAllocSize cfg) = 2 ^ e"
    by (auto elim: wf_config_unat)
  have "(2::nat) ^ 7 \<le> 2 ^ e" by (rule power_increasing) (use e in simp_all)
  then have big: "unat x < 2 ^ e" using x by simp
  have "unat (c + x) = unat c + unat x" using aligned_al [OF wf al] x by (rule unat_al_add)
  moreover from al obtain q where "unat c = 2 ^ e * q" unfolding aligned_def e(2) by (auto elim: dvdE)
  ultimately show ?thesis using big by (simp add: res_def e(2))
qed

lemma residue_sub:
  fixes Q R d :: nat
  assumes "d dvd Q" and "d \<le> Q" and "R \<le> d"
  shows "(Q - R) mod d = (d - R) mod d"
proof -
  from assms(1) obtain q where q: "Q = d * q" by (auto elim: dvdE)
  with assms(2) have "q \<noteq> 0 \<or> d = 0" by (cases q) auto
  then show ?thesis
  proof
    assume "q \<noteq> 0"
    then obtain q' where q': "q = Suc q'" by (cases q) auto
    have "Q - R = d * q' + (d - R)" using assms(3) by (simp add: q q')
    then show ?thesis by simp
  next
    assume "d = 0"
    with assms show ?thesis by simp
  qed
qed

lemma res_record:
  assumes wf: "wf_config cfg" and p: "unat (kMinAllocSize cfg) dvd unat p"
  shows "res cfg (p - kRedzone cfg) = unat (kRedzone cfg)"
    and "res cfg (p - kRedzone cfg + 8) = unat (kRedzone cfg) + 8"
    and "64 \<le> unat (kRedzone cfg)"
proof -
  from wf obtain e j where e: "7 \<le> e" "unat (kRedzone cfg) = 2 ^ (e - 1)"
    "unat (kMinAllocSize cfg) = 2 ^ e" "e \<le> j" "j \<le> 50"
    by (auto elim: wf_config_unat)
  define R where "R = (2::nat) ^ (e - 1)"
  have d: "(2::nat) ^ e = 2 * R" using e(1) by (simp add: R_def power_eq_if)
  have "(2::nat) ^ 6 \<le> 2 ^ (e - 1)" by (rule power_increasing) (use e in simp_all)
  then have R64: "64 \<le> R" by (simp add: R_def)
  have top: "(2 * R) dvd (2::nat) ^ 64"
    unfolding d [symmetric] by (rule le_imp_power_dvd) (use e in simp)
  have topn: "2 * R dvd (18446744073709551616::nat)" using top by simp
  have Rlt: "2 * R \<le> (2::nat) ^ 64" using top by (rule dvd_imp_le) simp
  from p have pd: "2 * R dvd unat p" by (simp add: e(3) d)
  have x: "unat (p - kRedzone cfg) mod (2 * R) = R"
  proof (cases "R \<le> unat p")
    case True
    then have "unat (p - kRedzone cfg) = unat p - R"
      by (simp add: unat_sub_if' e(2) R_def)
    moreover have "2 * R \<le> unat p"
    proof -
      from pd obtain q where q: "unat p = 2 * R * q" by (auto elim: dvdE)
      with True R64 have "q \<noteq> 0" by (cases q) auto
      then show ?thesis using q by (cases q) auto
    qed
    ultimately show ?thesis using residue_sub [OF pd, of R] R64 by simp
  next
    case False
    then have "unat (p - kRedzone cfg) = unat p + 2 ^ 64 - R"
      by (simp add: unat_sub_if' e(2) R_def)
    moreover have "2 * R dvd unat p + 2 ^ 64" using pd top by (rule dvd_add)
    moreover have "2 * R \<le> unat p + 2 ^ 64" using Rlt by simp
    ultimately show ?thesis using residue_sub [of "2 * R" "unat p + 2 ^ 64" R] R64 by simp
  qed
  show "res cfg (p - kRedzone cfg) = unat (kRedzone cfg)"
    using x by (simp add: res_def e d R_def)
  have "unat (p - kRedzone cfg + 8) = (unat (p - kRedzone cfg) + 8) mod 2 ^ 64"
    by (simp add: unat_word_ariths)
  then have "unat (p - kRedzone cfg + 8) mod (2 * R) = (unat (p - kRedzone cfg) + 8) mod (2 * R)"
    using topn by (simp add: mod_mod_cancel)
  also have "\<dots> = (unat (p - kRedzone cfg) mod (2 * R) + 8) mod (2 * R)"
    by (simp add: mod_add_left_eq)
  also have "\<dots> = R + 8" unfolding x using R64 by simp
  finally show "res cfg (p - kRedzone cfg + 8) = unat (kRedzone cfg) + 8"
    by (simp add: res_def e d R_def)
  show "64 \<le> unat (kRedzone cfg)" using R64 by (simp add: e R_def)
qed

lemma push_bit_aligned:
  assumes wf: "wf_config cfg" and l: "Log2 a = Inr l" and a: "kRedzone cfg < a"
  shows "unat (kMinAllocSize cfg) dvd unat (push_bit l y :: addr)"
proof -
  from wf obtain e j where e: "7 \<le> e" "kRedzone cfg = 2 ^ (e - 1)"
    "unat (kMinAllocSize cfg) = 2 ^ e" "e \<le> j" "j \<le> 50"
    by (auto elim: wf_config_unat)
  from Log2_exp [OF l] have al: "a = 2 ^ l" "l < 64" by simp_all
  have "(2::addr) ^ (e - 1) < 2 ^ l" using a e(2) al(1) by simp
  then have "e - 1 < l" using exp_less_addr [of "e - 1" l] al(2) e by simp
  then have el: "e \<le> l" by simp
  have "unat (push_bit l y :: addr) = (unat y * 2 ^ l) mod 2 ^ 64"
    by (simp add: push_bit_eq_mult unat_word_ariths unat_exp al(2))
  moreover have "(2::nat) ^ e dvd unat y * 2 ^ l"
    using el by (simp add: le_imp_power_dvd)
  moreover have "(2::nat) ^ e dvd 2 ^ 64" by (rule le_imp_power_dvd) (use e in simp)
  ultimately show ?thesis unfolding e(3) by (simp add: dvd_mod)
qed

lemma place_frame:
  assumes wf: "wf_config cfg" and pl: "place cfg a m s = Inr (p, s')"
    and c: "aligned cfg c"
  shows "chunk_state (mem s') c = chunk_state (mem s) c"
    and "allocated_size (mem s') c = allocated_size (mem s) c"
    and "next_of (mem s') c = next_of (mem s) c"
    and "prev_of (mem s') c = prev_of (mem s) c"
proof -
  have keep: "mem s' (c + x) = mem s (c + x)" if x: "unat x < 64" for x
  proof (cases "s' = s")
    case False
    with pl obtain l where l: "Log2 a = Inr l" and a: "kRedzone cfg < a"
      and p: "p = push_bit l (drop_bit l (m + kRedzone cfg + a - 1))"
      and s': "mem s' = (mem s)(p - kRedzone cfg := CHUNK_MEMALIGN, p - kRedzone cfg + 8 := m)"
      by (auto simp: place_def Let_def bind_r_Inr_iff CHECK_Inr_iff store_def split: if_splits)
    have pa: "unat (kMinAllocSize cfg) dvd unat p" unfolding p using wf l a by (rule push_bit_aligned)
    note r = res_record [OF wf pa]
    have rh: "res cfg (c + x) = unat x" using wf c x by (rule res_hdr)
    have "c + x \<noteq> p - kRedzone cfg" using r(1,3) rh x by auto
    moreover have "c + x \<noteq> p - kRedzone cfg + 8" using r(2,3) rh x by auto
    ultimately show ?thesis by (simp add: s')
  qed simp
  from keep [of 0] keep [of 8] keep [of 24] keep [of 32]
  show "chunk_state (mem s') c = chunk_state (mem s) c"
    and "allocated_size (mem s') c = allocated_size (mem s) c"
    and "next_of (mem s') c = next_of (mem s) c"
    and "prev_of (mem s') c = prev_of (mem s) c"
    by (simp_all add: field_defs)
qed

lemma place_globals:
  assumes "place cfg a m s = Inr (p, s')"
  shows "mapped s' = mapped s" "malloced_items s' = malloced_items s" "quarantine s' = quarantine s"
    "quarantine_size s' = quarantine_size s" "chunks s' = chunks s"
  using assms
  by (auto simp: place_def Let_def bind_r_Inr_iff CHECK_Inr_iff store_def split: if_splits)

lemma Allocate_heap_inv:
  assumes inv: "heap_inv cfg s C L qs" and ok: "os_ok cfg s os"
    and al: "Allocate cfg os a n s = Inr (p, s')" and n: "n \<noteq> 0"
  shows "\<exists>C'. C \<subseteq> C' \<and> heap_inv cfg s' C' (insert (malloced_items s') L) qs
      \<and> malloced_items s' \<in> C' \<and> malloced_items s' \<notin> L
      \<and> quarantine_size s' = quarantine_size s"
proof -
  from inv have wf: "wf_config cfg" by (simp add: heap_inv_def)
  from Allocate_Inr_cases [OF al n] obtain sz' m s1 s2 where
    szA: "kMinAllocSize cfg \<le> sz'" and
    ac: "AllocateChunk cfg os sz' s = Inr (m, s1)" and
    pl: "place cfg a m (set_used_size m n s1) = Inr (p, s2)" and
    po: "PoisonShadow cfg p (RoundUptoRedzone cfg n) 0 s2 = Inr s'"
    by blast
  from AllocateChunk_heap_inv [OF inv ok szA ac] obtain C' where
    C': "C \<subseteq> C'" "heap_inv cfg s1 C' (insert m L) qs" "m \<in> C'" "m \<notin> L"
    "malloced_items s1 = m" "quarantine_size s1 = quarantine_size s"
    by blast
  note a1 = heap_inv_al [OF C'(2)]
  have alm: "al m" using a1(1) C'(3) by auto
  from C'(2) have ck: "chunks_ok cfg (mem s1) C'" by (simp add: heap_inv_def)
  note e = PoisonShadow_Inr [OF po]
  note g = place_globals [OF pl]
  have f: "\<forall>c\<in>C'. chunk_state (mem s') c = chunk_state (mem s1) c
              \<and> allocated_size (mem s') c = allocated_size (mem s1) c
              \<and> next_of (mem s') c = next_of (mem s1) c
              \<and> prev_of (mem s') c = prev_of (mem s1) c"
  proof
    fix c assume c: "c \<in> C'"
    then have "aligned cfg c" "al c" using ck a1(1) by (auto simp: chunks_ok_def)
    with place_frame [OF wf pl] alm show "chunk_state (mem s') c = chunk_state (mem s1) c
              \<and> allocated_size (mem s') c = allocated_size (mem s1) c
              \<and> next_of (mem s') c = next_of (mem s1) c
              \<and> prev_of (mem s') c = prev_of (mem s1) c"
      by (simp add: e)
  qed
  have "heap_inv cfg s' C' (insert m L) qs"
    by (rule heap_inv_frame [OF C'(2) f]) (simp_all add: e g)
  moreover have "malloced_items s' = m" using e g C'(5) by simp
  moreover have "quarantine_size s' = quarantine_size s" using e g C'(6) by simp
  ultimately show ?thesis using C'(1,3,4) by (intro exI [of _ C']) simp
qed

subsection \<open>Freeing writes header words only\<close>

lemma pop_frame:
  assumes inv: "heap_inv cfg s C L qs" and p: "pop s = Inr s'" and a: "a \<notin> hdr C"
  shows "mem s' a = mem s a"
proof -
  note al = heap_inv_al [OF inv]
  from pop_result [OF inv p] obtain idx where ne: "qs \<noteq> []" and
    s': "s' = (let m = last qs;
                s1 = (if hd qs = m then s\<lparr>quarantine := 0\<rparr>
                      else set_next (last (butlast qs)) (hd qs)
                             (set_prev (hd qs) (last (butlast qs)) s));
                s2 = s1\<lparr>quarantine_size := quarantine_size s - allocated_size (mem s) m\<rparr>;
                s4 = set_next m (chunks s idx) (set_chunk_state m CHUNK_AVAILABLE s2)
            in s4\<lparr>chunks := (chunks s)(idx := m)\<rparr>)"
    by blast
  have lC: "last qs \<in> C" and hC: "hd qs \<in> C" using ne al(5) by auto
  note ol = off_hdr [OF a lC] and oh = off_hdr [OF a hC]
  show ?thesis
  proof (cases "hd qs = last qs")
    case True
    then show ?thesis using ol by (simp add: s' Let_def mem_set_field)
  next
    case False
    have "butlast qs \<noteq> []"
    proof
      assume "butlast qs = []"
      with ne have "qs = [last qs]" by (metis append_butlast_last_id append_Nil)
      then have "hd qs = last qs" by (metis list.sel(1))
      with False show False by simp
    qed
    then have "last (butlast qs) \<in> set (butlast qs)" by simp
    then have "last (butlast qs) \<in> C" using al(5) by (auto dest: in_set_butlastD)
    note ob = off_hdr [OF a this]
    show ?thesis using False ol oh ob by (simp add: s' Let_def mem_set_field)
  qed
qed

lemma TakeChunkBack_loop_frame:
  assumes "heap_inv cfg s C L qs" and "TakeChunkBack_loop cfg s = Inr s'" and "a \<notin> hdr C"
  shows "mem s' a = mem s a"
  using assms
proof (induction cfg s arbitrary: qs rule: TakeChunkBack_loop.induct)
  case (1 cfg s)
  show ?case
  proof (cases "quarantine_size s \<noteq> 0 \<and> flag_quarantine_size cfg < quarantine_size s")
    case False
    with "1.prems"(2) have "s' = s" by (simp add: TakeChunkBack_loop.simps)
    then show ?thesis by simp
  next
    case True
    with "1.prems"(2) obtain t where t: "pop s = Inr t" and l: "TakeChunkBack_loop cfg t = Inr s'"
      by (subst (asm) TakeChunkBack_loop.simps) (auto split: sum.splits)
    note ph = pop_heap_inv [OF "1.prems"(1) t]
    have "mem s' a = mem t a" using True t ph(2) l "1.prems"(3) by (rule "1.IH")
    also have "mem t a = mem s a" using "1.prems"(1) t "1.prems"(3) by (rule pop_frame)
    finally show ?thesis .
  qed
qed

lemma unlink_frame:
  assumes inv: "heap_inv cfg s C L qs" and mL: "m \<in> L" and a: "a \<notin> hdr C"
  shows "mem (unlink m s) a = mem s a"
proof -
  note al = heap_inv_al [OF inv]
  from inv have lv: "live_ok (mem s) C L (malloced_items s)" by (simp add: heap_inv_def)
  with mL have n: "next_of (mem s) m = 0 \<or> next_of (mem s) m \<in> C"
    and p: "prev_of (mem s) m = 0 \<or> prev_of (mem s) m \<in> C"
    using al(4) by (auto simp: live_ok_def)
  have "next_of (mem s) m \<noteq> 0 \<Longrightarrow> a \<noteq> next_of (mem s) m + 32"
    using n off_hdr [OF a] by auto
  moreover have "prev_of (mem s) m \<noteq> 0 \<Longrightarrow> a \<noteq> prev_of (mem s) m + 24"
    using p off_hdr [OF a] by auto
  ultimately show ?thesis by (auto simp: unlink_def Let_def mem_set_field)
qed

lemma enqueue_frame:
  assumes inv: "heap_inv cfg s C L qs" and mC: "m \<in> C" and a: "a \<notin> hdr C"
  shows "mem (enqueue m s) a = mem s a"
proof -
  note al = heap_inv_al [OF inv]
  from inv have "ring_ok (mem s) C qs (quarantine s) (quarantine_size s)"
    by (simp add: heap_inv_def)
  then have qr: "quarantine_ring (mem s) (quarantine s) qs" by (simp add: ring_ok_def)
  note om = off_hdr [OF a mC]
  show ?thesis
  proof (cases "quarantine s = 0")
    case True
    then show ?thesis using om by (simp add: enqueue_def Let_def mem_set_field)
  next
    case False
    with qr have ne: "qs \<noteq> []" by (auto simp: quarantine_ring_def)
    with qr have q: "quarantine s = hd qs" "prev_of (mem s) (hd qs) = last qs"
      by (auto simp: quarantine_ring_def)
    have "hd qs \<in> C" "last qs \<in> C" using ne al(5) by auto
    note oh = off_hdr [OF a this(1)] and ol = off_hdr [OF a this(2)]
    have al3: "al m" "al (hd qs)" using al(1) mC \<open>hd qs \<in> C\<close> by auto
    show ?thesis using False om oh ol al3 q
      by (simp add: enqueue_def Let_def mem_set_field)
  qed
qed

lemma Deallocate_frame:
  assumes inv: "heap_inv cfg s C L qs" and mL: "PtrToChunk cfg (mem s) p \<in> L"
    and p0: "p \<noteq> 0" and d: "Deallocate cfg p s = Inr s'" and a: "a \<notin> hdr C"
  shows "mem s' a = mem s a"
proof -
  define m where "m = PtrToChunk cfg (mem s) p"
  from d p0 obtain s1 where
    po: "PoisonShadow cfg p (RoundUptoRedzone cfg (used_size (mem s) m)) (- 1) s = Inr s1"
    and t: "TakeChunkBack cfg m s1 = Inr s'"
    by (auto simp: Deallocate_def MallocInfo_Deallocate_def CHECK_Inr_iff bind_r_Inr_iff
          Let_def m_def)
  note e = PoisonShadow_Inr [OF po]
  have inv1: "heap_inv cfg s1 C L qs"
    using inv heap_inv_state_cong [of s1 s cfg C L qs] e by simp
  note al = heap_inv_al [OF inv1]
  have mL': "m \<in> L" using mL by (simp add: m_def)
  then have mC: "m \<in> C" using al(4) by auto
  from t have l: "TakeChunkBack_loop cfg (enqueue m (unlink m s1)) = Inr s'"
    by (simp add: TakeChunkBack_steps CHECK_Inr_iff)
  note u = unlink_heap_inv [OF inv1 mL']
  from inv1 have "live_ok (mem s1) C L (malloced_items s1)"
    and "ring_ok (mem s1) C qs (quarantine s1) (quarantine_size s1)"
    by (simp_all add: heap_inv_def)
  then have "chunk_state (mem s1) m = CHUNK_ALLOCATED"
    and "\<forall>c\<in>set qs. chunk_state (mem s1) c = CHUNK_QUARANTINE"
    using mL' by (simp_all add: live_ok_def ring_ok_def)
  then have mq: "m \<notin> set qs" by auto
  note en = enqueue_heap_inv [OF u(1) mC _ mq, simplified]
  have "mem s' a = mem (enqueue m (unlink m s1)) a"
    using en(1) l a by (rule TakeChunkBack_loop_frame)
  also have "\<dots> = mem (unlink m s1) a" using u(1) mC a by (rule enqueue_frame)
  also have "\<dots> = mem s1 a" using inv1 mL' a by (rule unlink_frame)
  finally show ?thesis using e by simp
qed

lemma Deallocate_head:
  assumes inv: "heap_inv cfg s C L qs" and mL: "PtrToChunk cfg (mem s) p \<in> L"
    and p0: "p \<noteq> 0" and d: "Deallocate cfg p s = Inr s'"
    and nh: "PtrToChunk cfg (mem s) p \<noteq> malloced_items s"
  shows "malloced_items s' = malloced_items s"
proof -
  define m where "m = PtrToChunk cfg (mem s) p"
  from d p0 obtain s1 where
    po: "PoisonShadow cfg p (RoundUptoRedzone cfg (used_size (mem s) m)) (- 1) s = Inr s1"
    and t: "TakeChunkBack cfg m s1 = Inr s'"
    by (auto simp: Deallocate_def MallocInfo_Deallocate_def CHECK_Inr_iff bind_r_Inr_iff
          Let_def m_def)
  note e = PoisonShadow_Inr [OF po]
  have inv1: "heap_inv cfg s1 C L qs"
    using inv heap_inv_state_cong [of s1 s cfg C L qs] e by simp
  note al = heap_inv_al [OF inv1]
  have mL': "m \<in> L" using mL by (simp add: m_def)
  then have mC: "m \<in> C" using al(4) by auto
  from t have l: "TakeChunkBack_loop cfg (enqueue m (unlink m s1)) = Inr s'"
    by (simp add: TakeChunkBack_steps CHECK_Inr_iff)
  note u = unlink_heap_inv [OF inv1 mL']
  from inv1 have "live_ok (mem s1) C L (malloced_items s1)"
    and "ring_ok (mem s1) C qs (quarantine s1) (quarantine_size s1)"
    by (simp_all add: heap_inv_def)
  then have "chunk_state (mem s1) m = CHUNK_ALLOCATED"
    and "\<forall>c\<in>set qs. chunk_state (mem s1) c = CHUNK_QUARANTINE"
    using mL' by (simp_all add: live_ok_def ring_ok_def)
  then have mq: "m \<notin> set qs" by auto
  note en = enqueue_heap_inv [OF u(1) mC _ mq, simplified]
  from TakeChunkBack_loop_heap_inv [OF en(1) l]
  have "malloced_items s' = malloced_items (enqueue m (unlink m s1))" by blast
  also have "\<dots> = malloced_items (unlink m s1)" by (rule en(4))
  also have "\<dots> = malloced_items s1" using nh e by (simp add: unlink_def Let_def m_def)
  finally show ?thesis using e by simp
qed

text \<open>What a pointer resolves to is stable while the words outside the headers are.\<close>

lemma valid_ptr_cases:
  assumes inv: "heap_inv cfg s C L qs" and v: "valid_ptr cfg s p"
  obtains (base) "PtrToChunk cfg (mem s) p = p - kRedzone cfg" "p - kRedzone cfg \<in> L"
  | (rec) "mem s (p - kRedzone cfg) = CHUNK_MEMALIGN"
      "mem s (p - kRedzone cfg + 8) = PtrToChunk cfg (mem s) p"
      "p - kRedzone cfg \<in> payload (mem s) (PtrToChunk cfg (mem s) p)"
      "p - kRedzone cfg + 8 \<in> payload (mem s) (PtrToChunk cfg (mem s) p)"
      "PtrToChunk cfg (mem s) p \<in> L"
proof -
  define m where "m = PtrToChunk cfg (mem s) p"
  define x where "x = p - kRedzone cfg"
  have mL: "m \<in> L" unfolding m_def using inv v by (rule valid_ptr_live)
  from v have d: "x = m \<or> unat m + 40 \<le> unat x \<and> unat x + 16 \<le> unat m + unat (allocated_size (mem s) m)"
    by (simp add: valid_ptr_def m_def x_def)
  show ?thesis
  proof (cases "x = m")
    case True
    then show ?thesis using mL base by (simp add: m_def x_def)
  next
    case False
    with d have r: "unat m + 40 \<le> unat x" "unat x + 16 \<le> unat m + unat (allocated_size (mem s) m)"
      by simp_all
    from inv mL have "unat m + unat (allocated_size (mem s) m) \<le> 2 ^ 64"
      using heap_inv_al(4) [OF inv] by (auto simp: heap_inv_def chunks_ok_def)
    with r(2) have "unat x + 8 < 2 ^ 64" by simp
    then have "unat x + unat (8 :: addr) < 2 ^ LENGTH(64)" by simp
    then have "unat (x + 8) = unat x + unat (8 :: addr)" by (rule unat_add_lem [THEN iffD1])
    then have x8: "unat (x + 8) = unat x + 8" by simp
    from False have tag: "mem s x = CHUNK_MEMALIGN" and pay: "mem s (x + 8) = m"
      by (auto simp: m_def x_def PtrToChunk_def Let_def chunk_state_def split: if_splits)
    have "x \<in> payload (mem s) m" "x + 8 \<in> payload (mem s) m"
      using r x8 by (simp_all add: payload_def)
    then show ?thesis using tag pay mL rec by (simp add: m_def x_def)
  qed
qed

lemma PtrToChunk_stable:
  assumes inv: "heap_inv cfg s C L qs" and v: "valid_ptr cfg s p"
    and keep: "\<forall>a\<in>payload (mem s) (PtrToChunk cfg (mem s) p). h a = mem s a"
    and st: "chunk_state h (PtrToChunk cfg (mem s) p) \<noteq> CHUNK_MEMALIGN"
  shows "PtrToChunk cfg h p = PtrToChunk cfg (mem s) p"
  using inv v
proof (cases rule: valid_ptr_cases)
  case base
  then show ?thesis using st by (simp add: PtrToChunk_def Let_def)
next
  case rec
  from keep rec(1-4) have "h (p - kRedzone cfg) = CHUNK_MEMALIGN"
    "h (p - kRedzone cfg + 8) = PtrToChunk cfg (mem s) p"
    by simp_all
  then show ?thesis by (simp add: PtrToChunk_def [of cfg h] Let_def chunk_state_def)
qed

lemma double_free:
  assumes inv: "heap_inv cfg s C L qs" and v: "valid_ptr cfg s p"
    and d: "Deallocate cfg p s = Inr s'"
  shows "Deallocate cfg p s' = Inl CheckFailed"
proof -
  define m where "m = PtrToChunk cfg (mem s) p"
  have mL: "m \<in> L" unfolding m_def using inv v by (rule valid_ptr_live)
  from v have p0: "p \<noteq> 0" by (simp add: valid_ptr_def)
  note al = heap_inv_al [OF inv]
  have mC: "m \<in> C" using mL al(4) by auto
  from Deallocate_heap_inv [OF inv mL [unfolded m_def] p0 d] obtain n where
    st: "\<forall>c\<in>C. chunk_state (mem s') c
            = (if c \<in> set (drop n (m # qs)) then CHUNK_AVAILABLE
               else if c = m then CHUNK_QUARANTINE else chunk_state (mem s) c)"
    unfolding m_def by blast
  then have ms: "chunk_state (mem s') m = CHUNK_AVAILABLE \<or> chunk_state (mem s') m = CHUNK_QUARANTINE"
    using mC by auto
  from inv have ck: "chunks_ok cfg (mem s) C" by (simp add: heap_inv_def)
  from inv have wf: "wf_config cfg" by (simp add: heap_inv_def)
  have keep: "\<forall>a\<in>payload (mem s) (PtrToChunk cfg (mem s) p). mem s' a = mem s a"
  proof
    fix a assume "a \<in> payload (mem s) (PtrToChunk cfg (mem s) p)"
    with wf ck mC have "a \<notin> hdr C" unfolding m_def by (rule payload_not_hdr)
    with inv mL [unfolded m_def] p0 d show "mem s' a = mem s a" by (rule Deallocate_frame)
  qed
  have "PtrToChunk cfg (mem s') p = m"
    unfolding m_def
    by (rule PtrToChunk_stable [OF inv v keep]) (use ms in \<open>auto simp: m_def\<close>)
  moreover have "chunk_state (mem s') m \<noteq> CHUNK_ALLOCATED" using ms by auto
  ultimately show ?thesis using p0 by (simp add: Deallocate_def Let_def CHECK_def)
qed

subsection \<open>\<^verbatim>\<open>Allocate\<close> with no alignment\<close>

lemma unat_add_of_nat:
  assumes "unat (a::addr) + j < 2 ^ 64"
  shows "unat (a + of_nat j) = unat a + j"
proof -
  from assms have "j < 2 ^ LENGTH(64)" by simp
  then have j: "unat (of_nat j :: addr) = j" by (simp add: unat_of_nat)
  from assms have "unat a + unat (of_nat j :: addr) < 2 ^ LENGTH(64)" by (simp add: j)
  then have "unat (a + of_nat j) = unat a + unat (of_nat j :: addr)"
    by (rule unat_add_lem [THEN iffD1])
  then show ?thesis by (simp add: j)
qed

text \<open>With no alignment asked for, a request that is served fits its chunk.\<close>

lemma Allocate0_size:
  assumes wf: "wf_config cfg" and r: "RoundUptoPowerOfTwo (needed_size cfg 0 n) = Inr y"
    and y: "kMinAllocSize cfg \<le> y"
  shows "unat n + unat (kRedzone cfg) \<le> unat y"
proof -
  from wf obtain e j where e: "7 \<le> e" "e \<le> j" "j \<le> 50"
    "kRedzone cfg = 2 ^ (e - 1)" "kMinAllocSize cfg = 2 ^ e"
    by (auto elim: wf_config_exp)
  define R where "R = (2::nat) ^ (e - 1)"
  define W where "W = (2::nat) ^ 64"
  define N where "N = unat n"
  define x where "x = needed_size cfg 0 n"
  have uR: "unat (kRedzone cfg) = R" unfolding e(4) R_def by (rule unat_exp) (use e in simp)
  have "(2::nat) ^ (e - 1) < 2 ^ 64" by (rule power_strict_increasing) (use e in simp_all)
  then have RW: "R < W" by (simp add: R_def W_def)
  have R0: "0 < R" by (simp add: R_def)
  have NW: "N < W" unfolding N_def W_def using unsigned_less [of n] by simp
  have xe: "x = RoundUptoRedzone cfg n + kRedzone cfg"
    by (simp add: x_def needed_size_def Let_def)
  from RoundUptoPowerOfTwo_Inr [OF r] obtain k where k: "k < 64" "y = 2 ^ k" "x \<le> y"
    and least: "\<forall>j<64. x \<le> 2 ^ j \<longrightarrow> y \<le> 2 ^ j"
    unfolding x_def by blast
  have big: "R < unat x"
  proof (rule ccontr)
    assume "\<not> R < unat x"
    then have "x \<le> 2 ^ (e - 1)" using uR e(4) by (simp add: word_le_nat_alt)
    moreover have "e - 1 < 64" using e by simp
    ultimately have "y \<le> 2 ^ (e - 1)" using least by blast
    with y e(5) have "(2::addr) ^ e \<le> 2 ^ (e - 1)" by simp
    then have "e \<le> e - 1" using exp_le_addr [of e "e - 1"] e by simp
    with e(1) show False by simp
  qed
  have k0: "kRedzone cfg \<noteq> 0" using uR R0 by auto
  have t: "unat (n + kRedzone cfg - 1) = (N + (R - 1)) mod W"
  proof -
    have a: "n + kRedzone cfg - 1 = n + (kRedzone cfg - 1)" by simp
    have b: "unat (kRedzone cfg - 1) = R - 1" using k0 by (simp add: unat_minus_one uR)
    have "unat (n + (kRedzone cfg - 1))
        = (unat n + unat (kRedzone cfg - 1)) mod 2 ^ LENGTH(64)"
      by (simp add: unat_word_ariths)
    then show ?thesis unfolding a b by (simp add: N_def W_def)
  qed
  define q where "q = ((N + (R - 1)) mod W) div R"
  have qR: "q * R \<le> (N + (R - 1)) mod W" by (simp add: q_def)
  have "(N + (R - 1)) mod W < W" by (simp add: W_def)
  with qR have qW: "q * R < W" by simp
  have uq: "unat ((n + kRedzone cfg - 1) div kRedzone cfg) = q"
    by (simp add: unat_div t uR q_def)
  have "unat (RoundUptoRedzone cfg n)
      = (unat ((n + kRedzone cfg - 1) div kRedzone cfg) * unat (kRedzone cfg)) mod 2 ^ LENGTH(64)"
    unfolding RoundUptoRedzone_def by (rule unat_word_ariths(2))
  then have "unat (RoundUptoRedzone cfg n) = (q * R) mod 2 ^ LENGTH(64)"
    unfolding uq uR .
  then have ur: "unat (RoundUptoRedzone cfg n) = q * R" using qW by (simp add: W_def)
  have "unat x = (unat (RoundUptoRedzone cfg n) + unat (kRedzone cfg)) mod 2 ^ LENGTH(64)"
    unfolding xe by (rule unat_word_ariths(1))
  then have "unat x = (q * R + R) mod 2 ^ LENGTH(64)"
    unfolding ur uR .
  then have ux: "unat x = (q * R + R) mod W" by (simp add: W_def)
  have "N + R \<le> unat x"
  proof (cases "N + (R - 1) < W")
    case True
    then have m: "(N + (R - 1)) mod W = N + (R - 1)" by simp
    have "(N + (R - 1)) mod R < R" using R0 by simp
    moreover have "q * R + (N + (R - 1)) mod R = N + (R - 1)"
      unfolding q_def m by simp
    ultimately have qN: "N \<le> q * R" by linarith
    show ?thesis
    proof (cases "q * R + R < W")
      case True
      then show ?thesis using ux qN by simp
    next
      case False
      then have "(q * R + R) mod W = q * R + R - W"
        using qW RW by (simp add: mod_if)
      with ux qW have "unat x \<le> R" by simp
      with big show ?thesis by simp
    qed
  next
    case False
    then have "(N + (R - 1)) mod W = N + (R - 1) - W"
      using NW RW by (simp add: mod_if)
    moreover have "N + (R - 1) - W < R" using NW R0 by linarith
    ultimately have "q = 0" by (simp add: q_def)
    with ux RW have "unat x = R" by simp
    with big show ?thesis by simp
  qed
  moreover have "unat x \<le> unat y" using k(3) by (simp add: word_le_nat_alt)
  ultimately show ?thesis by (simp add: N_def uR)
qed

lemma Allocate0_heap_inv:
  assumes inv: "heap_inv cfg s C L qs" and ok: "os_ok cfg s os"
    and al: "Allocate cfg os 0 n s = Inr (p, s')" and n: "n \<noteq> 0"
  shows "\<exists>C' m. C \<subseteq> C' \<and> heap_inv cfg s' C' (insert m L) qs \<and> m \<in> C' \<and> m \<notin> L
      \<and> p = m + kRedzone cfg \<and> quarantine_size s' = quarantine_size s
      \<and> (\<forall>c\<in>C. allocated_size (mem s') c = allocated_size (mem s) c)
      \<and> (\<forall>c\<in>C. \<forall>a\<in>payload (mem s) c. mem s' a = mem s a)
      \<and> unat n + unat (kRedzone cfg) \<le> unat (allocated_size (mem s') m)
      \<and> malloced_items s' = m"
proof -
  from inv have wf: "wf_config cfg" by (simp add: heap_inv_def)
  from Allocate_Inr_cases [OF al n] obtain sz' m s1 s2 where
    ru: "RoundUptoPowerOfTwo (needed_size cfg 0 n) = Inr sz'" and
    szA: "kMinAllocSize cfg \<le> sz'" and
    ac: "AllocateChunk cfg os sz' s = Inr (m, s1)" and
    az1: "allocated_size (mem s1) m = sz'" and
    pl: "place cfg 0 m (set_used_size m n s1) = Inr (p, s2)" and
    po: "PoisonShadow cfg p (RoundUptoRedzone cfg n) 0 s2 = Inr s'"
    by blast
  from pl have p: "p = m + kRedzone cfg" and s2: "s2 = set_used_size m n s1"
    by (simp_all add: place_no_alignment)
  from AllocateChunk_heap_inv [OF inv ok szA ac] obtain C' where
    C': "C \<subseteq> C'" "heap_inv cfg s1 C' (insert m L) qs" "m \<in> C'" "m \<notin> L"
    "malloced_items s1 = m" "quarantine_size s1 = quarantine_size s"
    "\<forall>c\<in>C. allocated_size (mem s1) c = allocated_size (mem s) c"
    "\<forall>c\<in>C. \<forall>a\<in>payload (mem s) c. mem s1 a = mem s a"
    by blast
  note a1 = heap_inv_al [OF C'(2)]
  have alm: "al m" using a1(1) C'(3) by auto
  from C'(2) have ck: "chunks_ok cfg (mem s1) C'" by (simp add: heap_inv_def)
  note e = PoisonShadow_Inr [OF po]
  have f: "\<forall>c\<in>C'. chunk_state (mem s') c = chunk_state (mem s1) c
              \<and> allocated_size (mem s') c = allocated_size (mem s1) c
              \<and> next_of (mem s') c = next_of (mem s1) c
              \<and> prev_of (mem s') c = prev_of (mem s1) c"
    using a1(1) alm by (simp add: e s2)
  have "heap_inv cfg s' C' (insert m L) qs"
    by (rule heap_inv_frame [OF C'(2) f]) (simp_all add: e s2)
  moreover have "quarantine_size s' = quarantine_size s" using e C'(6) by (simp add: s2)
  moreover have "\<forall>c\<in>C. allocated_size (mem s') c = allocated_size (mem s) c"
    using f C'(1,7) by auto
  moreover have "\<forall>c\<in>C. \<forall>a\<in>payload (mem s) c. mem s' a = mem s a"
  proof (intro ballI)
    fix c a assume c: "c \<in> C" and a: "a \<in> payload (mem s) c"
    from a C'(7) c have "a \<in> payload (mem s1) c" by (simp add: payload_def)
    moreover from c C'(1) have "c \<in> C'" by auto
    ultimately have "a \<notin> hdr C'" using wf ck by (intro payload_not_hdr)
    then have "a \<noteq> m + 16" using C'(3) by (rule off_hdr)
    then have "mem s' a = mem s1 a" by (simp add: e s2 mem_set_field)
    then show "mem s' a = mem s a" using C'(8) c a by simp
  qed
  moreover have "unat n + unat (kRedzone cfg) \<le> unat (allocated_size (mem s') m)"
    using Allocate0_size [OF wf ru szA] f C'(3) az1 by simp
  moreover have "malloced_items s' = m" using e C'(5) by (simp add: s2)
  ultimately show ?thesis using C'(1,3,4) p by blast
qed

subsection \<open>Copying into a fresh chunk\<close>

lemma copy_fold_frame:
  assumes "\<forall>i<k. a \<noteq> dst + 8 * of_nat i"
  shows "mem (fold (\<lambda>i t. store (dst + 8 * of_nat i) (mem t (src + 8 * of_nat i)) t) [0 ..< k] s) a
           = mem s a"
  using assms by (induction k) (simp_all add: store_def)

lemma copy_fold_globals:
  "mapped (fold (\<lambda>i t. store (dst + 8 * of_nat i) (mem t (src + 8 * of_nat i)) t) [0 ..< k] s)
     = mapped s
   \<and> malloced_items (fold (\<lambda>i t. store (dst + 8 * of_nat i) (mem t (src + 8 * of_nat i)) t) [0 ..< k] s)
     = malloced_items s
   \<and> quarantine (fold (\<lambda>i t. store (dst + 8 * of_nat i) (mem t (src + 8 * of_nat i)) t) [0 ..< k] s)
     = quarantine s
   \<and> quarantine_size (fold (\<lambda>i t. store (dst + 8 * of_nat i) (mem t (src + 8 * of_nat i)) t) [0 ..< k] s)
     = quarantine_size s
   \<and> chunks (fold (\<lambda>i t. store (dst + 8 * of_nat i) (mem t (src + 8 * of_nat i)) t) [0 ..< k] s)
     = chunks s"
  by (induction k) (simp_all add: store_def)

lemma asan_copy_mem_Inr:
  assumes "asan_copy_mem dst src k s = Inr s'"
  shows "\<forall>a. (\<forall>i<unat k. a \<noteq> dst + 8 * of_nat i) \<longrightarrow> mem s' a = mem s a"
    and "mapped s' = mapped s" and "malloced_items s' = malloced_items s"
    and "quarantine s' = quarantine s" and "quarantine_size s' = quarantine_size s"
    and "chunks s' = chunks s"
  using assms copy_fold_globals [of dst src "unat k" s]
  by (auto simp: asan_copy_mem_def CHECK_Inr_iff copy_fold_frame)

subsection \<open>\<^verbatim>\<open>Reallocate\<close> and the reachable states\<close>

lemma Reallocate_heap_inv:
  assumes inv: "heap_inv cfg s C L qs" and ok: "os_ok cfg s os" and v: "valid_ptr cfg s p"
    and n: "n \<noteq> 0" and r: "Reallocate cfg os p n s = Inr (q, s')"
  shows "\<exists>C' L' qs' m'. heap_inv cfg s' C' L' qs'
      \<and> quarantine_size s' \<le> flag_quarantine_size cfg
      \<and> q = m' + kRedzone cfg \<and> m' \<in> L' \<and> malloced_items s' = m'
      \<and> chunk_state (mem s') (PtrToChunk cfg (mem s) p) \<noteq> CHUNK_ALLOCATED"
proof -
  from inv have wf: "wf_config cfg" by (simp add: heap_inv_def)
  define m where "m = PtrToChunk cfg (mem s) p"
  define k where "k = (min n (used_size (mem s) m) + kWordSize - 1) div kWordSize"
  from v have p0: "p \<noteq> 0" by (simp add: valid_ptr_def)
  have mL: "m \<in> L" unfolding m_def using inv v by (rule valid_ptr_live)
  note al0 = heap_inv_al [OF inv]
  have mC: "m \<in> C" using mL al0(4) by auto
  from r p0 n obtain s1 s2 s3 where
    a: "Allocate cfg os 0 n s = Inr (q, s1)" and
    c: "asan_copy_mem q p k s1 = Inr s2" and
    d: "Deallocate cfg p s2 = Inr s3" and
    s': "s' = s3\<lparr>stat_reallocs := stat_reallocs s3 + 1,
                 stat_realloced := stat_realloced s3 + min n (used_size (mem s) m)\<rparr>"
    by (auto simp: Reallocate_def Let_def CHECK_Inr_iff bind_r_Inr_iff m_def k_def
          split: prod.splits)
  from Allocate0_heap_inv [OF inv ok a n] obtain C' m' where
    C': "C \<subseteq> C'" "heap_inv cfg s1 C' (insert m' L) qs" "m' \<in> C'" "m' \<notin> L"
    "q = m' + kRedzone cfg" "quarantine_size s1 = quarantine_size s"
    "\<forall>c\<in>C. allocated_size (mem s1) c = allocated_size (mem s) c"
    "\<forall>c\<in>C. \<forall>a\<in>payload (mem s) c. mem s1 a = mem s a"
    "unat n + unat (kRedzone cfg) \<le> unat (allocated_size (mem s1) m')"
    "malloced_items s1 = m'"
    by blast
  note al1 = heap_inv_al [OF C'(2)]
  from C'(2) have ck1: "chunks_ok cfg (mem s1) C'" by (simp add: heap_inv_def)
  note cp = asan_copy_mem_Inr [OF c]
  from wf obtain e j where e: "7 \<le> e" "unat (kRedzone cfg) = 2 ^ (e - 1)"
    by (auto elim: wf_config_unat)
  define R where "R = unat (kRedzone cfg)"
  have "(2::nat) ^ 6 \<le> 2 ^ (e - 1)" by (rule power_increasing) (use e in simp_all)
  then have R64: "64 \<le> R" by (simp add: R_def e(2))
  have top: "unat m' + unat (allocated_size (mem s1) m') \<le> 2 ^ 64"
    using ck1 C'(3) by (simp add: chunks_ok_def)
  have fit: "unat n + R \<le> unat (allocated_size (mem s1) m')" using C'(9) by (simp add: R_def)
  have w: "q + 8 * of_nat i \<in> payload (mem s1) m'" if i: "i < unat k" for i
  proof -
    define mc where "mc = min n (used_size (mem s) m)"
    have mcn: "unat mc \<le> unat n" by (simp add: mc_def word_le_nat_alt [symmetric])
    have "unat mc + 7 < 2 ^ 64" using mcn fit top R64 by simp
    then have "unat mc + unat (7 :: addr) < 2 ^ LENGTH(64)" by simp
    then have "unat (mc + 7) = unat mc + unat (7 :: addr)" by (rule unat_add_lem [THEN iffD1])
    then have u7: "unat (mc + 7) = unat mc + 7" by simp
    have k7: "k = (mc + 7) div 8" by (simp add: k_def mc_def kWordSize_def add.commute)
    have "unat k = unat (mc + 7) div unat (8 :: addr)" unfolding k7 by (rule unat_div)
    then have "unat k = (unat mc + 7) div 8" unfolding u7 by simp
    with i have i8: "8 * i < unat mc" by simp
    have qe: "q + 8 * of_nat i = m' + of_nat (R + 8 * i)"
      by (simp add: C'(5) R_def)
    have "unat (m' + of_nat (R + 8 * i)) = unat m' + (R + 8 * i)"
      by (rule unat_add_of_nat) (use i8 mcn fit top in simp)
    then have "unat (q + 8 * of_nat i) = unat m' + R + 8 * i" unfolding qe by simp
    then show ?thesis using R64 i8 mcn fit by (simp add: payload_def)
  qed
  have keep1: "mem s2 a = mem s1 a" if "a \<in> hdr C'" for a
  proof -
    have "a \<noteq> q + 8 * of_nat i" if "i < unat k" for i
      using payload_not_hdr [OF wf ck1 C'(3) w [OF that]] \<open>a \<in> hdr C'\<close> by auto
    then show ?thesis using cp(1) by simp
  qed
  have f: "\<forall>c\<in>C'. chunk_state (mem s2) c = chunk_state (mem s1) c
              \<and> allocated_size (mem s2) c = allocated_size (mem s1) c
              \<and> next_of (mem s2) c = next_of (mem s1) c
              \<and> prev_of (mem s2) c = prev_of (mem s1) c"
    using keep1 by (auto simp: field_defs hdr_def)
  have inv2: "heap_inv cfg s2 C' (insert m' L) qs"
    by (rule heap_inv_frame [OF C'(2) f]) (simp_all add: cp)
  have mm: "m \<noteq> m'" using mL C'(4) by auto
  have keep: "\<forall>a\<in>payload (mem s) (PtrToChunk cfg (mem s) p). mem s2 a = mem s a"
  proof
    fix a assume a: "a \<in> payload (mem s) (PtrToChunk cfg (mem s) p)"
    then have a1: "a \<in> payload (mem s1) m" using C'(7) mC by (simp add: payload_def m_def)
    have "a \<noteq> q + 8 * of_nat i" if "i < unat k" for i
      using payload_disjoint [OF ck1 C'(3) _ mm w [OF that]] mC C'(1) a1 by auto
    then have "mem s2 a = mem s1 a" using cp(1) by simp
    then show "mem s2 a = mem s a" using C'(8) mC a by (simp add: m_def)
  qed
  from inv2 have "live_ok (mem s2) C' (insert m' L) (malloced_items s2)"
    by (simp add: heap_inv_def)
  then have "chunk_state (mem s2) m = CHUNK_ALLOCATED" using mL by (simp add: live_ok_def)
  then have "chunk_state (mem s2) (PtrToChunk cfg (mem s) p) \<noteq> CHUNK_MEMALIGN"
    by (simp add: m_def)
  with inv v keep have pc: "PtrToChunk cfg (mem s2) p = PtrToChunk cfg (mem s) p"
    by (rule PtrToChunk_stable)
  then have in2: "PtrToChunk cfg (mem s2) p \<in> insert m' L" using mL by (simp add: m_def)
  from Deallocate_heap_inv [OF inv2 in2 p0 d] obtain i where
    i3: "heap_inv cfg s3 C' (insert m' L - {PtrToChunk cfg (mem s2) p})
               (take i (PtrToChunk cfg (mem s2) p # qs))"
    and q3: "quarantine_size s3 \<le> flag_quarantine_size cfg"
    and st3: "\<forall>c\<in>C'. chunk_state (mem s3) c
            = (if c \<in> set (drop i (PtrToChunk cfg (mem s2) p # qs)) then CHUNK_AVAILABLE
               else if c = PtrToChunk cfg (mem s2) p then CHUNK_QUARANTINE
               else chunk_state (mem s2) c)"
    by blast
  have "heap_inv cfg s' C' L' qs' = heap_inv cfg s3 C' L' qs'" for L' qs'
    by (rule heap_inv_state_cong) (simp_all add: s')
  with i3 have "heap_inv cfg s' C' (insert m' L - {PtrToChunk cfg (mem s2) p})
               (take i (PtrToChunk cfg (mem s2) p # qs))" by simp
  moreover have "quarantine_size s' \<le> flag_quarantine_size cfg" using q3 by (simp add: s')
  moreover have "m' \<in> insert m' L - {PtrToChunk cfg (mem s2) p}"
    using mm by (simp add: pc m_def)
  moreover have "malloced_items s' = m'"
  proof -
    have "PtrToChunk cfg (mem s2) p \<noteq> malloced_items s2"
      using mm cp(3) C'(10) by (simp add: pc m_def)
    from Deallocate_head [OF inv2 in2 p0 d this] show ?thesis
      using cp(3) C'(10) by (simp add: s')
  qed
  moreover have "chunk_state (mem s') (PtrToChunk cfg (mem s) p) \<noteq> CHUNK_ALLOCATED"
  proof -
    have "m \<in> C'" using mC C'(1) by auto
    with st3 have "chunk_state (mem s3) m = CHUNK_AVAILABLE
        \<or> chunk_state (mem s3) m = CHUNK_QUARANTINE"
      by (auto simp: pc m_def)
    then show ?thesis by (auto simp: s' m_def)
  qed
  ultimately show ?thesis using C'(5) by blast
qed

subsection \<open>\<^verbatim>\<open>__asan_calloc\<close>\<close>

lemma clear_fold_frame:
  assumes "\<forall>i<k. a \<noteq> dst + 8 * of_nat i"
  shows "mem (fold (\<lambda>i. store (dst + 8 * of_nat i) 0) [0 ..< k] s) a = mem s a"
  using assms by (induction k) (simp_all add: store_def)

lemma clear_fold_globals:
  "mapped (fold (\<lambda>i. store (dst + 8 * of_nat i) 0) [0 ..< k] s) = mapped s
   \<and> malloced_items (fold (\<lambda>i. store (dst + 8 * of_nat i) 0) [0 ..< k] s) = malloced_items s
   \<and> quarantine (fold (\<lambda>i. store (dst + 8 * of_nat i) 0) [0 ..< k] s) = quarantine s
   \<and> quarantine_size (fold (\<lambda>i. store (dst + 8 * of_nat i) 0) [0 ..< k] s) = quarantine_size s
   \<and> chunks (fold (\<lambda>i. store (dst + 8 * of_nat i) 0) [0 ..< k] s) = chunks s"
  by (induction k) (simp_all add: store_def)

lemma asan_clear_mem_Inr:
  assumes "asan_clear_mem dst k s = Inr s'"
  shows "\<forall>a. (\<forall>i<unat k. a \<noteq> dst + 8 * of_nat i) \<longrightarrow> mem s' a = mem s a"
    and "mapped s' = mapped s" and "malloced_items s' = malloced_items s"
    and "quarantine s' = quarantine s" and "quarantine_size s' = quarantine_size s"
    and "chunks s' = chunks s"
  using assms clear_fold_globals [of dst "unat k" s]
  by (auto simp: asan_clear_mem_def CHECK_Inr_iff clear_fold_frame)

lemma words_in_payload:
  assumes wf: "wf_config cfg" and top: "unat m + unat (allocated_size h m) \<le> 2 ^ 64"
    and fit: "unat n + unat (kRedzone cfg) \<le> unat (allocated_size h m)"
    and i: "i < unat ((n + kWordSize - 1) div kWordSize)"
  shows "m + kRedzone cfg + 8 * of_nat i \<in> payload h m"
proof -
  from wf obtain e j where e: "7 \<le> e" "unat (kRedzone cfg) = 2 ^ (e - 1)"
    by (auto elim: wf_config_unat)
  define R where "R = unat (kRedzone cfg)"
  have "(2::nat) ^ 6 \<le> 2 ^ (e - 1)" by (rule power_increasing) (use e in simp_all)
  then have R64: "64 \<le> R" by (simp add: R_def e(2))
  have "unat n + 7 < 2 ^ 64" using fit top R64 by (simp add: R_def)
  then have "unat n + unat (7 :: addr) < 2 ^ LENGTH(64)" by simp
  then have "unat (n + 7) = unat n + unat (7 :: addr)" by (rule unat_add_lem [THEN iffD1])
  then have u7: "unat (n + 7) = unat n + 7" by simp
  have k7: "(n + kWordSize - 1) div kWordSize = (n + 7) div 8"
    by (simp add: kWordSize_def add.commute)
  have "unat ((n + 7) div 8) = unat (n + 7) div unat (8 :: addr)" by (rule unat_div)
  then have "unat ((n + kWordSize - 1) div kWordSize) = (unat n + 7) div 8"
    unfolding k7 u7 by simp
  with i have i8: "8 * i < unat n" by simp
  have qe: "m + kRedzone cfg + 8 * of_nat i = m + of_nat (R + 8 * i)"
    by (simp add: R_def)
  have "unat (m + of_nat (R + 8 * i)) = unat m + (R + 8 * i)"
    by (rule unat_add_of_nat) (use i8 fit top in \<open>simp add: R_def\<close>)
  then have "unat (m + kRedzone cfg + 8 * of_nat i) = unat m + R + 8 * i" unfolding qe by simp
  then show ?thesis using R64 i8 fit by (simp add: payload_def R_def)
qed

lemma calloc_heap_inv:
  assumes inv: "heap_inv cfg s C L qs" and ok: "os_ok cfg s os"
    and c: "asan_calloc cfg os k n s = Inr (p, s')"
  shows "\<exists>C' L'. heap_inv cfg s' C' L' qs \<and> quarantine_size s' = quarantine_size s"
proof -
  from inv have wf: "wf_config cfg" by (simp add: heap_inv_def)
  from c obtain s1 where
    a: "Allocate cfg os 0 (k * n) s = Inr (p, s1)" and
    z: "asan_clear_mem p ((k * n + kWordSize - 1) div kWordSize) s1 = Inr s'"
    by (auto simp: asan_calloc_def bind_r_Inr_iff split: prod.splits)
  note cl = asan_clear_mem_Inr [OF z]
  show ?thesis
  proof (cases "k * n = 0")
    case True
    with a have "p = 0" "s1 = s" by (simp_all add: Allocate_def)
    with z True have "s' = s" by (simp add: asan_clear_mem_def CHECK_Inr_iff kWordSize_def)
    with inv show ?thesis by blast
  next
    case False
    from Allocate0_heap_inv [OF inv ok a False] obtain C' m' where
      C': "heap_inv cfg s1 C' (insert m' L) qs" "m' \<in> C'"
      "p = m' + kRedzone cfg" "quarantine_size s1 = quarantine_size s"
      "unat (k * n) + unat (kRedzone cfg) \<le> unat (allocated_size (mem s1) m')"
      by blast
    from C'(1) have ck1: "chunks_ok cfg (mem s1) C'" by (simp add: heap_inv_def)
    have top: "unat m' + unat (allocated_size (mem s1) m') \<le> 2 ^ 64"
      using ck1 C'(2) by (simp add: chunks_ok_def)
    have keep1: "mem s' a = mem s1 a" if "a \<in> hdr C'" for a
    proof -
      have "a \<noteq> p + 8 * of_nat i" if "i < unat ((k * n + kWordSize - 1) div kWordSize)" for i
        using payload_not_hdr [OF wf ck1 C'(2) words_in_payload [OF wf top C'(5) that]]
          \<open>a \<in> hdr C'\<close> unfolding C'(3) by auto
      then show ?thesis using cl(1) by simp
    qed
    have f: "\<forall>c\<in>C'. chunk_state (mem s') c = chunk_state (mem s1) c
              \<and> allocated_size (mem s') c = allocated_size (mem s1) c
              \<and> next_of (mem s') c = next_of (mem s1) c
              \<and> prev_of (mem s') c = prev_of (mem s1) c"
      using keep1 by (auto simp: field_defs hdr_def)
    have "heap_inv cfg s' C' (insert m' L) qs"
      by (rule heap_inv_frame [OF C'(1) f]) (simp_all add: cl)
    then show ?thesis using cl(5) C'(4) by auto
  qed
qed

lemma init_heap_inv:
  assumes "wf_config cfg"
  shows "heap_inv cfg init_state {} {} []"
  using assms
  by (simp add: heap_inv_def chunks_ok_def covered_def live_ok_def ring_ok_def free_ok_def
      quarantine_ring_def init_state_def)

lemma reachable_heap_inv:
  assumes "reachable cfg s"
  shows "\<exists>C L qs. heap_inv cfg s C L qs \<and> quarantine_size s \<le> flag_quarantine_size cfg"
  using assms
proof (induction rule: reachable.induct)
  case init
  then show ?case using init_heap_inv [of cfg] by (auto simp: init_state_def)
next
  case (allocate s os a n p s')
  then obtain C L qs where i: "heap_inv cfg s C L qs"
    "quarantine_size s \<le> flag_quarantine_size cfg" by blast
  show ?case
  proof (cases "n = 0")
    case True
    with allocate.hyps(3) have "s' = s" by (simp add: Allocate_def)
    with i show ?thesis by blast
  next
    case False
    from Allocate_heap_inv [OF i(1) allocate.hyps(2,3) False] i(2) show ?thesis by auto
  qed
next
  case (deallocate s p s')
  then obtain C L qs where i: "heap_inv cfg s C L qs"
    "quarantine_size s \<le> flag_quarantine_size cfg" by blast
  show ?case
  proof (cases "p = 0")
    case True
    with deallocate.hyps(3) have "s' = s" by (simp add: Deallocate_def)
    with i show ?thesis by blast
  next
    case False
    with deallocate.hyps(2) have v: "valid_ptr cfg s p" by simp
    from Deallocate_heap_inv [OF i(1) valid_ptr_live [OF i(1) v] False deallocate.hyps(3)]
    show ?thesis by blast
  qed
next
  case (reallocate s os p n q s')
  then obtain C L qs where i: "heap_inv cfg s C L qs"
    "quarantine_size s \<le> flag_quarantine_size cfg" by blast
  show ?case
  proof (cases "p = 0")
    case True
    with reallocate.hyps(4) have a: "Allocate cfg os 0 n s = Inr (q, s')"
      by (simp add: Reallocate_def)
    show ?thesis
    proof (cases "n = 0")
      case True
      with a have "s' = s" by (simp add: Allocate_def)
      with i show ?thesis by blast
    next
      case False
      from Allocate_heap_inv [OF i(1) reallocate.hyps(2) a False] i(2) show ?thesis by auto
    qed
  next
    case False
    with reallocate.hyps(3) have v: "valid_ptr cfg s p" by simp
    show ?thesis
    proof (cases "n = 0")
      case True
      with reallocate.hyps(4) False have "s' = s" by (simp add: Reallocate_def)
      with i show ?thesis by blast
    next
      case False
      from Reallocate_heap_inv [OF i(1) reallocate.hyps(2) v False reallocate.hyps(4)]
      show ?thesis by blast
    qed
  qed
next
  case (calloc s os k n p s')
  then obtain C L qs where i: "heap_inv cfg s C L qs"
    "quarantine_size s \<le> flag_quarantine_size cfg" by blast
  from calloc_heap_inv [OF i(1) calloc.hyps(2,3)] i(2) show ?case by auto
qed

subsection \<open>The ring is determined by the heap\<close>

lemma dchain_nth:
  "dchain h xs \<Longrightarrow> Suc i < length xs \<Longrightarrow> xs ! Suc i = next_of h (xs ! i)"
proof (induction xs arbitrary: i)
  case Nil
  then show ?case by simp
next
  case (Cons x xs)
  show ?case
  proof (cases i)
    case 0
    with Cons.prems have "xs \<noteq> []" by auto
    with Cons.prems(1) have "next_of h x = hd xs" by (simp add: dchain_Cons)
    with \<open>xs \<noteq> []\<close> 0 show ?thesis by (simp add: hd_conv_nth)
  next
    case (Suc j)
    with Cons show ?thesis by (simp add: dchain_Cons)
  qed
qed

lemma dchain_agree:
  assumes "dchain h xs" and "dchain h ys" and "xs \<noteq> []" and "ys \<noteq> []" and "hd xs = hd ys"
  shows "i < length xs \<Longrightarrow> i < length ys \<Longrightarrow> xs ! i = ys ! i"
proof (induction i)
  case 0
  with assms(3-5) show ?case by (simp add: hd_conv_nth)
next
  case (Suc i)
  then have "xs ! i = ys ! i" by simp
  moreover have "xs ! Suc i = next_of h (xs ! i)" using assms(1) Suc.prems(1) by (rule dchain_nth)
  moreover have "ys ! Suc i = next_of h (ys ! i)" using assms(2) Suc.prems(2) by (rule dchain_nth)
  ultimately show ?case by simp
qed

lemma quarantine_ring_length:
  assumes x: "quarantine_ring h q xs" and y: "quarantine_ring h q ys"
    and nx: "xs \<noteq> []" and ny: "ys \<noteq> []"
  shows "length ys \<le> length xs"
proof (rule ccontr)
  assume "\<not> length ys \<le> length xs"
  then have lt: "length xs < length ys" by simp
  define n where "n = length xs - 1"
  have n: "Suc n = length xs" using nx by (simp add: n_def)
  from x y nx ny have dx: "dchain h xs" and dy: "dchain h ys" and hh: "hd xs = hd ys"
    and cl: "next_of h (last xs) = hd xs" and di: "distinct ys"
    by (auto simp: quarantine_ring_def)
  have "ys ! Suc n = next_of h (ys ! n)" using dy lt n by (intro dchain_nth) simp_all
  also have "ys ! n = xs ! n" using dchain_agree [OF dx dy nx ny hh, of n] lt n by simp
  also have "xs ! n = last xs" using nx by (simp add: last_conv_nth n_def)
  also have "next_of h (last xs) = ys ! 0" using cl hh ny by (simp add: hd_conv_nth)
  finally have "ys ! Suc n = ys ! 0" .
  moreover have "Suc n < length ys" "0 < length ys" using lt n ny by simp_all
  ultimately show False using di by (simp add: nth_eq_iff_index_eq)
qed

lemma quarantine_ring_unique:
  assumes x: "quarantine_ring h q xs" and y: "quarantine_ring h q ys"
  shows "xs = ys"
proof (cases "q = 0")
  case True
  have "zs = []" if "quarantine_ring h q zs" for zs
  proof (rule ccontr)
    assume "zs \<noteq> []"
    with that have "q = hd zs" "hd zs \<in> set zs" "0 \<notin> set zs"
      by (auto simp: quarantine_ring_def)
    with True show False by simp
  qed
  from this [OF x] this [OF y] show ?thesis by simp
next
  case False
  with x y have nx: "xs \<noteq> []" and ny: "ys \<noteq> []" by (auto simp: quarantine_ring_def)
  have len: "length xs = length ys"
    using quarantine_ring_length [OF x y nx ny] quarantine_ring_length [OF y x ny nx] by simp
  from x y nx ny have dx: "dchain h xs" and dy: "dchain h ys" and hh: "hd xs = hd ys"
    by (auto simp: quarantine_ring_def)
  show ?thesis
    by (rule nth_equalityI [OF len]) (use dchain_agree [OF dx dy nx ny hh] len in simp)
qed

subsection \<open>A free that overflows the quarantine\<close>

lemma Deallocate_quarantined:
  assumes d: "Deallocate cfg p s = Inr s'" and p0: "p \<noteq> 0"
  shows "\<exists>s1. mem s1 = mem s
      \<and> chunk_state (mem (enqueue (PtrToChunk cfg (mem s) p) (unlink (PtrToChunk cfg (mem s) p) s1)))
           (PtrToChunk cfg (mem s) p) = CHUNK_QUARANTINE
      \<and> TakeChunkBack_loop cfg (enqueue (PtrToChunk cfg (mem s) p)
           (unlink (PtrToChunk cfg (mem s) p) s1)) = Inr s'"
proof -
  define m where "m = PtrToChunk cfg (mem s) p"
  from d p0 obtain s1 where
    po: "PoisonShadow cfg p (RoundUptoRedzone cfg (used_size (mem s) m)) (- 1) s = Inr s1"
    and t: "TakeChunkBack cfg m s1 = Inr s'"
    by (auto simp: Deallocate_def MallocInfo_Deallocate_def CHECK_Inr_iff bind_r_Inr_iff
          Let_def m_def)
  from t have l: "TakeChunkBack_loop cfg (enqueue m (unlink m s1)) = Inr s'"
    by (simp add: TakeChunkBack_steps CHECK_Inr_iff)
  have "chunk_state (mem (enqueue m (unlink m s1))) m = CHUNK_QUARANTINE"
    by (simp add: enqueue_def Let_def)
  with l PoisonShadow_Inr [OF po] show ?thesis unfolding m_def by blast
qed

lemma Deallocate_evicts:
  assumes inv: "heap_inv cfg s C L qs" and v: "valid_ptr cfg s p"
    and d: "Deallocate cfg p s = Inr s'"
  shows "\<exists>n. heap_inv cfg s' C (L - {PtrToChunk cfg (mem s) p})
               (take n (PtrToChunk cfg (mem s) p # qs))
      \<and> (\<forall>c\<in>set (drop n (PtrToChunk cfg (mem s) p # qs)). chunk_state (mem s') c = CHUNK_AVAILABLE)
      \<and> quarantine_size s' \<le> flag_quarantine_size cfg
      \<and> (flag_quarantine_size cfg < allocated_size (mem s) (PtrToChunk cfg (mem s) p) \<longrightarrow> n = 0)"
proof -
  define m where "m = PtrToChunk cfg (mem s) p"
  have mL: "m \<in> L" unfolding m_def using inv v by (rule valid_ptr_live)
  from v have p0: "p \<noteq> 0" by (simp add: valid_ptr_def)
  note al = heap_inv_al [OF inv]
  have mC: "m \<in> C" using mL al(4) by auto
  from Deallocate_heap_inv [OF inv mL [unfolded m_def] p0 d] obtain n where
    n: "heap_inv cfg s' C (L - {m}) (take n (m # qs))"
      "quarantine_size s' \<le> flag_quarantine_size cfg"
      "\<forall>c\<in>C. allocated_size (mem s') c = allocated_size (mem s) c"
      "\<forall>c\<in>C. chunk_state (mem s') c
            = (if c \<in> set (drop n (m # qs)) then CHUNK_AVAILABLE
               else if c = m then CHUNK_QUARANTINE else chunk_state (mem s) c)"
    unfolding m_def by blast
  have sub: "set (m # qs) \<subseteq> C" using mC al(5) by auto
  have av: "\<forall>c\<in>set (drop n (m # qs)). chunk_state (mem s') c = CHUNK_AVAILABLE"
  proof
    fix c assume c: "c \<in> set (drop n (m # qs))"
    then have "c \<in> set (m # qs)" by (rule in_set_dropD)
    with sub have "c \<in> C" by auto
    with n(4) c show "chunk_state (mem s') c = CHUNK_AVAILABLE" by simp
  qed
  have big: "n = 0" if f: "flag_quarantine_size cfg < allocated_size (mem s) m"
  proof (rule ccontr)
    assume "n \<noteq> 0"
    then obtain k where k: "n = Suc k" by (cases n) auto
    from n(1) have "unat (quarantine_size s')
        = sum_list (map (\<lambda>c. unat (allocated_size (mem s') c)) (take n (m # qs)))"
      by (simp add: heap_inv_def ring_ok_def)
    then have "unat (allocated_size (mem s') m) \<le> unat (quarantine_size s')"
      by (simp add: k)
    then have "allocated_size (mem s) m \<le> quarantine_size s'"
      using n(3) mC by (simp add: word_le_nat_alt)
    with n(2) f show False by simp
  qed
  show ?thesis using n(1,2) av big unfolding m_def by blast
qed

subsection \<open>On a heap of the invariant, freeing does not fail\<close>

lemma pop_returns:
  assumes inv: "heap_inv cfg s C L qs" and ne: "qs \<noteq> []"
  shows "\<exists>t. pop s = Inr t"
proof -
  note a = heap_inv_al [OF inv]
  from inv have wf: "wf_config cfg" and ck: "chunks_ok cfg (mem s) C"
    and rg: "ring_ok (mem s) C qs (quarantine s) (quarantine_size s)"
    by (simp_all add: heap_inv_def)
  from rg have qr: "quarantine_ring (mem s) (quarantine s) qs"
    and qst: "\<forall>c\<in>set qs. chunk_state (mem s) c = CHUNK_QUARANTINE"
    and cnt: "unat (quarantine_size s) = sum_list (map (\<lambda>c. unat (allocated_size (mem s) c)) qs)"
    by (simp_all add: ring_ok_def)
  from qr ne have q: "quarantine s = hd qs" and nl: "next_of (mem s) (last qs) = hd qs"
    and pl: "prev_of (mem s) (hd qs) = last qs" and dc: "dchain (mem s) qs"
    and di: "distinct qs" and z: "0 \<notin> set qs"
    by (auto simp: quarantine_ring_def)
  define m where "m = last qs"
  have mq: "m \<in> set qs" and hq: "hd qs \<in> set qs" using ne by (simp_all add: m_def)
  have alm: "al m" and alh: "al (hd qs)" using a(3) mq hq by auto
  have m0: "m \<noteq> 0" and h0: "hd qs \<noteq> 0" using z mq hq by auto
  have mC: "m \<in> C" using mq a(5) by auto
  from ck mC have az: "kMinAllocSize cfg \<le> allocated_size (mem s) m"
    and pw: "IsPowerOfTwo (allocated_size (mem s) m)"
    by (simp_all add: chunks_ok_def)
  have big: "128 \<le> unat (allocated_size (mem s) m)" using wf az by (rule wf_min_alloc_64)
  then have az0: "allocated_size (mem s) m \<noteq> 0" by auto
  have "unat (allocated_size (mem s) m) \<le> unat (quarantine_size s)"
    unfolding cnt m_def by (simp add: sum_list_butlast [OF ne])
  then have le: "allocated_size (mem s) m \<le> quarantine_size s" by (simp add: word_le_nat_alt)
  with az0 have qs0: "0 < quarantine_size s" by (auto simp: word_gt_0)
  have st: "chunk_state (mem s) m = CHUNK_QUARANTINE" using qst mq by simp
  have lg: "\<exists>idx. Log2 (allocated_size (mem s) m) = Inr idx"
    using pw az0 by (simp add: Log2_def CHECK_def builtin_ctzl_def)
  show ?thesis
  proof (cases "hd qs = m")
    case True
    with q pl nl alm m0 le qs0 st lg show ?thesis
      unfolding pop_def m_def [symmetric]
      by (auto simp: CHECK_Inr_iff bind_r_Inr_iff Let_def)
  next
    case False
    have len: "2 \<le> length qs"
    proof (cases qs rule: rev_cases)
      case Nil
      with ne show ?thesis by simp
    next
      case (snoc ys y)
      with False show ?thesis by (cases ys) (auto simp: m_def)
    qed
    from dchain_last [OF dc len] have pm: "prev_of (mem s) m = last (butlast qs)"
      by (simp add: m_def)
    have "butlast qs \<noteq> []" using len by (cases qs rule: rev_cases) auto
    then have "last (butlast qs) \<in> set (butlast qs)" by simp
    then have bq: "last (butlast qs) \<in> set qs" by (rule in_set_butlastD)
    then have alp: "al (last (butlast qs))" and p0: "last (butlast qs) \<noteq> 0" using a(3) z by auto
    from q pl nl pm alm alh alp False m0 h0 p0 le qs0 st lg show ?thesis
      unfolding pop_def m_def [symmetric]
      by (auto simp: CHECK_Inr_iff bind_r_Inr_iff Let_def)
  qed
qed

lemma TakeChunkBack_loop_returns:
  assumes "heap_inv cfg s C L qs"
  shows "\<exists>s'. TakeChunkBack_loop cfg s = Inr s'"
  using assms
proof (induction cfg s arbitrary: qs rule: TakeChunkBack_loop.induct)
  case (1 cfg s)
  show ?case
  proof (cases "quarantine_size s \<noteq> 0 \<and> flag_quarantine_size cfg < quarantine_size s")
    case False
    then have "TakeChunkBack_loop cfg s = Inr s" by (subst TakeChunkBack_loop.simps) auto
    then show ?thesis by blast
  next
    case True
    from "1.prems" have "unat (quarantine_size s)
        = sum_list (map (\<lambda>c. unat (allocated_size (mem s) c)) qs)"
      by (simp add: heap_inv_def ring_ok_def)
    with True have "qs \<noteq> []" by (auto simp: unat_eq_0)
    with "1.prems" obtain t where t: "pop s = Inr t" using pop_returns by blast
    note ph = pop_heap_inv [OF "1.prems" t]
    from "1.IH" [OF True t ph(2)] obtain s' where "TakeChunkBack_loop cfg t = Inr s'" by blast
    with True t show ?thesis by (subst TakeChunkBack_loop.simps) simp
  qed
qed

lemma Deallocate_returns:
  assumes inv: "heap_inv cfg s C L qs" and v: "valid_ptr cfg s p"
    and f: "0 < flag_quarantine_size cfg"
    and a1: "IsAligned p (push_bit (kShadowShift cfg) 1)"
    and a2: "IsAligned (p + RoundUptoRedzone cfg (used_size (mem s) (PtrToChunk cfg (mem s) p)))
               (push_bit (kShadowShift cfg) 1)"
  shows "\<exists>s'. Deallocate cfg p s = Inr s'"
proof -
  define m where "m = PtrToChunk cfg (mem s) p"
  have mL: "m \<in> L" unfolding m_def using inv v by (rule valid_ptr_live)
  from v have p0: "p \<noteq> 0" by (simp add: valid_ptr_def)
  from a1 a2 obtain s1 where
    po: "PoisonShadow cfg p (RoundUptoRedzone cfg (used_size (mem s) m)) (- 1) s = Inr s1"
    by (simp add: PoisonShadow_def CHECK_def Let_def m_def)
  note e = PoisonShadow_Inr [OF po]
  have inv1: "heap_inv cfg s1 C L qs"
    using inv heap_inv_state_cong [of s1 s cfg C L qs] e by simp
  note al = heap_inv_al [OF inv1]
  have mC: "m \<in> C" using mL al(4) by auto
  then have m0: "m \<noteq> 0" using al(6) by auto
  from inv1 have "live_ok (mem s1) C L (malloced_items s1)"
    and "ring_ok (mem s1) C qs (quarantine s1) (quarantine_size s1)"
    and ck: "chunks_ok cfg (mem s1) C"
    by (simp_all add: heap_inv_def)
  then have st: "chunk_state (mem s1) m = CHUNK_ALLOCATED"
    and "\<forall>c\<in>set qs. chunk_state (mem s1) c = CHUNK_QUARANTINE"
    using mL by (simp_all add: live_ok_def ring_ok_def)
  then have mq: "m \<notin> set qs" by auto
  from ck mC have pw: "IsPowerOfTwo (allocated_size (mem s1) m)" by (simp add: chunks_ok_def)
  note u = unlink_heap_inv [OF inv1 mL]
  note en = enqueue_heap_inv [OF u(1) mC _ mq, simplified]
  from TakeChunkBack_loop_returns [OF en(1)] obtain s' where
    "TakeChunkBack_loop cfg (enqueue m (unlink m s1)) = Inr s'" by blast
  then have "TakeChunkBack cfg m s1 = Inr s'"
    using m0 st pw f by (simp add: TakeChunkBack_steps CHECK_def)
  then have "Deallocate cfg p s = Inr s'"
    using p0 po st e m0
    by (simp add: Deallocate_def MallocInfo_Deallocate_def Let_def CHECK_def bind_r_def
        m_def [symmetric])
  then show ?thesis by blast
qed

subsection \<open>The pointers \<^verbatim>\<open>Allocate\<close> returns are valid\<close>

lemma place_shift:
  assumes wf: "wf_config cfg" and pl: "place cfg a m s = Inr (p, s')"
    and ne: "p \<noteq> m + kRedzone cfg" and alm: "aligned cfg m"
    and room: "unat m + unat (kRedzone cfg) + unat a \<le> 2 ^ 64"
  shows "unat (p - kRedzone cfg) + unat (kRedzone cfg) = unat p"
    and "unat m + 2 * unat (kRedzone cfg) \<le> unat p"
    and "unat p < unat m + unat (kRedzone cfg) + unat a"
    and "mem s' = (mem s)(p - kRedzone cfg := CHUNK_MEMALIGN, p - kRedzone cfg + 8 := m)"
proof -
  from pl ne obtain l where l: "Log2 a = Inr l" and a: "kRedzone cfg < a"
    and p: "p = push_bit l (drop_bit l (m + kRedzone cfg + a - 1))"
    and s': "mem s' = (mem s)(p - kRedzone cfg := CHUNK_MEMALIGN, p - kRedzone cfg + 8 := m)"
    by (auto simp: place_def Let_def bind_r_Inr_iff CHECK_Inr_iff store_def split: if_splits)
  show "mem s' = (mem s)(p - kRedzone cfg := CHUNK_MEMALIGN, p - kRedzone cfg + 8 := m)"
    by (rule s')
  from wf obtain e j where e: "7 \<le> e" "unat (kRedzone cfg) = 2 ^ (e - 1)"
    "unat (kMinAllocSize cfg) = 2 ^ e"
    by (auto elim: wf_config_unat)
  define R where "R = unat (kRedzone cfg)"
  define M where "M = unat m"
  define A where "A = unat a"
  define X where "X = M + R + A - 1"
  have d: "(2::nat) ^ e = 2 * R" using e(1) by (simp add: R_def e(2) power_eq_if)
  have "(2::nat) ^ 6 \<le> 2 ^ (e - 1)" by (rule power_increasing) (use e in simp_all)
  then have R64: "64 \<le> R" by (simp add: R_def e(2))
  from Log2_exp [OF l] have al: "a = 2 ^ l" "l < 64" by simp_all
  have uA: "A = 2 ^ l" unfolding A_def al(1) using al(2) by (rule unat_exp)
  have A0: "0 < A" by (simp add: uA)
  have a0: "a \<noteq> 0" using A0 by (auto simp: A_def)
  have XW: "X < 2 ^ 64" using room A0 by (simp add: X_def M_def R_def A_def)
  have "unat m + unat (kRedzone cfg) < 2 ^ LENGTH(64)" using room A0 by (simp add: A_def)
  then have "unat (m + kRedzone cfg) = unat m + unat (kRedzone cfg)"
    by (rule unat_add_lem [THEN iffD1])
  then have u1: "unat (m + kRedzone cfg) = M + R" by (simp add: M_def R_def)
  have ua: "unat (a - 1) = A - 1" using a0 by (simp add: unat_minus_one A_def)
  have "unat (m + kRedzone cfg) + unat (a - 1) < 2 ^ LENGTH(64)"
    using XW A0 by (simp add: u1 ua X_def)
  then have "unat (m + kRedzone cfg + (a - 1)) = unat (m + kRedzone cfg) + unat (a - 1)"
    by (rule unat_add_lem [THEN iffD1])
  then have "unat (m + kRedzone cfg + (a - 1)) = X" using A0 by (simp add: u1 ua X_def)
  moreover have "m + kRedzone cfg + a - 1 = m + kRedzone cfg + (a - 1)" by simp
  ultimately have ux: "unat (m + kRedzone cfg + a - 1) = X" by (simp only:)
  define Y where "Y = X div A"
  have "unat (drop_bit l (m + kRedzone cfg + a - 1))
      = unat (m + kRedzone cfg + a - 1) div unat ((2::addr) ^ l)"
    unfolding drop_bit_eq_div by (rule unat_div)
  then have uy: "unat (drop_bit l (m + kRedzone cfg + a - 1)) = Y"
    unfolding ux using al(2) by (simp add: unat_exp Y_def uA)
  have YA: "Y * A \<le> X" by (simp add: Y_def)
  have "unat (push_bit l (drop_bit l (m + kRedzone cfg + a - 1)))
      = (unat (drop_bit l (m + kRedzone cfg + a - 1)) * unat ((2::addr) ^ l)) mod 2 ^ LENGTH(64)"
    unfolding push_bit_eq_mult by (rule unat_word_ariths(2))
  then have "unat p = (Y * A) mod 2 ^ 64"
    unfolding p uy using al(2) by (simp add: unat_exp uA)
  then have up: "unat p = Y * A" using YA XW by simp
  have "X mod A < A" using A0 by simp
  moreover have "Y * A + X mod A = X" by (simp add: Y_def)
  moreover have "X + 1 = M + R + A" using A0 by (simp add: X_def)
  ultimately have lo: "M + R \<le> Y * A" by linarith
  have dP: "2 * R dvd Y * A"
    using push_bit_aligned [OF wf l a, of "drop_bit l (m + kRedzone cfg + a - 1)"]
    unfolding p [symmetric] up e(3) d .
  have dM: "2 * R dvd M" using alm by (simp add: aligned_def e(3) d M_def)
  have "2 * R dvd Y * A - M" using dP dM by (rule dvd_diff_nat)
  moreover have "0 < Y * A - M" using lo R64 by simp
  ultimately have "2 * R \<le> Y * A - M" by (rule dvd_imp_le)
  then have lo2: "M + 2 * R \<le> Y * A" using lo by simp
  show "unat m + 2 * unat (kRedzone cfg) \<le> unat p" using lo2 by (simp add: up M_def R_def)
  show "unat p < unat m + unat (kRedzone cfg) + unat a"
    using YA A0 by (simp add: up X_def M_def R_def A_def)
  have "unat (kRedzone cfg) \<le> unat p" using lo2 by (simp add: up R_def)
  then show "unat (p - kRedzone cfg) + unat (kRedzone cfg) = unat p"
    by (simp add: unat_sub_if')
qed

lemma Allocate_valid_ptr:
  assumes inv: "heap_inv cfg s C L qs" and ok: "os_ok cfg s os"
    and al: "Allocate cfg os a n s = Inr (p, s')" and n: "n \<noteq> 0"
    and fit: "(unat n + unat (kRedzone cfg) - 1) div unat (kRedzone cfg) * unat (kRedzone cfg)
        + unat (kRedzone cfg) + (if a > kRedzone cfg then unat a else 0) < 2 ^ 64"
  shows "valid_ptr cfg s' p" and "PtrToChunk cfg (mem s') p = malloced_items s'"
proof -
  from inv have wf: "wf_config cfg" by (simp add: heap_inv_def)
  from Allocate_Inr_cases [OF al n] obtain sz' m s1 s2 where
    ru: "RoundUptoPowerOfTwo (needed_size cfg a n) = Inr sz'" and
    szA: "kMinAllocSize cfg \<le> sz'" and
    ac: "AllocateChunk cfg os sz' s = Inr (m, s1)" and
    az1: "allocated_size (mem s1) m = sz'" and
    pl: "place cfg a m (set_used_size m n s1) = Inr (p, s2)" and
    po: "PoisonShadow cfg p (RoundUptoRedzone cfg n) 0 s2 = Inr s'"
    by blast
  note e = PoisonShadow_Inr [OF po]
  have mi: "malloced_items s' = m"
    using e place_Inr(1) [OF pl] AllocateChunk_malloced_items [OF ac] by simp
  from Allocate_heap_inv [OF inv ok al n] obtain C' where
    C': "heap_inv cfg s' C' (insert m L) qs" "m \<in> C'"
    unfolding mi by blast
  note a1 = heap_inv_al [OF C'(1)]
  from C'(1) have ck: "chunks_ok cfg (mem s') C'"
    and lv: "live_ok (mem s') C' (insert m L) (malloced_items s')"
    by (simp_all add: heap_inv_def)
  from ck C'(2) have m0: "m \<noteq> 0" and alm: "aligned cfg m"
    and top: "unat m + unat (allocated_size (mem s') m) \<le> 2 ^ 64"
    by (simp_all add: chunks_ok_def)
  have al64: "al m" using a1(1) C'(2) by auto
  from lv have st: "chunk_state (mem s') m = CHUNK_ALLOCATED" by (simp add: live_ok_def)
  have "allocated_size (mem s2) m = allocated_size (mem (set_used_size m n s1)) m"
    using wf pl alm by (rule place_frame)
  then have az: "allocated_size (mem s') m = sz'" using az1 al64 e by simp
  from wf obtain ee j where ee: "7 \<le> ee" "unat (kRedzone cfg) = 2 ^ (ee - 1)"
    by (auto elim: wf_config_unat)
  define R where "R = unat (kRedzone cfg)"
  define A where "A = (if a > kRedzone cfg then unat a else 0)"
  have "(2::nat) ^ 6 \<le> 2 ^ (ee - 1)" by (rule power_increasing) (use ee in simp_all)
  then have R64: "64 \<le> R" by (simp add: R_def ee(2))
  define Q where "Q = (unat n + R - 1) div R * R"
  have "unat (needed_size cfg a n) = Q + R + A"
    unfolding Q_def R_def A_def
    by (rule needed_size_exact [OF Allocate_Inr_redzone [OF al n] fit])
  moreover have "R \<le> Q"
  proof -
    have "0 < unat n" using n by (simp add: unat_gt_0)
    then have "R \<le> unat n + R - 1" by simp
    then have "0 < (unat n + R - 1) div R" using R64 by (simp add: div_greater_zero_iff)
    then have "1 * R \<le> (unat n + R - 1) div R * R" by (intro mult_le_mono1) simp
    then show ?thesis by (simp add: Q_def)
  qed
  moreover from RoundUptoPowerOfTwo_Inr [OF ru] have "needed_size cfg a n \<le> sz'" by blast
  then have "unat (needed_size cfg a n) \<le> unat sz'" by (simp add: word_le_nat_alt)
  ultimately have big: "R + R + A \<le> unat sz'" by linarith
  have on: "on_list (mem s') (malloced_items s') m" unfolding mi using m0 by (rule on_list.here)
  show pc: "PtrToChunk cfg (mem s') p = malloced_items s'"
  proof (cases "p = m + kRedzone cfg")
    case True
    then show ?thesis using st mi by (simp add: PtrToChunk_def Let_def)
  next
    case False
    from place_Inr(2) [OF pl] False
    have "mem s2 = (mem (set_used_size m n s1))(p - kRedzone cfg := CHUNK_MEMALIGN,
        p - kRedzone cfg + 8 := m)" by blast
    then show ?thesis using e mi by (simp add: PtrToChunk_def Let_def chunk_state_def)
  qed
  show "valid_ptr cfg s' p"
  proof (cases "p = m + kRedzone cfg")
    case True
    have "unat m + unat (kRedzone cfg) < 2 ^ LENGTH(64)"
      using top big R64 by (simp add: az R_def)
    then have "unat (m + kRedzone cfg) = unat m + unat (kRedzone cfg)"
      by (rule unat_add_lem [THEN iffD1])
    then have "unat p \<noteq> 0" using True R64 by (simp add: R_def)
    then have "p \<noteq> 0" by auto
    then show ?thesis using on pc mi True by (simp add: valid_ptr_def)
  next
    case False
    with pl have agt: "kRedzone cfg < a"
      by (auto simp: place_def Let_def split: if_splits)
    then have A: "A = unat a" by (simp add: A_def)
    have room: "unat m + unat (kRedzone cfg) + unat a \<le> 2 ^ 64"
      using top big by (simp add: az A R_def)
    note ps = place_shift [OF wf pl False alm room]
    have "unat p \<noteq> 0" using ps(2) R64 by (simp add: R_def)
    then have p0: "p \<noteq> 0" by auto
    have lo: "unat m + 40 \<le> unat (p - kRedzone cfg)" using ps(1,2) R64 by (simp add: R_def)
    have hi: "unat (p - kRedzone cfg) + 16 \<le> unat m + unat (allocated_size (mem s') m)"
      using ps(1,3) big R64 by (simp add: az A R_def)
    show ?thesis using p0 on pc mi lo hi by (simp add: valid_ptr_def)
  qed
qed

subsection \<open>The state of \<^verbatim>\<open>Deallocate\<close> before the eviction loop\<close>

lemma Deallocate_mid:
  assumes inv: "heap_inv cfg s C L qs" and v: "valid_ptr cfg s p"
    and d: "Deallocate cfg p s = Inr s'"
  shows "\<exists>u. heap_inv cfg u C (L - {PtrToChunk cfg (mem s) p}) (PtrToChunk cfg (mem s) p # qs)
      \<and> chunk_state (mem u) (PtrToChunk cfg (mem s) p) = CHUNK_QUARANTINE
      \<and> quarantine u = PtrToChunk cfg (mem s) p
      \<and> quarantine_size u
          = quarantine_size s + allocated_size (mem s) (PtrToChunk cfg (mem s) p)
      \<and> TakeChunkBack_loop cfg u = Inr s'"
proof -
  define m where "m = PtrToChunk cfg (mem s) p"
  have mL: "m \<in> L" unfolding m_def using inv v by (rule valid_ptr_live)
  from v have p0: "p \<noteq> 0" by (simp add: valid_ptr_def)
  from d p0 obtain s1 where
    po: "PoisonShadow cfg p (RoundUptoRedzone cfg (used_size (mem s) m)) (- 1) s = Inr s1"
    and t: "TakeChunkBack cfg m s1 = Inr s'"
    by (auto simp: Deallocate_def MallocInfo_Deallocate_def CHECK_Inr_iff bind_r_Inr_iff
          Let_def m_def)
  note e = PoisonShadow_Inr [OF po]
  have inv1: "heap_inv cfg s1 C L qs"
    using inv heap_inv_state_cong [of s1 s cfg C L qs] e by simp
  note al = heap_inv_al [OF inv1]
  have mC: "m \<in> C" using mL al(4) by auto
  from t have l: "TakeChunkBack_loop cfg (enqueue m (unlink m s1)) = Inr s'"
    by (simp add: TakeChunkBack_steps CHECK_Inr_iff)
  note u = unlink_heap_inv [OF inv1 mL]
  from inv1 have "live_ok (mem s1) C L (malloced_items s1)"
    and rg1: "ring_ok (mem s1) C qs (quarantine s1) (quarantine_size s1)"
    by (simp_all add: heap_inv_def)
  then have "chunk_state (mem s1) m = CHUNK_ALLOCATED"
    and "\<forall>c\<in>set qs. chunk_state (mem s1) c = CHUNK_QUARANTINE"
    using mL by (simp_all add: live_ok_def ring_ok_def)
  then have mq: "m \<notin> set qs" by auto
  note en = enqueue_heap_inv [OF u(1) mC _ mq, simplified]
  define w where "w = enqueue m (unlink m s1)"
  from en(1) have rg: "ring_ok (mem w) C (m # qs) (quarantine w) (quarantine_size w)"
    by (simp add: heap_inv_def w_def)
  then have q: "quarantine w = m" by (simp add: ring_ok_def quarantine_ring_def)
  have st: "chunk_state (mem w) m = CHUNK_QUARANTINE" using en(2) mC by (simp add: w_def)
  have az: "\<forall>c\<in>C. allocated_size (mem w) c = allocated_size (mem s) c"
    using en(3) u(3) e by (simp add: w_def)
  have "unat (quarantine_size w)
      = sum_list (map (\<lambda>c. unat (allocated_size (mem w) c)) (m # qs))"
    using rg by (simp add: ring_ok_def)
  also have "\<dots> = sum_list (map (\<lambda>c. unat (allocated_size (mem s) c)) (m # qs))"
    by (rule arg_cong [where f = sum_list], rule map_cong) (use az mC al(5) in auto)
  also have "\<dots> = unat (allocated_size (mem s) m) + unat (quarantine_size s)"
    using rg1 e by (simp add: ring_ok_def)
  finally have cn: "unat (quarantine_size w)
      = unat (quarantine_size s) + unat (allocated_size (mem s) m)" by simp
  have "unat (quarantine_size s + allocated_size (mem s) m)
      = (unat (quarantine_size s) + unat (allocated_size (mem s) m)) mod 2 ^ LENGTH(64)"
    by (rule unat_word_ariths(1))
  also have "\<dots> = unat (quarantine_size w) mod 2 ^ LENGTH(64)" by (simp only: cn)
  also have "\<dots> = unat (quarantine_size w)"
    by (rule mod_less) (rule unsigned_less)
  finally have "quarantine_size w = quarantine_size s + allocated_size (mem s) m"
    by (simp add: word_unat_eq_iff)
  with en(1) st q l show ?thesis unfolding w_def m_def by blast
qed

subsection \<open>Over-aligned requests\<close>

text \<open>
  A chunk plus the redzone is an odd multiple of the redzone, so it is not a multiple of a
  power of two above the redzone: a request with such an alignment is always shifted.
\<close>

lemma redzone_not_aligned:
  assumes wf: "wf_config cfg" and alm: "aligned cfg m" and p2: "IsPowerOfTwo a"
    and gt: "kRedzone cfg < a"
  shows "(m + kRedzone cfg) AND (a - 1) \<noteq> 0"
proof
  assume z: "(m + kRedzone cfg) AND (a - 1) = 0"
  from wf obtain e j where e: "7 \<le> e" "e \<le> j" "j \<le> 50"
    "unat (kRedzone cfg) = 2 ^ (e - 1)" "unat (kMinAllocSize cfg) = 2 ^ e"
    "kRedzone cfg = 2 ^ (e - 1)"
    by (auto elim: wf_config_unat)
  define R where "R = (2::nat) ^ (e - 1)"
  have d: "(2::nat) ^ e = 2 * R" using e(1) by (simp add: R_def power_eq_if)
  have R0: "0 < R" by (simp add: R_def)
  from gt have "a \<noteq> 0" by auto
  with p2 obtain l where l: "l < 64" "a = 2 ^ l" using IsPowerOfTwo_exp by blast
  have "(2::addr) ^ (e - 1) < 2 ^ l" using gt e(6) l(2) by simp
  then have "e - 1 < l" using exp_less_addr [of "e - 1" l] l(1) e by simp
  then have el: "e \<le> l" by simp
  have "take_bit l (m + kRedzone cfg) = 0"
    using z by (simp add: take_bit_eq_mask mask_eq_exp_minus_1 l(2))
  then have "unat (take_bit l (m + kRedzone cfg)) = 0" by simp
  then have "take_bit l (unat (m + kRedzone cfg)) = 0" by (simp only: unsigned_take_bit_eq)
  then have "2 ^ l dvd unat (m + kRedzone cfg)" by (simp add: take_bit_eq_mod mod_eq_0_iff_dvd)
  moreover have "(2::nat) ^ e dvd 2 ^ l" using el by (rule le_imp_power_dvd)
  ultimately have dv: "2 * R dvd unat (m + kRedzone cfg)" unfolding d [symmetric] by (rule dvd_trans [rotated])
  have "unat (m + kRedzone cfg) = (unat m + unat (kRedzone cfg)) mod 2 ^ LENGTH(64)"
    by (rule unat_word_ariths(1))
  then have u: "unat (m + kRedzone cfg) = (unat m + R) mod 2 ^ 64" by (simp add: e(4) R_def)
  have top: "2 * R dvd (2::nat) ^ 64"
    unfolding d [symmetric] by (rule le_imp_power_dvd) (use e in simp)
  from dv have "2 * R dvd unat m + R" unfolding u using top by (simp add: dvd_mod_iff)
  moreover have "2 * R dvd unat m" using alm by (simp add: aligned_def e(5) d)
  ultimately have "2 * R dvd R" by (simp add: dvd_add_right_iff)
  then have "2 * R \<le> R" using R0 by (intro dvd_imp_le)
  with R0 show False by simp
qed

lemma place_over_aligned:
  assumes wf: "wf_config cfg" and alm: "aligned cfg m" and p2: "IsPowerOfTwo a"
    and gt: "kRedzone cfg < a" and pl: "place cfg a m s = Inr (p, s')"
  shows "p \<noteq> m + kRedzone cfg" and "p AND (a - 1) = 0"
    and "mem s' = (mem s)(p - kRedzone cfg := CHUNK_MEMALIGN, p - kRedzone cfg + 8 := m)"
proof -
  note na = redzone_not_aligned [OF wf alm p2 gt]
  with gt pl show pa: "p AND (a - 1) = 0"
    and "mem s' = (mem s)(p - kRedzone cfg := CHUNK_MEMALIGN, p - kRedzone cfg + 8 := m)"
    by (auto simp: place_def Let_def bind_r_Inr_iff CHECK_Inr_iff store_def)
  with na show "p \<noteq> m + kRedzone cfg" by auto
qed

lemma Allocate_over_aligned:
  assumes inv: "heap_inv cfg s C L qs" and ok: "os_ok cfg s os"
    and al: "Allocate cfg os a n s = Inr (p, s')" and n: "n \<noteq> 0"
    and gt: "kRedzone cfg < a"
  shows "mem s' (p - kRedzone cfg) = CHUNK_MEMALIGN"
    and "mem s' (p - kRedzone cfg + 8) = malloced_items s'"
    and "p AND (a - 1) = 0"
    and "p \<noteq> malloced_items s' + kRedzone cfg"
proof -
  from inv have wf: "wf_config cfg" by (simp add: heap_inv_def)
  from Allocate_Inr_cases [OF al n] obtain sz' m s1 s2 where
    szA: "kMinAllocSize cfg \<le> sz'" and
    ac: "AllocateChunk cfg os sz' s = Inr (m, s1)" and
    pl: "place cfg a m (set_used_size m n s1) = Inr (p, s2)" and
    po: "PoisonShadow cfg p (RoundUptoRedzone cfg n) 0 s2 = Inr s'" and
    p2: "IsPowerOfTwo a"
    by blast
  note e = PoisonShadow_Inr [OF po]
  have mi: "malloced_items s' = m"
    using e place_Inr(1) [OF pl] AllocateChunk_malloced_items [OF ac] by simp
  from AllocateChunk_heap_inv [OF inv ok szA ac] obtain C' where
    C': "heap_inv cfg s1 C' (insert m L) qs" "m \<in> C'" by blast
  then have alm: "aligned cfg m" by (simp add: heap_inv_def chunks_ok_def)
  note po = place_over_aligned [OF wf alm p2 gt pl]
  show "p AND (a - 1) = 0" by (rule po(2))
  show "p \<noteq> malloced_items s' + kRedzone cfg" using po(1) mi by simp
  show "mem s' (p - kRedzone cfg) = CHUNK_MEMALIGN" using po(3) e by simp
  show "mem s' (p - kRedzone cfg + 8) = malloced_items s'" using po(3) e mi by simp
qed

lemma Allocate_not_over_aligned:
  assumes al: "Allocate cfg os a n s = Inr (p, s')" and n: "n \<noteq> 0"
    and le: "a \<le> kRedzone cfg"
  shows "p = malloced_items s' + kRedzone cfg"
    and "mem s' (p - kRedzone cfg) = CHUNK_ALLOCATED"
proof -
  from Allocate_Inr_cases [OF al n] obtain sz' m s1 s2 where
    ac: "AllocateChunk cfg os sz' s = Inr (m, s1)" and
    st: "chunk_state (mem s1) m = CHUNK_ALLOCATED" and
    pl: "place cfg a m (set_used_size m n s1) = Inr (p, s2)" and
    po: "PoisonShadow cfg p (RoundUptoRedzone cfg n) 0 s2 = Inr s'"
    by blast
  note e = PoisonShadow_Inr [OF po]
  have mi: "malloced_items s' = m"
    using e place_Inr(1) [OF pl] AllocateChunk_malloced_items [OF ac] by simp
  from le have "\<not> kRedzone cfg < a" by simp
  with pl have p: "p = m + kRedzone cfg" and s2: "s2 = set_used_size m n s1"
    by (simp_all add: place_def Let_def)
  show "p = malloced_items s' + kRedzone cfg" using p mi by simp
  show "mem s' (p - kRedzone cfg) = CHUNK_ALLOCATED"
    using st e by (simp add: p s2 field_defs)
qed


section \<open>The quarantine and the double free\<close>

lemma wf_config_sample: "wf_config sample_cfg" "wf_config small_cap_cfg"
  by (simp_all add: wf_config_def sample_cfg_def small_cap_cfg_def IsPowerOfTwo_def
      kMinAllocSize_def kRedzone_def)

lemma os_ok_sample:
  assumes "kPageSize cfg = 4096"
  shows "os_ok cfg init_state sample_os"
  unfolding os_ok_def
proof
  fix n :: addr
  show "sample_os n = - 1 \<or> (sample_os n \<noteq> 0 \<and> unat (kPageSize cfg) dvd unat (sample_os n)
      \<and> unat (sample_os n) + unat n \<le> 2 ^ 64
      \<and> (\<forall>(b, l)\<in>set (mapped init_state). region (sample_os n) n \<inter> region b l = {}))"
  proof (cases "n \<le> 0x100000")
    case True
    then have "unat n \<le> 0x100000" by (simp add: word_le_nat_alt)
    with True show ?thesis by (simp add: sample_os_def assms init_state_def)
  next
    case False
    then show ?thesis by (simp add: sample_os_def)
  qed
qed

text \<open>
  Claim C3: in every state that \<^verbatim>\<open>Allocate\<close>, \<^verbatim>\<open>Deallocate\<close>, \<^verbatim>\<open>Reallocate\<close> and
  \<^verbatim>\<open>__asan_calloc\<close> return in, the quarantine is a ring, described by one list \<open>qs\<close> only, of chunks in state
  \<^verbatim>\<open>CHUNK_QUARANTINE\<close>; the counter \<^verbatim>\<open>quarantine_size_\<close> is the sum of
  \<^verbatim>\<open>allocated_size\<close> over \<open>qs\<close>, with no wrap-around, and it is at most
  \<^verbatim>\<open>__asan_flag_quarantine_size\<close>.
\<close>

theorem quarantine_counter_exact:
  assumes "reachable cfg s"
  shows "\<exists>qs. quarantine_ring (mem s) (quarantine s) qs
      \<and> (\<forall>qs'. quarantine_ring (mem s) (quarantine s) qs' \<longrightarrow> qs' = qs)
      \<and> (\<forall>c\<in>set qs. chunk_state (mem s) c = CHUNK_QUARANTINE)
      \<and> unat (quarantine_size s) = sum_list (map (\<lambda>c. unat (allocated_size (mem s) c)) qs)
      \<and> quarantine_size s \<le> flag_quarantine_size cfg"
proof -
  from reachable_heap_inv [OF assms] obtain C L qs where
    i: "heap_inv cfg s C L qs" and c: "quarantine_size s \<le> flag_quarantine_size cfg"
    by blast
  from i have r: "ring_ok (mem s) C qs (quarantine s) (quarantine_size s)"
    by (simp add: heap_inv_def)
  then have q: "quarantine_ring (mem s) (quarantine s) qs" by (simp add: ring_ok_def)
  have "\<forall>qs'. quarantine_ring (mem s) (quarantine s) qs' \<longrightarrow> qs' = qs"
    using q by (blast intro: quarantine_ring_unique)
  with r q c show ?thesis unfolding ring_ok_def by blast
qed

lemma scenario_aligned_reachable:
  "\<exists>s s'. scenario_aligned = Inr (0x7F0000080000, s)
      \<and> Deallocate sample_cfg 0x7F0000080000 s = Inr s'
      \<and> reachable sample_cfg s \<and> valid_ptr sample_cfg s 0x7F0000080000
      \<and> reachable sample_cfg s'
      \<and> quarantine s' = 0x7F0000000000 \<and> quarantine_size s' = 0x100000"
proof -
  from scenario_aligned_free_run obtain s s' where
    r: "scenario_aligned = Inr (0x7F0000080000, s)"
    and f: "PtrToChunk sample_cfg (mem s) 0x7F0000080000 = 0x7F0000000000"
      "malloced_items s = 0x7F0000000000"
      "allocated_size (mem s) 0x7F0000000000 = 0x100000"
    and d: "Deallocate sample_cfg 0x7F0000080000 s = Inr s'"
    and q: "quarantine s' = 0x7F0000000000" "quarantine_size s' = 0x100000"
    by blast
  have a: "Allocate sample_cfg sample_os 0x80000 10 init_state = Inr (0x7F0000080000, s)"
    using r by (simp add: scenario_aligned_def)
  have ok: "os_ok sample_cfg init_state sample_os"
    by (rule os_ok_sample) (simp add: sample_cfg_def)
  have rs: "reachable sample_cfg s"
    using reachable.init [OF wf_config_sample(1)] ok a by (rule reachable.allocate)
  have "on_list (mem s) 0x7F0000000000 0x7F0000000000" by (rule on_list.here) simp
  then have v: "valid_ptr sample_cfg s 0x7F0000080000"
    unfolding valid_ptr_def f by (simp add: kRedzone_def sample_cfg_def)
  then have "(0x7F0000080000 :: addr) = 0 \<or> valid_ptr sample_cfg s 0x7F0000080000" by simp
  with rs have "reachable sample_cfg s'" using d by (rule reachable.deallocate)
  with r d rs v q show ?thesis by blast
qed

text \<open>
  Witness of C3: after \<^verbatim>\<open>p = memalign(0x80000, 10); free(p)\<close> the ring holds the one
  chunk and the counter is its size, 1 MiB, under a cap of 256 MiB.
\<close>

theorem quarantine_counter_exact_witness:
  "\<exists>s s'. scenario_aligned = Inr (0x7F0000080000, s)
      \<and> Deallocate sample_cfg 0x7F0000080000 s = Inr s'
      \<and> reachable sample_cfg s'
      \<and> quarantine_size s' = 0x100000
      \<and> (\<exists>qs. quarantine_ring (mem s') (quarantine s') qs
          \<and> (\<forall>qs'. quarantine_ring (mem s') (quarantine s') qs' \<longrightarrow> qs' = qs)
          \<and> (\<forall>c\<in>set qs. chunk_state (mem s') c = CHUNK_QUARANTINE)
          \<and> unat (quarantine_size s') = sum_list (map (\<lambda>c. unat (allocated_size (mem s') c)) qs)
          \<and> quarantine_size s' \<le> flag_quarantine_size sample_cfg)"
proof -
  from scenario_aligned_reachable obtain s s' where
    r: "scenario_aligned = Inr (0x7F0000080000, s)"
    and d: "Deallocate sample_cfg 0x7F0000080000 s = Inr s'"
    and rs: "reachable sample_cfg s'" and q: "quarantine_size s' = 0x100000"
    by blast
  from quarantine_counter_exact [OF rs] r d rs q show ?thesis by blast
qed

text \<open>
  Claim C4: the loop of \<^verbatim>\<open>TakeChunkBack\<close> stops as soon as the counter is at most the cap
  (a counter equal to the cap evicts nothing) and calls \<^verbatim>\<open>pop\<close> while the counter is
  above it.  On a heap of the invariant with the ring \<open>qs\<close> the loop returns, and so does
  \<^verbatim>\<open>pop\<close> when the ring is not empty; a \<^verbatim>\<open>pop\<close> that returns has taken
  \<^verbatim>\<open>quarantine_->prev\<close>, the last chunk of \<open>qs\<close> (the one freed first), out of the
  ring, has subtracted its \<^verbatim>\<open>allocated_size\<close> from the counter, has set it
  \<^verbatim>\<open>CHUNK_AVAILABLE\<close> and has put it in front of the free list of its size class.  A
  \<^verbatim>\<open>Deallocate\<close> that returns has put the chunk in front of the ring, added its
  \<^verbatim>\<open>allocated_size\<close> to the counter, run the loop, and so evicted chunks from the end
  of the ring.  \<^verbatim>\<open>Deallocate\<close> of a valid pointer returns when the cap is not 0
  and \<^verbatim>\<open>PoisonShadow\<close> accepts the pointer; when the chunk's \<^verbatim>\<open>allocated_size\<close> alone
  is above the cap, the whole ring is evicted, and the chunk has been \<^verbatim>\<open>CHUNK_QUARANTINE\<close>
  before the loop and is \<^verbatim>\<open>CHUNK_AVAILABLE\<close> when \<^verbatim>\<open>Deallocate\<close> returns.
\<close>

theorem quarantine_eviction:
  "(quarantine_size s \<le> flag_quarantine_size cfg \<longrightarrow> TakeChunkBack_loop cfg s = Inr s)
   \<and> (flag_quarantine_size cfg < quarantine_size s \<longrightarrow>
        TakeChunkBack_loop cfg s = bind_r (pop s) (TakeChunkBack_loop cfg))
   \<and> (heap_inv cfg s C L qs \<longrightarrow>
        (\<exists>s1. TakeChunkBack_loop cfg s = Inr s1) \<and> (qs \<noteq> [] \<longrightarrow> (\<exists>t1. pop s = Inr t1)))
   \<and> (heap_inv cfg s C L qs \<and> pop s = Inr t \<longrightarrow>
        qs \<noteq> [] \<and> prev_of (mem s) (quarantine s) = last qs
      \<and> heap_inv cfg t C L (butlast qs)
      \<and> quarantine_size t = quarantine_size s - allocated_size (mem s) (last qs)
      \<and> chunk_state (mem t) (last qs) = CHUNK_AVAILABLE
      \<and> (\<exists>idx. Log2 (allocated_size (mem s) (last qs)) = Inr idx
            \<and> chunks t = (chunks s)(idx := last qs)
            \<and> next_of (mem t) (last qs) = chunks s idx))
   \<and> (heap_inv cfg s C L qs \<and> valid_ptr cfg s p \<and> Deallocate cfg p s = Inr s' \<longrightarrow>
        (\<exists>u. heap_inv cfg u C (L - {PtrToChunk cfg (mem s) p}) (PtrToChunk cfg (mem s) p # qs)
            \<and> chunk_state (mem u) (PtrToChunk cfg (mem s) p) = CHUNK_QUARANTINE
            \<and> quarantine u = PtrToChunk cfg (mem s) p
            \<and> quarantine_size u
                = quarantine_size s + allocated_size (mem s) (PtrToChunk cfg (mem s) p)
            \<and> TakeChunkBack_loop cfg u = Inr s')
      \<and> (\<exists>n. heap_inv cfg s' C (L - {PtrToChunk cfg (mem s) p})
                (take n (PtrToChunk cfg (mem s) p # qs))
            \<and> (\<forall>c\<in>set (drop n (PtrToChunk cfg (mem s) p # qs)).
                  chunk_state (mem s') c = CHUNK_AVAILABLE)
            \<and> quarantine_size s' \<le> flag_quarantine_size cfg
            \<and> (flag_quarantine_size cfg < allocated_size (mem s) (PtrToChunk cfg (mem s) p)
                 \<longrightarrow> n = 0)))
   \<and> (reachable cfg s \<and> valid_ptr cfg s p \<and> 0 < flag_quarantine_size cfg
        \<and> IsAligned p (push_bit (kShadowShift cfg) 1)
        \<and> IsAligned (p + RoundUptoRedzone cfg (used_size (mem s) (PtrToChunk cfg (mem s) p)))
              (push_bit (kShadowShift cfg) 1) \<longrightarrow>
        (\<exists>s2. Deallocate cfg p s = Inr s2))
   \<and> (reachable cfg s \<and> valid_ptr cfg s p \<and> Deallocate cfg p s = Inr s'
        \<and> flag_quarantine_size cfg < allocated_size (mem s) (PtrToChunk cfg (mem s) p) \<longrightarrow>
        chunk_state (mem s') (PtrToChunk cfg (mem s) p) = CHUNK_AVAILABLE
      \<and> quarantine s' = 0 \<and> quarantine_size s' = 0
      \<and> (\<exists>u. chunk_state (mem u) (PtrToChunk cfg (mem s) p) = CHUNK_QUARANTINE
            \<and> TakeChunkBack_loop cfg u = Inr s'))"
proof (intro conjI impI)
  assume "quarantine_size s \<le> flag_quarantine_size cfg"
  then have "\<not> flag_quarantine_size cfg < quarantine_size s" by simp
  then show "TakeChunkBack_loop cfg s = Inr s" by (simp add: TakeChunkBack_loop.simps)
next
  assume a: "flag_quarantine_size cfg < quarantine_size s"
  then have "quarantine_size s \<noteq> 0" by auto
  with a show "TakeChunkBack_loop cfg s = bind_r (pop s) (TakeChunkBack_loop cfg)"
    by (subst TakeChunkBack_loop.simps) (simp add: bind_r_def)
next
  assume "heap_inv cfg s C L qs"
  then show "\<exists>s1. TakeChunkBack_loop cfg s = Inr s1" by (rule TakeChunkBack_loop_returns)
next
  assume "heap_inv cfg s C L qs" and "qs \<noteq> []"
  then show "\<exists>t1. pop s = Inr t1" by (rule pop_returns)
next
  assume a: "heap_inv cfg s C L qs \<and> pop s = Inr t"
  then have inv: "heap_inv cfg s C L qs" and p: "pop s = Inr t" by simp_all
  note ph = pop_heap_inv [OF inv p]
  show "qs \<noteq> []" by (rule ph(1))
  from inv have "quarantine_ring (mem s) (quarantine s) qs"
    by (simp add: heap_inv_def ring_ok_def)
  with ph(1) show "prev_of (mem s) (quarantine s) = last qs"
    by (simp add: quarantine_ring_def)
  show "heap_inv cfg t C L (butlast qs)" by (rule ph(2))
  show "quarantine_size t = quarantine_size s - allocated_size (mem s) (last qs)" by (rule ph(3))
  have "last qs \<in> C" using ph(1) heap_inv_al(5) [OF inv] by auto
  with ph(5) show "chunk_state (mem t) (last qs) = CHUNK_AVAILABLE" by simp
  show "\<exists>idx. Log2 (allocated_size (mem s) (last qs)) = Inr idx
            \<and> chunks t = (chunks s)(idx := last qs)
            \<and> next_of (mem t) (last qs) = chunks s idx" by (rule ph(7))
next
  assume "heap_inv cfg s C L qs \<and> valid_ptr cfg s p \<and> Deallocate cfg p s = Inr s'"
  then show "\<exists>u. heap_inv cfg u C (L - {PtrToChunk cfg (mem s) p}) (PtrToChunk cfg (mem s) p # qs)
            \<and> chunk_state (mem u) (PtrToChunk cfg (mem s) p) = CHUNK_QUARANTINE
            \<and> quarantine u = PtrToChunk cfg (mem s) p
            \<and> quarantine_size u
                = quarantine_size s + allocated_size (mem s) (PtrToChunk cfg (mem s) p)
            \<and> TakeChunkBack_loop cfg u = Inr s'"
    by (intro Deallocate_mid) simp_all
next
  assume "heap_inv cfg s C L qs \<and> valid_ptr cfg s p \<and> Deallocate cfg p s = Inr s'"
  then show "\<exists>n. heap_inv cfg s' C (L - {PtrToChunk cfg (mem s) p})
                (take n (PtrToChunk cfg (mem s) p # qs))
            \<and> (\<forall>c\<in>set (drop n (PtrToChunk cfg (mem s) p # qs)).
                  chunk_state (mem s') c = CHUNK_AVAILABLE)
            \<and> quarantine_size s' \<le> flag_quarantine_size cfg
            \<and> (flag_quarantine_size cfg < allocated_size (mem s) (PtrToChunk cfg (mem s) p)
                 \<longrightarrow> n = 0)"
    by (intro Deallocate_evicts) simp_all
next
  assume a: "reachable cfg s \<and> valid_ptr cfg s p \<and> 0 < flag_quarantine_size cfg
        \<and> IsAligned p (push_bit (kShadowShift cfg) 1)
        \<and> IsAligned (p + RoundUptoRedzone cfg (used_size (mem s) (PtrToChunk cfg (mem s) p)))
              (push_bit (kShadowShift cfg) 1)"
  from a reachable_heap_inv obtain C' L' qs' where inv: "heap_inv cfg s C' L' qs'" by blast
  from a show "\<exists>s2. Deallocate cfg p s = Inr s2"
    by (intro Deallocate_returns [OF inv]) simp_all
next
  assume a: "reachable cfg s \<and> valid_ptr cfg s p \<and> Deallocate cfg p s = Inr s'
        \<and> flag_quarantine_size cfg < allocated_size (mem s) (PtrToChunk cfg (mem s) p)"
  then have v: "valid_ptr cfg s p" and d: "Deallocate cfg p s = Inr s'"
    and f: "flag_quarantine_size cfg < allocated_size (mem s) (PtrToChunk cfg (mem s) p)"
    by simp_all
  from a reachable_heap_inv obtain C' L' qs' where inv: "heap_inv cfg s C' L' qs'" by blast
  from Deallocate_evicts [OF inv v d] f have
    i: "heap_inv cfg s' C' (L' - {PtrToChunk cfg (mem s) p}) []"
    and e: "\<forall>c\<in>set (PtrToChunk cfg (mem s) p # qs'). chunk_state (mem s') c = CHUNK_AVAILABLE"
    by auto
  from e show "chunk_state (mem s') (PtrToChunk cfg (mem s) p) = CHUNK_AVAILABLE" by simp
  from i have r: "ring_ok (mem s') C' [] (quarantine s') (quarantine_size s')"
    by (simp add: heap_inv_def)
  then show "quarantine s' = 0" by (simp add: ring_ok_def quarantine_ring_def)
  from r have "unat (quarantine_size s') = 0" by (simp add: ring_ok_def)
  then show "quarantine_size s' = 0" by (simp add: unat_eq_0)
  from v have "p \<noteq> 0" by (simp add: valid_ptr_def)
  with Deallocate_quarantined [OF d]
  show "\<exists>u. chunk_state (mem u) (PtrToChunk cfg (mem s) p) = CHUNK_QUARANTINE
            \<and> TakeChunkBack_loop cfg u = Inr s'" by blast
qed

lemma scenario_small_cap_run:
  "\<exists>s s'. scenario_small_cap = Inr (0x7F0000000080, s)
      \<and> PtrToChunk small_cap_cfg (mem s) 0x7F0000000080 = 0x7F0000000000
      \<and> malloced_items s = 0x7F0000000000
      \<and> allocated_size (mem s) 0x7F0000000000 = 0x100000
      \<and> used_size (mem s) 0x7F0000000000 = 0x80000
      \<and> quarantine_size s = 0
      \<and> Deallocate small_cap_cfg 0x7F0000000080 s = Inr s'
      \<and> chunks s' 20 = 0x7F0000000000"
  by (simp add: scenario_small_cap_def run_defs small_cap_cfg_def sample_os_def init_state_def
      Let_def TakeChunkBack_loop.simps)

text \<open>
  Witness of C4: under a cap of 4096 bytes, \<^verbatim>\<open>p = malloc(0x80000); free(p)\<close> draws a chunk
  of 1 MiB and frees it.  \<^verbatim>\<open>free\<close> returns; before the loop the chunk is the ring and the
  counter, 1 MiB, is above the cap; the loop is one \<^verbatim>\<open>pop\<close>, which returns; when
  \<^verbatim>\<open>free\<close> returns the chunk is \<^verbatim>\<open>CHUNK_AVAILABLE\<close>, the ring is empty, the chunk is the
  head of the free list of class 20, and the loop on that state evicts nothing.
\<close>

theorem quarantine_eviction_witness:
  "\<exists>s s'. scenario_small_cap = Inr (0x7F0000000080, s)
      \<and> Deallocate small_cap_cfg 0x7F0000000080 s = Inr s'
      \<and> reachable small_cap_cfg s \<and> valid_ptr small_cap_cfg s 0x7F0000000080
      \<and> 0 < flag_quarantine_size small_cap_cfg
      \<and> IsAligned 0x7F0000000080 (push_bit (kShadowShift small_cap_cfg) 1)
      \<and> IsAligned (0x7F0000000080 + RoundUptoRedzone small_cap_cfg
            (used_size (mem s) (PtrToChunk small_cap_cfg (mem s) 0x7F0000000080)))
            (push_bit (kShadowShift small_cap_cfg) 1)
      \<and> (\<exists>s2. Deallocate small_cap_cfg 0x7F0000000080 s = Inr s2)
      \<and> flag_quarantine_size small_cap_cfg
           < allocated_size (mem s) (PtrToChunk small_cap_cfg (mem s) 0x7F0000000080)
      \<and> chunk_state (mem s') (PtrToChunk small_cap_cfg (mem s) 0x7F0000000080) = CHUNK_AVAILABLE
      \<and> quarantine s' = 0 \<and> quarantine_size s' = 0
      \<and> chunks s' 20 = PtrToChunk small_cap_cfg (mem s) 0x7F0000000080
      \<and> quarantine_size s' \<le> flag_quarantine_size small_cap_cfg
      \<and> TakeChunkBack_loop small_cap_cfg s' = Inr s'
      \<and> (\<exists>C L qs u t. heap_inv small_cap_cfg s C L qs
            \<and> heap_inv small_cap_cfg u C (L - {0x7F0000000000}) (0x7F0000000000 # qs)
            \<and> chunk_state (mem u) 0x7F0000000000 = CHUNK_QUARANTINE
            \<and> flag_quarantine_size small_cap_cfg < quarantine_size u
            \<and> TakeChunkBack_loop small_cap_cfg u
                = bind_r (pop u) (TakeChunkBack_loop small_cap_cfg)
            \<and> TakeChunkBack_loop small_cap_cfg u = Inr s'
            \<and> pop u = Inr t
            \<and> prev_of (mem u) (quarantine u) = last (0x7F0000000000 # qs)
            \<and> chunk_state (mem t) (last (0x7F0000000000 # qs)) = CHUNK_AVAILABLE
            \<and> quarantine_size t
                = quarantine_size u - allocated_size (mem u) (last (0x7F0000000000 # qs)))"
proof -
  from scenario_small_cap_run obtain s s' where
    r: "scenario_small_cap = Inr (0x7F0000000080, s)"
    and f: "PtrToChunk small_cap_cfg (mem s) 0x7F0000000080 = 0x7F0000000000"
      "malloced_items s = 0x7F0000000000"
      "allocated_size (mem s) 0x7F0000000000 = 0x100000"
      "used_size (mem s) 0x7F0000000000 = 0x80000"
    and q0: "quarantine_size s = 0"
    and d: "Deallocate small_cap_cfg 0x7F0000000080 s = Inr s'"
    and c: "chunks s' 20 = 0x7F0000000000"
    by blast
  have a: "Allocate small_cap_cfg sample_os 0 0x80000 init_state = Inr (0x7F0000000080, s)"
    using r by (simp add: scenario_small_cap_def)
  have ok: "os_ok small_cap_cfg init_state sample_os"
    by (rule os_ok_sample) (simp add: small_cap_cfg_def)
  have rs: "reachable small_cap_cfg s"
    using reachable.init [OF wf_config_sample(2)] ok a by (rule reachable.allocate)
  have "on_list (mem s) 0x7F0000000000 0x7F0000000000" by (rule on_list.here) simp
  then have v: "valid_ptr small_cap_cfg s 0x7F0000000080"
    unfolding valid_ptr_def f by (simp add: kRedzone_def small_cap_cfg_def)
  have big: "flag_quarantine_size small_cap_cfg
           < allocated_size (mem s) (PtrToChunk small_cap_cfg (mem s) 0x7F0000000080)"
    unfolding f by (simp add: small_cap_cfg_def)
  have pos: "0 < flag_quarantine_size small_cap_cfg" by (simp add: small_cap_cfg_def)
  have a1: "IsAligned 0x7F0000000080 (push_bit (kShadowShift small_cap_cfg) 1)"
    by (simp add: IsAligned_def small_cap_cfg_def)
  have a2: "IsAligned (0x7F0000000080 + RoundUptoRedzone small_cap_cfg
            (used_size (mem s) (PtrToChunk small_cap_cfg (mem s) 0x7F0000000080)))
            (push_bit (kShadowShift small_cap_cfg) 1)"
    unfolding f by (simp add: IsAligned_def RoundUptoRedzone_def kRedzone_def small_cap_cfg_def)
  from reachable_heap_inv [OF rs] obtain C L qs where
    inv: "heap_inv small_cap_cfg s C L qs" by blast
  note e = quarantine_eviction [where s = s and cfg = small_cap_cfg and p = "0x7F0000000080"
      and s' = s' and C = C and L = L and qs = qs]
  from e rs v pos a1 a2 have ret: "\<exists>s2. Deallocate small_cap_cfg 0x7F0000000080 s = Inr s2"
    by blast
  from e rs v d big have fin:
    "chunk_state (mem s') (PtrToChunk small_cap_cfg (mem s) 0x7F0000000080) = CHUNK_AVAILABLE"
    "quarantine s' = 0" "quarantine_size s' = 0"
    by blast+
  have le: "quarantine_size s' \<le> flag_quarantine_size small_cap_cfg" by (simp add: fin(3))
  with quarantine_eviction [where s = s' and cfg = small_cap_cfg]
  have stay: "TakeChunkBack_loop small_cap_cfg s' = Inr s'" by blast
  from e inv v d obtain u where
    u: "heap_inv small_cap_cfg u C (L - {0x7F0000000000}) (0x7F0000000000 # qs)"
      "chunk_state (mem u) 0x7F0000000000 = CHUNK_QUARANTINE"
      "quarantine_size u = quarantine_size s + allocated_size (mem s) 0x7F0000000000"
      "TakeChunkBack_loop small_cap_cfg u = Inr s'"
    unfolding f by blast
  have gt: "flag_quarantine_size small_cap_cfg < quarantine_size u"
    by (simp add: u(3) q0 f small_cap_cfg_def)
  note e2 = quarantine_eviction [where s = u and cfg = small_cap_cfg and C = C
      and L = "L - {0x7F0000000000}" and qs = "0x7F0000000000 # qs"]
  from e2 gt have lp: "TakeChunkBack_loop small_cap_cfg u
      = bind_r (pop u) (TakeChunkBack_loop small_cap_cfg)" by blast
  from e2 u(1) obtain t where t: "pop u = Inr t" by blast
  from e2 [where t = t] u(1) t have pe:
    "prev_of (mem u) (quarantine u) = last (0x7F0000000000 # qs)"
    "chunk_state (mem t) (last (0x7F0000000000 # qs)) = CHUNK_AVAILABLE"
    "quarantine_size t = quarantine_size u - allocated_size (mem u) (last (0x7F0000000000 # qs))"
    by blast+
  have "\<exists>C L qs u t. heap_inv small_cap_cfg s C L qs
            \<and> heap_inv small_cap_cfg u C (L - {0x7F0000000000}) (0x7F0000000000 # qs)
            \<and> chunk_state (mem u) 0x7F0000000000 = CHUNK_QUARANTINE
            \<and> flag_quarantine_size small_cap_cfg < quarantine_size u
            \<and> TakeChunkBack_loop small_cap_cfg u
                = bind_r (pop u) (TakeChunkBack_loop small_cap_cfg)
            \<and> TakeChunkBack_loop small_cap_cfg u = Inr s'
            \<and> pop u = Inr t
            \<and> prev_of (mem u) (quarantine u) = last (0x7F0000000000 # qs)
            \<and> chunk_state (mem t) (last (0x7F0000000000 # qs)) = CHUNK_AVAILABLE
            \<and> quarantine_size t
                = quarantine_size u - allocated_size (mem u) (last (0x7F0000000000 # qs))"
    using inv u(1,2,4) gt lp t pe by blast
  with r d rs v pos a1 a2 ret big fin le stay c f(1) show ?thesis
    by (intro exI [of _ s] exI [of _ s']) simp
qed

text \<open>
  Claim C7: \<^verbatim>\<open>Deallocate\<close> of a non-null pointer whose chunk is not \<^verbatim>\<open>CHUNK_ALLOCATED\<close>
  ends in a failed \<^verbatim>\<open>CHECK\<close>; so does the second of two \<^verbatim>\<open>Deallocate\<close> of the same
  pointer, when the first has returned; \<^verbatim>\<open>Deallocate\<close> of the null pointer returns and
  leaves the state as it is, and \<^verbatim>\<open>Allocate\<close> of 0 bytes returns the null pointer and
  leaves the state as it is.
\<close>

theorem Deallocate_not_allocated:
  "(p \<noteq> 0 \<and> chunk_state (mem s) (PtrToChunk cfg (mem s) p) \<noteq> CHUNK_ALLOCATED \<longrightarrow>
       Deallocate cfg p s = Inl CheckFailed)
   \<and> (reachable cfg s \<and> valid_ptr cfg s p \<and> Deallocate cfg p s = Inr s' \<longrightarrow>
       Deallocate cfg p s' = Inl CheckFailed)
   \<and> Deallocate cfg 0 s = Inr s
   \<and> Allocate cfg os alignment 0 s = Inr (0, s)"
proof (intro conjI impI)
  assume "p \<noteq> 0 \<and> chunk_state (mem s) (PtrToChunk cfg (mem s) p) \<noteq> CHUNK_ALLOCATED"
  then show "Deallocate cfg p s = Inl CheckFailed"
    by (simp add: Deallocate_def Let_def CHECK_def)
next
  assume a: "reachable cfg s \<and> valid_ptr cfg s p \<and> Deallocate cfg p s = Inr s'"
  with reachable_heap_inv obtain C L qs where "heap_inv cfg s C L qs" by blast
  with a show "Deallocate cfg p s' = Inl CheckFailed" by (blast intro: double_free)
next
  show "Deallocate cfg 0 s = Inr s" by (simp add: Deallocate_def)
  show "Allocate cfg os alignment 0 s = Inr (0, s)" by (simp add: Allocate_def)
qed

lemma scenario_plain_run:
  "\<exists>s s'. scenario_plain = Inr (0x7F0000000080, s)
      \<and> PtrToChunk sample_cfg (mem s) 0x7F0000000080 = 0x7F0000000000
      \<and> malloced_items s = 0x7F0000000000
      \<and> Deallocate sample_cfg 0x7F0000000080 s = Inr s'
      \<and> chunk_state (mem s') 0x7F0000000000 = CHUNK_QUARANTINE"
  by (simp add: scenario_plain_def run_defs sample_cfg_def sample_os_def init_state_def
      Let_def TakeChunkBack_loop.simps)

text \<open>
  Witness of C7: \<^verbatim>\<open>p = malloc(0x80000); free(p); free(p)\<close>.  The first \<^verbatim>\<open>free\<close> returns,
  the second one ends in a failed \<^verbatim>\<open>CHECK\<close>.
\<close>

theorem Deallocate_not_allocated_witness:
  "\<exists>s s'. scenario_plain = Inr (0x7F0000000080, s)
      \<and> reachable sample_cfg s \<and> valid_ptr sample_cfg s 0x7F0000000080
      \<and> Deallocate sample_cfg 0x7F0000000080 s = Inr s'
      \<and> (0x7F0000000080 :: addr) \<noteq> 0
      \<and> chunk_state (mem s') (PtrToChunk sample_cfg (mem s') 0x7F0000000080) \<noteq> CHUNK_ALLOCATED
      \<and> Deallocate sample_cfg 0x7F0000000080 s' = Inl CheckFailed"
proof -
  from scenario_plain_run obtain s s' where
    r: "scenario_plain = Inr (0x7F0000000080, s)"
    and f: "PtrToChunk sample_cfg (mem s) 0x7F0000000080 = 0x7F0000000000"
      "malloced_items s = 0x7F0000000000"
    and d: "Deallocate sample_cfg 0x7F0000000080 s = Inr s'"
    and q: "chunk_state (mem s') 0x7F0000000000 = CHUNK_QUARANTINE"
    by blast
  have a: "Allocate sample_cfg sample_os 0 0x80000 init_state = Inr (0x7F0000000080, s)"
    using r by (simp add: scenario_plain_def)
  have ok: "os_ok sample_cfg init_state sample_os"
    by (rule os_ok_sample) (simp add: sample_cfg_def)
  have rs: "reachable sample_cfg s"
    using reachable.init [OF wf_config_sample(1)] ok a by (rule reachable.allocate)
  have "on_list (mem s) 0x7F0000000000 0x7F0000000000" by (rule on_list.here) simp
  then have v: "valid_ptr sample_cfg s 0x7F0000000080"
    unfolding valid_ptr_def f by (simp add: kRedzone_def sample_cfg_def)
  have st: "chunk_state (mem s') (PtrToChunk sample_cfg (mem s') 0x7F0000000080) \<noteq> CHUNK_ALLOCATED"
    using q by (simp add: PtrToChunk_def Let_def kRedzone_def sample_cfg_def)
  note e = Deallocate_not_allocated [where s = s and cfg = sample_cfg and p = "0x7F0000000080"
      and s' = s']
  from e rs v d have "Deallocate sample_cfg 0x7F0000000080 s' = Inl CheckFailed" by blast
  with r rs v d st show ?thesis by auto
qed

section \<open>The alignment record and reallocation\<close>

text \<open>
  Claim C2, amended: the lookup reads the word \<^verbatim>\<open>kRedzone\<close> bytes before the user pointer;
  if it is the tag \<^verbatim>\<open>CHUNK_MEMALIGN\<close> the next word is the chunk, otherwise the chunk is
  the pointer minus \<^verbatim>\<open>kRedzone\<close>.  When \<^verbatim>\<open>Allocate\<close> returns for an alignment above
  \<^verbatim>\<open>kRedzone\<close>, in a state the allocator can be in and with \<^verbatim>\<open>mmap\<close> answering with
  fresh pages, the pointer is aligned as asked, it is not the chunk plus \<^verbatim>\<open>kRedzone\<close>, and
  the tag and the chunk's address are the two words \<^verbatim>\<open>kRedzone\<close> bytes before it.  For an
  alignment of at most \<^verbatim>\<open>kRedzone\<close> the pointer is the chunk plus \<^verbatim>\<open>kRedzone\<close> and the
  word \<^verbatim>\<open>kRedzone\<close> bytes before it is the chunk's state, \<^verbatim>\<open>CHUNK_ALLOCATED\<close>.  In both
  cases the lookup of the returned pointer is the chunk just drawn (the head of the live
  list).
\<close>

theorem PtrToChunk_of_Allocate:
  assumes "Allocate cfg os alignment sz s = Inr (p, s')" and "sz \<noteq> 0"
  shows "PtrToChunk cfg h q
           = (if h (q - kRedzone cfg) = CHUNK_MEMALIGN then h (q - kRedzone cfg + 8)
              else q - kRedzone cfg)
       \<and> PtrToChunk cfg (mem s') p = malloced_items s'
       \<and> (p \<noteq> malloced_items s' + kRedzone cfg \<longrightarrow>
            mem s' (p - kRedzone cfg) = CHUNK_MEMALIGN
          \<and> mem s' (p - kRedzone cfg + 8) = malloced_items s')
       \<and> (reachable cfg s \<and> os_ok cfg s os \<and> kRedzone cfg < alignment \<longrightarrow>
            IsAligned p alignment
          \<and> p \<noteq> malloced_items s' + kRedzone cfg
          \<and> mem s' (p - kRedzone cfg) = CHUNK_MEMALIGN
          \<and> mem s' (p - kRedzone cfg + 8) = malloced_items s')
       \<and> (alignment \<le> kRedzone cfg \<longrightarrow>
            p = malloced_items s' + kRedzone cfg
          \<and> mem s' (p - kRedzone cfg) = CHUNK_ALLOCATED)"
proof -
  have rd: "PtrToChunk cfg h q
           = (if h (q - kRedzone cfg) = CHUNK_MEMALIGN then h (q - kRedzone cfg + 8)
              else q - kRedzone cfg)"
    by (simp add: PtrToChunk_def chunk_state_def Let_def)
  from Allocate_Inr_cases [OF assms] obtain sz' m s1 s2 where
    ac: "AllocateChunk cfg os sz' s = Inr (m, s1)" and
    st: "chunk_state (mem s1) m = CHUNK_ALLOCATED" and
    pl: "place cfg alignment m (set_used_size m sz s1) = Inr (p, s2)" and
    po: "PoisonShadow cfg p (RoundUptoRedzone cfg sz) 0 s2 = Inr s'"
    by blast
  have mi: "malloced_items s' = m"
    using PoisonShadow_Inr [OF po] place_Inr(1) [OF pl] AllocateChunk_malloced_items [OF ac]
    by (simp add: set_used_size_def store_def)
  have ms: "mem s' = mem s2" using PoisonShadow_Inr [OF po] by simp
  from place_Inr(2) [OF pl]
  have lk: "PtrToChunk cfg (mem s') p = malloced_items s'
       \<and> (p \<noteq> malloced_items s' + kRedzone cfg \<longrightarrow>
            mem s' (p - kRedzone cfg) = CHUNK_MEMALIGN
          \<and> mem s' (p - kRedzone cfg + 8) = malloced_items s')"
  proof
    assume "p = m + kRedzone cfg \<and> s2 = set_used_size m sz s1"
    then show ?thesis using st mi ms
      by (simp add: PtrToChunk_def field_defs magic_defs)
  next
    assume "mem s2 = (mem (set_used_size m sz s1))(p - kRedzone cfg := CHUNK_MEMALIGN, p - kRedzone cfg + 8 := m)"
    then show ?thesis using mi ms
      by (simp add: PtrToChunk_def field_defs)
  qed
  have ov: "IsAligned p alignment
          \<and> p \<noteq> malloced_items s' + kRedzone cfg
          \<and> mem s' (p - kRedzone cfg) = CHUNK_MEMALIGN
          \<and> mem s' (p - kRedzone cfg + 8) = malloced_items s'"
    if rs: "reachable cfg s" and ok: "os_ok cfg s os" and gt: "kRedzone cfg < alignment"
  proof -
    from reachable_heap_inv [OF rs] obtain C L qs where i: "heap_inv cfg s C L qs" by blast
    from Allocate_over_aligned [OF i ok assms gt] show ?thesis
      by (simp add: IsAligned_def)
  qed
  have pn: "p = malloced_items s' + kRedzone cfg \<and> mem s' (p - kRedzone cfg) = CHUNK_ALLOCATED"
    if le: "alignment \<le> kRedzone cfg"
    using Allocate_not_over_aligned [OF assms le] by simp
  from rd lk ov pn show ?thesis by blast
qed

text \<open>
  Witness of C2 (amended): \<^verbatim>\<open>memalign(0x80000, 10)\<close> on the initial state returns a
  pointer aligned to \<open>0x80000\<close> with the record \<open>0x80\<close> bytes before it, and
  \<^verbatim>\<open>malloc(0x80000)\<close> returns the chunk plus \<open>0x80\<close>.
\<close>

theorem PtrToChunk_of_Allocate_witness:
  "\<exists>s t. scenario_aligned = Inr (0x7F0000080000, s)
      \<and> scenario_plain = Inr (0x7F0000000080, t)
      \<and> (10 :: addr) \<noteq> 0 \<and> (0x80000 :: addr) \<noteq> 0
      \<and> reachable sample_cfg init_state \<and> os_ok sample_cfg init_state sample_os
      \<and> kRedzone sample_cfg < 0x80000 \<and> 0 \<le> kRedzone sample_cfg
      \<and> malloced_items s = 0x7F0000000000
      \<and> PtrToChunk sample_cfg (mem s) 0x7F0000080000 = 0x7F0000000000
      \<and> IsAligned 0x7F0000080000 0x80000
      \<and> mem s 0x7F000007FF80 = CHUNK_MEMALIGN
      \<and> mem s 0x7F000007FF88 = 0x7F0000000000
      \<and> malloced_items t = 0x7F0000000000
      \<and> PtrToChunk sample_cfg (mem t) 0x7F0000000080 = 0x7F0000000000
      \<and> mem t 0x7F0000000000 = CHUNK_ALLOCATED"
proof -
  from scenario_aligned_run obtain s where
    r: "scenario_aligned = Inr (0x7F0000080000, s)" and m: "malloced_items s = 0x7F0000000000"
    by blast
  from scenario_plain_alloc obtain t where
    r': "scenario_plain = Inr (0x7F0000000080, t)" and m': "malloced_items t = 0x7F0000000000"
    by blast
  have a: "Allocate sample_cfg sample_os 0x80000 10 init_state = Inr (0x7F0000080000, s)"
    using r by (simp add: scenario_aligned_def)
  have a': "Allocate sample_cfg sample_os 0 0x80000 init_state = Inr (0x7F0000000080, t)"
    using r' by (simp add: scenario_plain_def)
  have ok: "os_ok sample_cfg init_state sample_os"
    by (rule os_ok_sample) (simp add: sample_cfg_def)
  have rs: "reachable sample_cfg init_state" by (rule reachable.init [OF wf_config_sample(1)])
  have k: "kRedzone sample_cfg = 0x80" by (simp add: kRedzone_def sample_cfg_def)
  have n: "(10 :: addr) \<noteq> 0" "(0x80000 :: addr) \<noteq> 0" by simp_all
  from PtrToChunk_of_Allocate [OF a n(1)] rs ok
  have 1: "PtrToChunk sample_cfg (mem s) 0x7F0000080000 = 0x7F0000000000
      \<and> IsAligned 0x7F0000080000 0x80000
      \<and> mem s 0x7F000007FF80 = CHUNK_MEMALIGN
      \<and> mem s 0x7F000007FF88 = 0x7F0000000000"
    by (simp add: m k)
  from PtrToChunk_of_Allocate [OF a' n(2)]
  have 2: "PtrToChunk sample_cfg (mem t) 0x7F0000000080 = 0x7F0000000000
      \<and> mem t 0x7F0000000000 = CHUNK_ALLOCATED"
    by (simp add: m' k)
  from r r' rs ok m m' 1 2 show ?thesis
    by (intro exI [of _ s] exI [of _ t]) (simp add: k)
qed

lemma os_ok_sample2:
  assumes "kPageSize cfg = 4096" and "mapped s = [(0x7F0000000000, 0x100000)]"
  shows "os_ok cfg s sample_os2"
  unfolding os_ok_def
proof
  fix n :: addr
  show "sample_os2 n = - 1 \<or> (sample_os2 n \<noteq> 0 \<and> unat (kPageSize cfg) dvd unat (sample_os2 n)
      \<and> unat (sample_os2 n) + unat n \<le> 2 ^ 64
      \<and> (\<forall>(b, l)\<in>set (mapped s). region (sample_os2 n) n \<inter> region b l = {}))"
  proof (cases "n \<le> 0x100000")
    case True
    then have "unat n \<le> 0x100000" by (simp add: word_le_nat_alt)
    with True show ?thesis by (simp add: sample_os2_def assms region_def)
  next
    case False
    then show ?thesis by (simp add: sample_os2_def)
  qed
qed

text \<open>
  Claim C9: \<^verbatim>\<open>Reallocate\<close> of a non-null pointer to a size that is not 0, when it returns,
  has called \<^verbatim>\<open>Allocate\<close> with alignment 0 on the entry state, which returned the drawn
  chunk plus \<^verbatim>\<open>kRedzone\<close>, has copied the words of the old block into the new one, has
  called \<^verbatim>\<open>Deallocate\<close> on the old pointer and has counted the call; it returns the
  pointer of that \<^verbatim>\<open>Allocate\<close>, whatever the alignment of the old pointer was.  In a state
  the allocator can be in, for a pointer to a live block, the new chunk is the head of the
  live list and \<^verbatim>\<open>CHUNK_ALLOCATED\<close> in the state returned, the returned pointer resolves
  to it, the old chunk is no longer \<^verbatim>\<open>CHUNK_ALLOCATED\<close>, and the returned pointer is
  aligned to no power of two above \<^verbatim>\<open>kRedzone\<close>.
\<close>

theorem Reallocate_alignment_zero:
  assumes "Reallocate cfg os ptr sz s = Inr (q, s')" and "ptr \<noteq> 0" and "sz \<noteq> 0"
  shows "\<exists>s1 s2 s3.
        Allocate cfg os 0 sz s = Inr (q, s1)
      \<and> q = malloced_items s1 + kRedzone cfg
      \<and> asan_copy_mem q ptr
          ((min sz (used_size (mem s) (PtrToChunk cfg (mem s) ptr)) + kWordSize - 1) div kWordSize)
          s1 = Inr s2
      \<and> Deallocate cfg ptr s2 = Inr s3
      \<and> s' = s3\<lparr>stat_reallocs := stat_reallocs s3 + 1,
                 stat_realloced := stat_realloced s3
                    + min sz (used_size (mem s) (PtrToChunk cfg (mem s) ptr))\<rparr>
      \<and> (reachable cfg s \<and> os_ok cfg s os \<and> valid_ptr cfg s ptr \<longrightarrow>
            malloced_items s' = malloced_items s1
          \<and> chunk_state (mem s') (malloced_items s1) = CHUNK_ALLOCATED
          \<and> PtrToChunk cfg (mem s') q = malloced_items s1
          \<and> chunk_state (mem s') (PtrToChunk cfg (mem s) ptr) \<noteq> CHUNK_ALLOCATED
          \<and> (\<forall>a. IsPowerOfTwo a \<and> kRedzone cfg < a \<longrightarrow> \<not> IsAligned q a))"
proof -
  define old where "old = used_size (mem s) (PtrToChunk cfg (mem s) ptr)"
  from assms obtain s1 s2 s3 where
    a: "Allocate cfg os 0 sz s = Inr (q, s1)" and
    c: "asan_copy_mem q ptr ((min sz old + kWordSize - 1) div kWordSize) s1 = Inr s2" and
    d: "Deallocate cfg ptr s2 = Inr s3" and
    e: "s' = s3\<lparr>stat_reallocs := stat_reallocs s3 + 1,
                 stat_realloced := stat_realloced s3 + min sz old\<rparr>"
    unfolding old_def
    by (auto simp: Reallocate_def CHECK_Inr_iff bind_r_Inr_iff Let_def split: prod.splits)
  from Allocate_Inr_cases [OF a assms(3)] obtain sz' m s0 t where
    ac: "AllocateChunk cfg os sz' s = Inr (m, s0)" and
    pl: "place cfg 0 m (set_used_size m sz s0) = Inr (q, t)" and
    po: "PoisonShadow cfg q (RoundUptoRedzone cfg sz) 0 t = Inr s1"
    by blast
  from pl have q: "q = m + kRedzone cfg" and t: "t = set_used_size m sz s0"
    by (simp_all add: place_no_alignment)
  have m1: "malloced_items s1 = m"
    using PoisonShadow_Inr [OF po] AllocateChunk_malloced_items [OF ac] t
    by (simp add: set_used_size_def store_def)
  have q1: "q = malloced_items s1 + kRedzone cfg" using q m1 by simp
  have live: "malloced_items s' = malloced_items s1
          \<and> chunk_state (mem s') (malloced_items s1) = CHUNK_ALLOCATED
          \<and> PtrToChunk cfg (mem s') q = malloced_items s1
          \<and> chunk_state (mem s') (PtrToChunk cfg (mem s) ptr) \<noteq> CHUNK_ALLOCATED
          \<and> (\<forall>a. IsPowerOfTwo a \<and> kRedzone cfg < a \<longrightarrow> \<not> IsAligned q a)"
    if rs: "reachable cfg s" and ok: "os_ok cfg s os" and v: "valid_ptr cfg s ptr"
  proof -
    from reachable_heap_inv [OF rs] obtain C L qs where i: "heap_inv cfg s C L qs" by blast
    from Reallocate_heap_inv [OF i ok v assms(3) assms(1)] obtain C' L' qs' m' where
      i': "heap_inv cfg s' C' L' qs'" and qm: "q = m' + kRedzone cfg" and mL: "m' \<in> L'"
      and mi: "malloced_items s' = m'"
      and st: "chunk_state (mem s') (PtrToChunk cfg (mem s) ptr) \<noteq> CHUNK_ALLOCATED"
      by blast
    from qm q have mm: "m' = m" by simp
    from i' have wf: "wf_config cfg" and lv: "live_ok (mem s') C' L' (malloced_items s')"
      and ch: "chunks_ok cfg (mem s') C'"
      by (simp_all add: heap_inv_def)
    from lv mL have al: "chunk_state (mem s') m' = CHUNK_ALLOCATED" and mC: "m' \<in> C'"
      by (auto simp: live_ok_def)
    from ch mC have am: "aligned cfg m'" by (simp add: chunks_ok_def)
    have lk: "PtrToChunk cfg (mem s') q = m'"
      using al by (simp add: PtrToChunk_def Let_def qm magic_defs)
    have na: "\<not> IsAligned q a" if "IsPowerOfTwo a \<and> kRedzone cfg < a" for a
      using redzone_not_aligned [OF wf am, of a] that by (simp add: IsAligned_def qm)
    from mi al lk st na show ?thesis unfolding m1 mm by blast
  qed
  from a q1 c d e live show ?thesis unfolding old_def by blast
qed

text \<open>
  Witness of C9: the pointer of \<open>scenario_aligned\<close> is aligned to \<open>0x80000\<close>;
  \<^verbatim>\<open>realloc\<close> of it to \<open>0x40000\<close> bytes returns the pointer of a new chunk, which is
  not aligned to \<open>0x80000\<close>, and the old chunk is in the quarantine.
\<close>

theorem Reallocate_alignment_zero_witness:
  "\<exists>s s'. scenario_aligned = Inr (0x7F0000080000, s)
      \<and> scenario_realloc = Inr (0x7F0000100080, s')
      \<and> (0x7F0000080000 :: addr) \<noteq> 0 \<and> (0x40000 :: addr) \<noteq> 0
      \<and> reachable sample_cfg s \<and> os_ok sample_cfg s sample_os2
      \<and> valid_ptr sample_cfg s 0x7F0000080000
      \<and> IsAligned 0x7F0000080000 0x80000
      \<and> \<not> IsAligned 0x7F0000100080 0x80000
      \<and> (\<exists>s1. Allocate sample_cfg sample_os2 0 0x40000 s = Inr (0x7F0000100080, s1)
            \<and> malloced_items s1 = 0x7F0000100000)
      \<and> malloced_items s' = 0x7F0000100000
      \<and> chunk_state (mem s') 0x7F0000100000 = CHUNK_ALLOCATED
      \<and> PtrToChunk sample_cfg (mem s') 0x7F0000100080 = 0x7F0000100000
      \<and> chunk_state (mem s') 0x7F0000000000 \<noteq> CHUNK_ALLOCATED"
proof -
  from scenario_aligned_reachable obtain s where
    r: "scenario_aligned = Inr (0x7F0000080000, s)"
    and rs: "reachable sample_cfg s" and v: "valid_ptr sample_cfg s 0x7F0000080000"
    by blast
  from scenario_aligned_free_run obtain t where
    "scenario_aligned = Inr (0x7F0000080000, t)"
    "PtrToChunk sample_cfg (mem t) 0x7F0000080000 = 0x7F0000000000"
    by blast
  then have f: "PtrToChunk sample_cfg (mem s) 0x7F0000080000 = 0x7F0000000000"
    unfolding r by simp
  from scenario_aligned_run obtain t where
    "scenario_aligned = Inr (0x7F0000080000, t)" "mapped t = [(0x7F0000000000, 0x100000)]"
    by blast
  then have mp: "mapped s = [(0x7F0000000000, 0x100000)]"
    unfolding r by simp
  from scenario_realloc_run obtain s' where
    r': "scenario_realloc = Inr (0x7F0000100080, s')" by blast
  have re: "Reallocate sample_cfg sample_os2 0x7F0000080000 0x40000 s = Inr (0x7F0000100080, s')"
    using r' by (simp add: scenario_realloc_def r)
  have ok: "os_ok sample_cfg s sample_os2"
    by (rule os_ok_sample2 [OF _ mp]) (simp add: sample_cfg_def)
  have k: "kRedzone sample_cfg = 0x80" by (simp add: kRedzone_def sample_cfg_def)
  have p2: "IsPowerOfTwo (0x80000 :: addr)" by (simp add: IsPowerOfTwo_def)
  have n: "(0x7F0000080000 :: addr) \<noteq> 0" "(0x40000 :: addr) \<noteq> 0" by simp_all
  from Reallocate_alignment_zero [OF re n] obtain s1 where
    a: "Allocate sample_cfg sample_os2 0 0x40000 s = Inr (0x7F0000100080, s1)"
    and q: "(0x7F0000100080 :: addr) = malloced_items s1 + kRedzone sample_cfg"
    and l: "reachable sample_cfg s \<and> os_ok sample_cfg s sample_os2
          \<and> valid_ptr sample_cfg s 0x7F0000080000 \<longrightarrow>
            malloced_items s' = malloced_items s1
          \<and> chunk_state (mem s') (malloced_items s1) = CHUNK_ALLOCATED
          \<and> PtrToChunk sample_cfg (mem s') 0x7F0000100080 = malloced_items s1
          \<and> chunk_state (mem s') (PtrToChunk sample_cfg (mem s) 0x7F0000080000) \<noteq> CHUNK_ALLOCATED
          \<and> (\<forall>a. IsPowerOfTwo a \<and> kRedzone sample_cfg < a \<longrightarrow> \<not> IsAligned 0x7F0000100080 a)"
    by blast
  have "malloced_items s1 = 0x7F0000100080 - kRedzone sample_cfg" unfolding q by simp
  then have m1: "malloced_items s1 = 0x7F0000100000" by (simp add: k)
  from l rs ok v have
    g: "malloced_items s' = 0x7F0000100000"
      "chunk_state (mem s') 0x7F0000100000 = CHUNK_ALLOCATED"
      "PtrToChunk sample_cfg (mem s') 0x7F0000100080 = 0x7F0000100000"
      "chunk_state (mem s') 0x7F0000000000 \<noteq> CHUNK_ALLOCATED"
    and na: "\<forall>a. IsPowerOfTwo a \<and> kRedzone sample_cfg < a \<longrightarrow> \<not> IsAligned 0x7F0000100080 a"
    unfolding m1 f by blast+
  from na p2 have na': "\<not> IsAligned 0x7F0000100080 (0x80000 :: addr)" by (simp add: k)
  have al: "IsAligned 0x7F0000080000 (0x80000 :: addr)" by (simp add: IsAligned_def)
  from r r' rs ok v a m1 g na' al show ?thesis
    by (intro exI [of _ s] exI [of _ s']) auto
qed

end
